(* ===== verification/Mysys_Prelude.thy ===== *)
theory Mysys_Prelude
  imports Main "HOL-Library.Word" "HOL-Library.Multiset" "HOL-Library.Monad_Syntax"
begin

text \<open>
  Shared vocabulary of the development: the machine types of the LP64 data model the
  sources are read under, checked array accesses, the memory blocks that \<open>my_malloc\<close> and
  \<open>my_realloc\<close> hand out, the comparator contract, and the generic list and multiset lemmas the
  component theories share.

  An undefined behaviour of the C code (an access outside a block, a failed \<open>DBUG_ASSERT\<close>,
  a loop that never ends) is the value \<^term>\<open>None\<close> of an \<open>option\<close> result. A theorem
  that an operation returns \<^term>\<open>Some\<close> therefore states that it is memory safe and
  terminates.
\<close>

section \<open>Machine types\<close>

type_synonym ptr = nat
type_synonym u8 = "8 word"
type_synonym u32 = "32 word"
type_synonym u64 = "64 word"

text \<open>
  \<open>uint\<close> values that are used as indices and counters are natural numbers below
  \<open>2 ^ 32\<close>; where the C arithmetic can leave that range the wrap-around is written out.
\<close>

definition uint_wrap :: "nat \<Rightarrow> nat" where
  "uint_wrap n = n mod 2 ^ 32"

definition uint_dec :: "nat \<Rightarrow> nat" where
  "uint_dec n = (if n = 0 then 2 ^ 32 - 1 else n - 1)"

text \<open>Conversion to a 32 bit \<open>int\<close>.\<close>

definition int_wrap :: "int \<Rightarrow> int" where
  "int_wrap n = (n + 2 ^ 31) mod 2 ^ 32 - 2 ^ 31"

lemma int_wrap_id: "- (2 ^ 31) \<le> n \<Longrightarrow> n < 2 ^ 31 \<Longrightarrow> int_wrap n = n"
  by (simp add: int_wrap_def)

text \<open>
  The result of a signed operation on \<open>int\<close> or on \<open>long\<close> (and \<open>longlong\<close>), which is undefined
  if it leaves the range of the type.
\<close>

definition c_int :: "int \<Rightarrow> int option" where
  "c_int n = (if - (2 ^ 31) \<le> n \<and> n < 2 ^ 31 then Some n else None)"

definition c_long :: "int \<Rightarrow> int option" where
  "c_long n = (if - (2 ^ 63) \<le> n \<and> n < 2 ^ 63 then Some n else None)"

lemma c_int_in: "- (2 ^ 31) \<le> n \<Longrightarrow> n < 2 ^ 31 \<Longrightarrow> c_int n = Some n"
  by (simp add: c_int_def)

lemma c_long_in: "- (2 ^ 63) \<le> n \<Longrightarrow> n < 2 ^ 63 \<Longrightarrow> c_long n = Some n"
  by (simp add: c_long_def)

section \<open>Checked array accesses\<close>

definition aget :: "'a list \<Rightarrow> nat \<Rightarrow> 'a option" where
  "aget xs i = (if i < length xs then Some (xs ! i) else None)"

definition aset :: "'a list \<Rightarrow> nat \<Rightarrow> 'a \<Rightarrow> 'a list option" where
  "aset xs i x = (if i < length xs then Some (xs[i := x]) else None)"

definition dbug_assert :: "bool \<Rightarrow> unit option" where
  "dbug_assert b = (if b then Some () else None)"

named_theorems cmem \<open>evaluation rules of checked accesses\<close>

lemma aget_in [simp, cmem]: "i < length xs \<Longrightarrow> aget xs i = Some (xs ! i)"
  by (simp add: aget_def)

lemma aset_in [simp, cmem]: "i < length xs \<Longrightarrow> aset xs i x = Some (xs[i := x])"
  by (simp add: aset_def)

lemma aget_out [simp, cmem]: "length xs \<le> i \<Longrightarrow> aget xs i = None"
  by (simp add: aget_def)

lemma aset_out [simp, cmem]: "length xs \<le> i \<Longrightarrow> aset xs i x = None"
  by (simp add: aset_def)

lemma aget_eq_Some_iff: "aget xs i = Some x \<longleftrightarrow> i < length xs \<and> x = xs ! i"
  by (auto simp: aget_def)

lemma aset_eq_Some_iff: "aset xs i x = Some ys \<longleftrightarrow> i < length xs \<and> ys = xs[i := x]"
  by (auto simp: aset_def)

lemma dbug_assert_True [simp, cmem]: "dbug_assert True = Some ()"
  by (simp add: dbug_assert_def)

lemma dbug_assert_False [simp, cmem]: "dbug_assert False = None"
  by (simp add: dbug_assert_def)

lemma dbug_assert_eq_Some_iff [simp]: "dbug_assert b = Some u \<longleftrightarrow> b"
  by (simp add: dbug_assert_def)

section \<open>Memory blocks\<close>

text \<open>
  A block of \<open>n\<close> slots from \<open>my_malloc\<close> (\<^verbatim>\<open>mysys/my_malloc.c\<close>): \<open>ok\<close> says whether the
  allocation succeeds and \<open>junk\<close> is what the fresh, uninitialised slots hold.
  \<open>my_realloc\<close> keeps the old contents up to the smaller size.
\<close>

definition malloc_slots :: "bool \<Rightarrow> (nat \<Rightarrow> 'a) \<Rightarrow> nat \<Rightarrow> 'a list option" where
  "malloc_slots ok junk n = (if ok then Some (map junk [0..<n]) else None)"

definition realloc_slots ::
  "bool \<Rightarrow> (nat \<Rightarrow> 'a) \<Rightarrow> 'a list \<Rightarrow> nat \<Rightarrow> 'a list option" where
  "realloc_slots ok junk old n =
     (if ok then Some (map (\<lambda>i. if i < length old then old ! i else junk i) [0..<n]) else None)"

lemma length_realloc_slots: "realloc_slots ok junk old n = Some xs \<Longrightarrow> length xs = n"
  by (auto simp: realloc_slots_def split: if_splits)

lemma nth_realloc_slots:
  "realloc_slots ok junk old n = Some xs \<Longrightarrow> i < n \<Longrightarrow> i < length old \<Longrightarrow> xs ! i = old ! i"
  by (auto simp: realloc_slots_def split: if_splits)

section \<open>Comparators\<close>

text \<open>
  The contract of a comparison callback (\<open>qsort_cmp\<close>, \<open>queue_compare\<close>,
  \<open>qsort_cmp2\<close>): its sign is antisymmetric and \<open>\<le> 0\<close> is transitive, so it is a total
  preorder on keys.
\<close>

locale comparator =
  fixes cmp :: "'k \<Rightarrow> 'k \<Rightarrow> int"
  assumes cmp_antisym: "sgn (cmp x y) = - sgn (cmp y x)"
    and cmp_trans: "cmp x y \<le> 0 \<Longrightarrow> cmp y z \<le> 0 \<Longrightarrow> cmp x z \<le> 0"
begin

lemma cmp_refl [simp]: "cmp x x = 0"
proof -
  have "sgn (cmp x x) = - sgn (cmp x x)" by (rule cmp_antisym)
  then show ?thesis by (simp add: sgn_if split: if_splits)
qed

lemma cmp_neg_iff: "cmp x y < 0 \<longleftrightarrow> cmp y x > 0"
  using cmp_antisym [of x y] by (auto simp: sgn_if split: if_splits)

lemma cmp_le_iff: "cmp x y \<le> 0 \<longleftrightarrow> cmp y x \<ge> 0"
  using cmp_antisym [of x y] by (auto simp: sgn_if split: if_splits)

lemma cmp_total: "cmp x y \<le> 0 \<or> cmp y x \<le> 0"
  using cmp_le_iff [of x y] by linarith

lemma cmp_eq_iff: "cmp x y = 0 \<longleftrightarrow> cmp y x = 0"
  using cmp_antisym [of x y] by (auto simp: sgn_if split: if_splits)

lemma cmp_less_trans: "cmp x y < 0 \<Longrightarrow> cmp y z \<le> 0 \<Longrightarrow> cmp x z < 0"
  by (metis cmp_le_iff cmp_trans not_less order_less_imp_le)

lemma cmp_le_less_trans: "cmp x y \<le> 0 \<Longrightarrow> cmp y z < 0 \<Longrightarrow> cmp x z < 0"
  by (metis cmp_le_iff cmp_trans not_less order_less_imp_le)

lemma swapped: "comparator (\<lambda>x y. - cmp x y)"
proof
  fix x y z
  show "sgn (- cmp x y) = - sgn (- cmp y x)"
    using cmp_antisym [of x y] by (simp add: sgn_minus)
  show "- cmp x y \<le> 0 \<Longrightarrow> - cmp y z \<le> 0 \<Longrightarrow> - cmp x z \<le> 0"
    using cmp_trans [of z y x] cmp_le_iff by (metis neg_le_0_iff_le)
qed

end

section \<open>Lists and multisets\<close>

lemma mset_update_swap:
  assumes "i < length xs" "j < length xs" "i \<noteq> j"
  shows "mset (xs[i := xs ! j, j := e]) = mset (xs[i := e])"
proof -
  have "mset ((xs[i := e])[i := (xs[i := e]) ! j, j := (xs[i := e]) ! i]) = mset (xs[i := e])"
    using assms by (intro mset_swap) auto
  then show ?thesis using assms by simp
qed

end
