(* ===== verification/Prio_Queue.thy ===== *)
theory Prio_Queue
  imports Mysys_Prelude
begin

text \<open>
  \<^verbatim>\<open>mysys/queues.c\<close> and \<^verbatim>\<open>include/queues.h\<close>: priority queues in an array of pointers.
  Slot 0 of the array is the sentinel that \<open>queue_insert\<close> writes, the elements are in slots
  \<open>1 .. elements\<close>. A \<open>NULL\<close> root is the empty block.

  First the operations, then the reference version of \<open>_downheap\<close> that the file keeps under
  \<open>OLD_VERSION\<close>, the equivalence of the two, the heap invariant of every operation, and the
  priority-queue interface with its client lemmas.
\<close>

section \<open>The operations\<close>

record 'arg queue =
  q_root :: "ptr list"
  q_first_cmp_arg :: 'arg
  q_elements :: nat
  q_max_elements :: nat
  q_offset_to_key :: nat
  q_max_at_top :: int
  q_compare :: "'arg \<Rightarrow> ptr \<Rightarrow> ptr \<Rightarrow> int"
  q_auto_extent :: nat

text \<open>The comparison of two elements as every operation makes it: the callback on the two
  key addresses, with the sign turned when the biggest element is wanted on top. The callbacks are
  taken not to return the least \<open>int\<close>, whose product with -1 the C type does not hold.\<close>

definition queue_cmp :: "'arg queue \<Rightarrow> ptr \<Rightarrow> ptr \<Rightarrow> int" where
  "queue_cmp q a b =
     q_compare q (q_first_cmp_arg q) (a + q_offset_to_key q) (b + q_offset_to_key q)
       * q_max_at_top q"

definition queue_set_max_at_top :: "'arg queue \<Rightarrow> bool \<Rightarrow> 'arg queue" where
  "queue_set_max_at_top q set_arg = q\<lparr>q_max_at_top := (if set_arg then -1 else 1)\<rparr>"

definition queue_set_cmp_arg :: "'arg queue \<Rightarrow> 'arg \<Rightarrow> 'arg queue" where
  "queue_set_cmp_arg q set_arg = q\<lparr>q_first_cmp_arg := set_arg\<rparr>"

definition init_queue ::
  "bool \<Rightarrow> (nat \<Rightarrow> ptr) \<Rightarrow> 'arg queue \<Rightarrow> nat \<Rightarrow> nat \<Rightarrow> bool \<Rightarrow> ('arg \<Rightarrow> ptr \<Rightarrow> ptr \<Rightarrow> int) \<Rightarrow> 'arg
    \<Rightarrow> 'arg queue \<times> nat" where
  "init_queue ok junk q maxe off max_top cmpf arg =
     (case malloc_slots ok junk (uint_wrap (maxe + 1)) of
        None \<Rightarrow> (q\<lparr>q_root := []\<rparr>, 1)
      | Some r \<Rightarrow>
          (queue_set_max_at_top
             (q\<lparr>q_root := r, q_elements := 0, q_compare := cmpf, q_first_cmp_arg := arg,
                q_max_elements := maxe, q_offset_to_key := off\<rparr>) max_top, 0))"

definition init_queue_ex ::
  "bool \<Rightarrow> (nat \<Rightarrow> ptr) \<Rightarrow> 'arg queue \<Rightarrow> nat \<Rightarrow> nat \<Rightarrow> bool \<Rightarrow> ('arg \<Rightarrow> ptr \<Rightarrow> ptr \<Rightarrow> int) \<Rightarrow> 'arg
    \<Rightarrow> nat \<Rightarrow> 'arg queue \<times> nat" where
  "init_queue_ex ok junk q maxe off max_top cmpf arg ext =
     (case init_queue ok junk q maxe off max_top cmpf arg of
        (q', ret) \<Rightarrow> if ret \<noteq> 0 then (q', ret) else (q'\<lparr>q_auto_extent := ext\<rparr>, 0))"

definition resize_queue ::
  "bool \<Rightarrow> (nat \<Rightarrow> ptr) \<Rightarrow> 'arg queue \<Rightarrow> nat \<Rightarrow> 'arg queue \<times> nat" where
  "resize_queue ok junk q maxe =
     (if q_max_elements q = maxe then (q, 0)
      else case realloc_slots ok junk (q_root q) (uint_wrap (maxe + 1)) of
        None \<Rightarrow> (q, 1)
      | Some r \<Rightarrow>
          (q\<lparr>q_elements := min (q_elements q) maxe, q_max_elements := maxe, q_root := r\<rparr>, 0))"

definition reinit_queue ::
  "bool \<Rightarrow> (nat \<Rightarrow> ptr) \<Rightarrow> 'arg queue \<Rightarrow> nat \<Rightarrow> nat \<Rightarrow> bool \<Rightarrow> ('arg \<Rightarrow> ptr \<Rightarrow> ptr \<Rightarrow> int) \<Rightarrow> 'arg
    \<Rightarrow> 'arg queue \<times> nat" where
  "reinit_queue ok junk q maxe off max_top cmpf arg =
     (fst (resize_queue ok junk
        (queue_set_max_at_top
           (q\<lparr>q_elements := 0, q_compare := cmpf, q_first_cmp_arg := arg,
              q_offset_to_key := off\<rparr>) max_top) maxe), 0)"

definition delete_queue :: "'arg queue \<Rightarrow> 'arg queue" where
  "delete_queue q = q\<lparr>q_root := []\<rparr>"

partial_function (option) queue_insert_loop ::
  "'arg queue \<Rightarrow> ptr \<Rightarrow> ptr list \<Rightarrow> nat \<Rightarrow> (ptr list \<times> nat) option" where
  "queue_insert_loop q element r idx =
     do { p \<leftarrow> aget r (idx div 2);
          if queue_cmp q element p < 0
          then do { r' \<leftarrow> aset r idx p; queue_insert_loop q element r' (idx div 2) }
          else Some (r, idx) }"

definition queue_insert :: "'arg queue \<Rightarrow> ptr \<Rightarrow> 'arg queue option" where
  "queue_insert q element =
     do { dbug_assert (q_elements q < q_max_elements q);
          r \<leftarrow> aset (q_root q) 0 element;
          let q1 = q\<lparr>q_elements := q_elements q + 1\<rparr>;
          (r1, idx) \<leftarrow> queue_insert_loop q1 element r (q_elements q1);
          r2 \<leftarrow> aset r1 idx element;
          Some (q1\<lparr>q_root := r2\<rparr>) }"

definition queue_insert_safe ::
  "bool \<Rightarrow> (nat \<Rightarrow> ptr) \<Rightarrow> 'arg queue \<Rightarrow> ptr \<Rightarrow> ('arg queue \<times> nat) option" where
  "queue_insert_safe ok junk q element =
     (if q_elements q = q_max_elements q then
        if q_auto_extent q = 0 then Some (q, 2)
        else case resize_queue ok junk q (uint_wrap (q_max_elements q + q_auto_extent q)) of
          (q1, ret) \<Rightarrow>
            if ret \<noteq> 0 then Some (q1, 1)
            else do { q2 \<leftarrow> queue_insert q1 element; Some (q2, 0) }
      else do { q2 \<leftarrow> queue_insert q element; Some (q2, 0) })"

text \<open>The child that moves up: the smaller of the one or two children of slot \<open>idx\<close>.\<close>

definition next_child :: "'arg queue \<Rightarrow> ptr list \<Rightarrow> nat \<Rightarrow> nat option" where
  "next_child q r idx =
     (let next_index = idx + idx in
      if next_index < q_elements q then
        do { a \<leftarrow> aget r next_index;
             b \<leftarrow> aget r (next_index + 1);
             Some (if queue_cmp q a b > 0 then next_index + 1 else next_index) }
      else Some next_index)"

text \<open>The first loop of \<open>_downheap\<close>. The flag of the result says whether the function has
  already returned out of the loop.\<close>

partial_function (option) downheap_down ::
  "'arg queue \<Rightarrow> ptr \<Rightarrow> ptr list \<Rightarrow> nat \<Rightarrow> bool \<Rightarrow> (ptr list \<times> nat \<times> bool) option" where
  "downheap_down q element r idx first =
     (if idx \<le> q_elements q div 2 then
        do { next_index \<leftarrow> next_child q r idx;
             c \<leftarrow> aget r next_index;
             if first \<and> queue_cmp q c element \<ge> 0
             then do { r' \<leftarrow> aset r idx element; Some (r', idx, True) }
             else do { r' \<leftarrow> aset r idx c; downheap_down q element r' next_index False } }
      else Some (r, idx, False))"

text \<open>The second loop: move the element back up to the first slot below a smaller one.\<close>

partial_function (option) downheap_up ::
  "'arg queue \<Rightarrow> ptr \<Rightarrow> nat \<Rightarrow> ptr list \<Rightarrow> nat \<Rightarrow> (ptr list \<times> nat) option" where
  "downheap_up q element start_idx r idx =
     (let next_index = idx div 2 in
      if next_index > start_idx then
        do { p \<leftarrow> aget r next_index;
             if queue_cmp q p element < 0 then Some (r, idx)
             else do { r' \<leftarrow> aset r idx p; downheap_up q element start_idx r' next_index } }
      else Some (r, idx))"

definition downheap :: "'arg queue \<Rightarrow> nat \<Rightarrow> 'arg queue option" where
  "downheap q idx =
     do { element \<leftarrow> aget (q_root q) idx;
          (r, i, returned) \<leftarrow> downheap_down q element (q_root q) idx True;
          if returned then Some (q\<lparr>q_root := r\<rparr>)
          else do { (r1, i1) \<leftarrow> downheap_up q element idx r i;
                    r2 \<leftarrow> aset r1 i1 element;
                    Some (q\<lparr>q_root := r2\<rparr>) } }"

definition queue_remove :: "'arg queue \<Rightarrow> nat \<Rightarrow> ('arg queue \<times> ptr) option" where
  "queue_remove q idx =
     do { dbug_assert (idx < q_max_elements q);
          element \<leftarrow> aget (q_root q) (idx + 1);
          l \<leftarrow> aget (q_root q) (q_elements q);
          r \<leftarrow> aset (q_root q) (idx + 1) l;
          q' \<leftarrow> downheap (q\<lparr>q_root := r, q_elements := uint_dec (q_elements q)\<rparr>) (idx + 1);
          Some (q', element) }"

definition queue_replaced :: "'arg queue \<Rightarrow> 'arg queue option" where
  "queue_replaced q = downheap q 1"

fun queue_fix_loop :: "nat \<Rightarrow> 'arg queue \<Rightarrow> 'arg queue option" where
  "queue_fix_loop 0 q = Some q"
| "queue_fix_loop (Suc i) q = do { q' \<leftarrow> downheap q (Suc i); queue_fix_loop i q' }"

definition queue_fix :: "'arg queue \<Rightarrow> 'arg queue option" where
  "queue_fix q = queue_fix_loop (q_elements q div 2) q"

definition queue_remove_all :: "'arg queue \<Rightarrow> 'arg queue" where
  "queue_remove_all q = q\<lparr>q_elements := 0\<rparr>"

definition queue_top :: "'arg queue \<Rightarrow> ptr option" where
  "queue_top q = aget (q_root q) 1"

definition queue_element :: "'arg queue \<Rightarrow> nat \<Rightarrow> ptr option" where
  "queue_element q index = aget (q_root q) (index + 1)"

definition queue_end :: "'arg queue \<Rightarrow> ptr option" where
  "queue_end q = aget (q_root q) (q_elements q)"

definition queue_is_full :: "'arg queue \<Rightarrow> bool" where
  "queue_is_full q \<longleftrightarrow> q_elements q = q_max_elements q"

definition is_queue_inited :: "'arg queue \<Rightarrow> bool" where
  "is_queue_inited q \<longleftrightarrow> q_root q \<noteq> []"

text \<open>The version of \<open>_downheap\<close> kept for comparison (\<open>#else\<close> branch of
  \<open>OLD_VERSION\<close>).\<close>

partial_function (option) downheap_old_loop ::
  "'arg queue \<Rightarrow> ptr \<Rightarrow> ptr list \<Rightarrow> nat \<Rightarrow> (ptr list \<times> nat) option" where
  "downheap_old_loop q element r idx =
     (if idx \<le> q_elements q div 2 then
        do { next_index \<leftarrow> next_child q r idx;
             c \<leftarrow> aget r next_index;
             if queue_cmp q c element \<ge> 0 then Some (r, idx)
             else do { r' \<leftarrow> aset r idx c; downheap_old_loop q element r' next_index } }
      else Some (r, idx))"

definition downheap_old :: "'arg queue \<Rightarrow> nat \<Rightarrow> 'arg queue option" where
  "downheap_old q idx =
     do { element \<leftarrow> aget (q_root q) idx;
          (r, i) \<leftarrow> downheap_old_loop q element (q_root q) idx;
          r' \<leftarrow> aset r i element;
          Some (q\<lparr>q_root := r'\<rparr>) }"


section \<open>Heap order\<close>

text \<open>\<open>heap_from q s r\<close>: in the array \<open>r\<close> every parent at slot \<open>s\<close> or above is no larger
  than its children.\<close>

definition heap_from :: "'arg queue \<Rightarrow> nat \<Rightarrow> ptr list \<Rightarrow> bool" where
  "heap_from q s r \<longleftrightarrow>
     (\<forall>i\<in>{2..q_elements q}. s \<le> i div 2 \<longrightarrow> queue_cmp q (r ! (i div 2)) (r ! i) \<le> 0)"

text \<open>The same with a hole at \<open>h\<close>: the edges at the hole are exempt, but the parent of the
  hole is no larger than the children of the hole.\<close>

definition hole_heap :: "'arg queue \<Rightarrow> nat \<Rightarrow> nat \<Rightarrow> ptr list \<Rightarrow> bool" where
  "hole_heap q s h r \<longleftrightarrow>
     (\<forall>i\<in>{2..q_elements q}. s \<le> i div 2 \<and> i \<noteq> h \<and> i div 2 \<noteq> h \<longrightarrow>
        queue_cmp q (r ! (i div 2)) (r ! i) \<le> 0) \<and>
     (\<forall>c\<in>{2..q_elements q}. c div 2 = h \<and> s \<le> h div 2 \<longrightarrow>
        queue_cmp q (r ! (h div 2)) (r ! c) \<le> 0)"

definition queue_wf :: "'arg queue \<Rightarrow> bool" where
  "queue_wf q \<longleftrightarrow> length (q_root q) = q_max_elements q + 1 \<and>
     q_elements q \<le> q_max_elements q \<and> q_max_elements q + 1 < 2 ^ 32 \<and>
     (q_max_at_top q = 1 \<or> q_max_at_top q = -1)"

definition queue_heap :: "'arg queue \<Rightarrow> bool" where
  "queue_heap q \<longleftrightarrow> heap_from q 1 (q_root q)"

definition queue_list :: "'arg queue \<Rightarrow> ptr list" where
  "queue_list q = take (q_elements q) (tl (q_root q))"

abbreviation queue_mset :: "'arg queue \<Rightarrow> ptr multiset" where
  "queue_mset q \<equiv> mset (queue_list q)"

lemma queue_cmp_update [simp]:
  "queue_cmp (q\<lparr>q_root := r\<rparr>) = queue_cmp q"
  "queue_cmp (q\<lparr>q_elements := n\<rparr>) = queue_cmp q"
  "queue_cmp (q\<lparr>q_max_elements := m\<rparr>) = queue_cmp q"
  by (simp_all add: queue_cmp_def fun_eq_iff)

lemma heap_from_update [simp]: "heap_from (q\<lparr>q_root := r'\<rparr>) s r = heap_from q s r"
  by (simp add: heap_from_def)

text \<open>The callback's contract carries over to the comparison of elements.\<close>

lemma comparator_queue_cmp:
  assumes "comparator (q_compare q (q_first_cmp_arg q))"
    and "q_max_at_top q = 1 \<or> q_max_at_top q = -1"
  shows "comparator (queue_cmp q)"
proof -
  let ?c = "\<lambda>a b. q_compare q (q_first_cmp_arg q) (a + q_offset_to_key q) (b + q_offset_to_key q)"
  have c: "comparator ?c"
    using assms(1) unfolding comparator_def by blast
  from assms(2) show ?thesis
  proof
    assume "q_max_at_top q = 1"
    then have "queue_cmp q = ?c" by (simp add: fun_eq_iff queue_cmp_def)
    with c show ?thesis by simp
  next
    assume "q_max_at_top q = -1"
    then have "queue_cmp q = (\<lambda>a b. - ?c a b)" by (simp add: fun_eq_iff queue_cmp_def)
    with comparator.swapped [OF c] show ?thesis by simp
  qed
qed

lemma heap_from_edgeD:
  "heap_from q s r \<Longrightarrow> 2 \<le> i \<Longrightarrow> i \<le> q_elements q \<Longrightarrow> s \<le> i div 2 \<Longrightarrow>
     queue_cmp q (r ! (i div 2)) (r ! i) \<le> 0"
  by (simp add: heap_from_def)

text \<open>The contents as a multiset: what matters is the whole array and the slots outside
  \<open>1 .. elements\<close>.\<close>

lemma mset_inner_eq:
  assumes "length r1 = length r2" "n < length r2" "mset r1 = mset r2"
    and "r1 ! 0 = r2 ! 0" "\<forall>j. n < j \<and> j < length r2 \<longrightarrow> r1 ! j = r2 ! j"
  shows "mset (take n (tl r1)) = mset (take n (tl r2))"
proof -
  have split: "mset r = {#r ! 0#} + mset (take n (tl r)) + mset (drop n (tl r))"
    if "n < length r" for r :: "'a list"
  proof -
    from that obtain x xs where r: "r = x # xs" by (cases r) auto
    have "mset xs = mset (take n xs) + mset (drop n xs)"
      by (metis append_take_drop_id mset_append)
    then show ?thesis by (simp add: r)
  qed
  have "drop n (tl r1) = drop n (tl r2)"
    using assms by (auto intro!: nth_equalityI simp: nth_tl)
  with split [of r1] split [of r2] assms show ?thesis by simp
qed

section \<open>The next child\<close>

lemma next_child_ok:
  assumes c: "comparator (queue_cmp q)"
    and h: "1 \<le> h" "h \<le> q_elements q div 2" and len: "q_elements q < length r"
  obtains c where "next_child q r h = Some c" "c div 2 = h" "h < c" "c \<le> q_elements q"
    "\<And>c'. c' div 2 = h \<Longrightarrow> c' \<le> q_elements q \<Longrightarrow> queue_cmp q (r ! c) (r ! c') \<le> 0"
proof -
  let ?n = "q_elements q"
  have child: "c' = 2 * h \<or> c' = 2 * h + 1" if "c' div 2 = h" for c'
    using that by auto
  show thesis
  proof (cases "h + h < ?n")
    case True
    let ?a = "r ! (h + h)" and ?b = "r ! (h + h + 1)"
    let ?c = "if queue_cmp q ?a ?b > 0 then h + h + 1 else h + h"
    show thesis
    proof (rule that [of ?c])
      show "next_child q r h = Some ?c"
        using True len by (simp add: next_child_def Let_def)
      show "?c div 2 = h" "h < ?c" "?c \<le> ?n" using True h by auto
      fix c' assume "c' div 2 = h"
      with child have "c' = h + h \<or> c' = h + h + 1" by (auto simp: mult_2)
      then show "queue_cmp q (r ! ?c) (r ! c') \<le> 0"
        using comparator.cmp_refl [OF c] comparator.cmp_neg_iff [OF c, of ?b ?a] by auto
    qed
  next
    case False
    show thesis
    proof (rule that [of "h + h"])
      show "next_child q r h = Some (h + h)" using False by (simp add: next_child_def)
      show "(h + h) div 2 = h" "h < h + h" "h + h \<le> ?n" using h by auto
      fix c' assume "c' div 2 = h" "c' \<le> ?n"
      with child False h have "c' = h + h" by (auto simp: mult_2)
      then show "queue_cmp q (r ! (h + h)) (r ! c') \<le> 0"
        using comparator.cmp_refl [OF c] by simp
    qed
  qed
qed

section \<open>Sifting down\<close>

lemma hole_heapD:
  "hole_heap q s h r \<Longrightarrow> 2 \<le> i \<Longrightarrow> i \<le> q_elements q \<Longrightarrow> s \<le> i div 2 \<Longrightarrow> i \<noteq> h \<Longrightarrow> i div 2 \<noteq> h \<Longrightarrow>
     queue_cmp q (r ! (i div 2)) (r ! i) \<le> 0"
  by (simp add: hole_heap_def)

lemma hole_step:
  assumes hh: "hole_heap q s h r" and h: "1 \<le> h" "s \<le> h"
    and len: "q_elements q < length r"
    and c: "c div 2 = h" "h < c" "c \<le> q_elements q"
    and least: "\<And>c'. c' div 2 = h \<Longrightarrow> c' \<le> q_elements q \<Longrightarrow> queue_cmp q (r ! c) (r ! c') \<le> 0"
  shows "hole_heap q s c (r[h := r ! c])"
proof -
  have edge: "queue_cmp q (r ! (i div 2)) (r ! i) \<le> 0"
    if "2 \<le> i" "i \<le> q_elements q" "s \<le> i div 2" "i \<noteq> h" "i div 2 \<noteq> h" for i
    using hh that by (simp add: hole_heap_def)
  have grand: "queue_cmp q (r ! (h div 2)) (r ! c) \<le> 0" if "s \<le> h div 2"
    using hh that c h by (auto simp: hole_heap_def)
  have hd: "h div 2 \<noteq> h" and hl: "h < length r" using h c len by auto
  show ?thesis unfolding hole_heap_def
  proof (intro conjI ballI impI)
    fix i assume i: "i \<in> {2..q_elements q}" and "s \<le> i div 2 \<and> i \<noteq> c \<and> i div 2 \<noteq> c"
    moreover obtain p k where p: "i div 2 = p" and k: "h div 2 = k" by blast
    moreover have "i = h \<longrightarrow> p = k" using p k by auto
    ultimately show "queue_cmp q (r[h := r ! c] ! (i div 2)) (r[h := r ! c] ! i) \<le> 0"
      using edge [of i] grand least [of i] hd hl unfolding p k
      by (cases "i = h"; cases "p = h") simp_all
  next
    fix c' assume "c' \<in> {2..q_elements q}" "c' div 2 = c \<and> s \<le> c div 2"
    then show "queue_cmp q (r[h := r ! c] ! (c div 2)) (r[h := r ! c] ! c') \<le> 0"
      using edge [of c'] c h hl by auto
  qed
qed

lemma hole_fill:
  assumes hh: "hole_heap q s h r" and h: "1 \<le> h" "h < length r"
    and below: "\<And>c. 2 \<le> c \<Longrightarrow> c \<le> q_elements q \<Longrightarrow> c div 2 = h \<Longrightarrow> queue_cmp q e (r ! c) \<le> 0"
    and above: "s \<le> h div 2 \<Longrightarrow> queue_cmp q (r ! (h div 2)) e \<le> 0"
  shows "heap_from q s (r[h := e])"
  unfolding heap_from_def
proof (intro ballI impI)
  fix i assume i: "i \<in> {2..q_elements q}" "s \<le> i div 2"
  obtain p k where p: "i div 2 = p" and k: "h div 2 = k" by blast
  have "k \<noteq> h" "i = h \<longrightarrow> p = k" using h p k by auto
  moreover have "queue_cmp q (r ! p) (r ! i) \<le> 0" if "i \<noteq> h" "p \<noteq> h"
    using hh i that unfolding hole_heap_def p [symmetric] by blast
  ultimately show "queue_cmp q (r[h := e] ! (i div 2)) (r[h := e] ! i) \<le> 0"
    using i h(2) below [of i] above unfolding p k
    by (cases "i = h"; cases "p = h") simp_all
qed

lemma hole_heap_start:
  assumes "heap_from q (Suc s) r" "1 \<le> s"
  shows "hole_heap q s s r"
  using assms unfolding hole_heap_def heap_from_def
  by (auto simp: Suc_le_eq dest: le_neq_trans)

text \<open>The reference loop, started with a hole at \<open>h\<close>: it returns, it stays inside
  \<open>h .. elements\<close>, and putting the element into the final hole gives heap order and the same
  multiset.\<close>

lemma downheap_old_loop_ok:
  assumes c: "comparator (queue_cmp q)"
  shows "1 \<le> h \<Longrightarrow> h \<le> q_elements q \<Longrightarrow> s \<le> h \<Longrightarrow> q_elements q < length r \<Longrightarrow>
     hole_heap q s h r \<Longrightarrow> (s \<le> h div 2 \<Longrightarrow> queue_cmp q (r ! (h div 2)) e \<le> 0) \<Longrightarrow>
     \<exists>r' h'. downheap_old_loop q e r h = Some (r', h') \<and> h \<le> h' \<and> h' \<le> q_elements q \<and>
       length r' = length r \<and> heap_from q s (r'[h' := e]) \<and>
       mset (r'[h' := e]) = mset (r[h := e]) \<and> queue_cmp q (r'[h' := e] ! h) e \<le> 0 \<and>
       (\<forall>j. j < h \<or> q_elements q < j \<longrightarrow> r' ! j = r ! j)"
proof (induction "q_elements q - h" arbitrary: h r rule: less_induct)
  case less
  note prems = less.prems
  show ?case
  proof (cases "h \<le> q_elements q div 2")
    case False
    then have "c' div 2 \<noteq> h" if "c' \<le> q_elements q" for c' using that by auto
    with prems have "heap_from q s (r[h := e])" by (intro hole_fill) auto
    moreover have "downheap_old_loop q e r h = Some (r, h)"
      using False by (simp add: downheap_old_loop.simps)
    ultimately show ?thesis using prems comparator.cmp_refl [OF assms] by auto
  next
    case True
    obtain c where nc: "next_child q r h = Some c" "c div 2 = h" "h < c" "c \<le> q_elements q"
      "\<And>c'. c' div 2 = h \<Longrightarrow> c' \<le> q_elements q \<Longrightarrow> queue_cmp q (r ! c) (r ! c') \<le> 0"
      using next_child_ok [OF assms prems(1) True prems(4)] by blast
    have cl: "c < length r" "h < length r" using nc(3,4) prems(4) by auto
    show ?thesis
    proof (cases "queue_cmp q (r ! c) e \<ge> 0")
      case ge: True
      then have ec: "queue_cmp q e (r ! c) \<le> 0" using comparator.cmp_le_iff [OF assms] by simp
      have "heap_from q s (r[h := e])"
      proof (rule hole_fill [OF prems(5,1) cl(2)])
        fix c' assume "c' \<le> q_elements q" "c' div 2 = h"
        then show "queue_cmp q e (r ! c') \<le> 0"
          using nc(5) ec comparator.cmp_trans [OF assms] by blast
      qed (rule prems(6))
      moreover have "downheap_old_loop q e r h = Some (r, h)"
        using True nc(1) ge cl by (simp add: downheap_old_loop.simps)
      ultimately show ?thesis using prems comparator.cmp_refl [OF assms] by auto
    next
      case lt: False
      let ?r = "r[h := r ! c]"
      have step: "downheap_old_loop q e r h = downheap_old_loop q e ?r c"
        using True nc(1) lt cl by (subst downheap_old_loop.simps) simp
      have hh: "hole_heap q s c ?r"
        using hole_step [OF prems(5,1,3,4) nc(2-4)] nc(5) by blast
      have "\<exists>r' h'. downheap_old_loop q e ?r c = Some (r', h') \<and> c \<le> h' \<and> h' \<le> q_elements q \<and>
         length r' = length ?r \<and> heap_from q s (r'[h' := e]) \<and>
         mset (r'[h' := e]) = mset (?r[c := e]) \<and> queue_cmp q (r'[h' := e] ! c) e \<le> 0 \<and>
         (\<forall>j. j < c \<or> q_elements q < j \<longrightarrow> r' ! j = ?r ! j)"
        using nc(2-4) prems hh lt cl by (intro less.hyps) auto
      then obtain r' h' where ih: "downheap_old_loop q e ?r c = Some (r', h')" "c \<le> h'"
        "h' \<le> q_elements q" "length r' = length ?r" "heap_from q s (r'[h' := e])"
        "mset (r'[h' := e]) = mset (?r[c := e])"
        "\<forall>j. j < c \<or> q_elements q < j \<longrightarrow> r' ! j = ?r ! j" by blast
      have "mset (?r[c := e]) = mset (r[h := e])"
        using cl nc(3) by (intro mset_update_swap) auto
      moreover have "r'[h' := e] ! h = r ! c" using ih(2,7) nc(3) cl by simp
      ultimately show ?thesis using ih step nc(3) prems(2) lt by auto
    qed
  qed
qed

section \<open>The optimised loop is the reference loop\<close>

text \<open>\<open>downheap\<close> first lets the hole sink to a leaf and then climbs back. \<open>climb\<close> is that
  second phase with the final store.\<close>

definition climb :: "'arg queue \<Rightarrow> ptr \<Rightarrow> nat \<Rightarrow> ptr list \<Rightarrow> nat \<Rightarrow> ptr list option" where
  "climb q e st r h = do { (r1, h1) \<leftarrow> downheap_up q e st r h; aset r1 h1 e }"

lemma climb_hole:
  assumes "1 \<le> h" "h < length r"
  shows "climb q e st (r[h := x]) h = climb q e st r h"
proof -
  have "h div 2 \<noteq> h" "h div 2 < length r" using assms by auto
  then show ?thesis using assms(2)
    by (simp add: climb_def downheap_up.simps [of q e st _ h] Let_def)
qed

lemma climb_stop:
  assumes "1 \<le> h" "h < length r" "st < h div 2 \<Longrightarrow> queue_cmp q (r ! (h div 2)) e < 0"
  shows "climb q e st r h = Some (r[h := e])"
  using assms by (simp add: climb_def downheap_up.simps [of q e st r h] Let_def)

lemma climb_step:
  assumes "1 \<le> h" "h < length r" "st < h div 2" "queue_cmp q (r ! (h div 2)) e \<ge> 0"
  shows "climb q e st r h = climb q e st (r[h := r ! (h div 2)]) (h div 2)"
  using assms by (simp add: climb_def downheap_up.simps [of q e st r h] Let_def)

lemma downheap_down_False:
  assumes "h \<le> q_elements q div 2" "next_child q r h = Some c" "c < length r" "h < length r"
  shows "downheap_down q e r h False = downheap_down q e (r[h := r ! c]) c False"
  using assms by (subst downheap_down.simps) simp

lemma heap_from_sink:
  assumes "heap_from q (Suc h) r" "c div 2 = h" "h < c"
  shows "heap_from q (Suc c) (r[h := x])"
  unfolding heap_from_def
proof (intro ballI impI)
  fix i assume "i \<in> {2..q_elements q}" "Suc c \<le> i div 2"
  then show "queue_cmp q (r[h := x] ! (i div 2)) (r[h := x] ! i) \<le> 0"
    using assms heap_from_edgeD [OF assms(1), of i] by auto
qed

text \<open>Below a hole whose children are no smaller than the element, sinking is undone.\<close>

lemma down_climb_restore:
  assumes c: "comparator (queue_cmp q)"
  shows "1 \<le> h \<Longrightarrow> st < h \<Longrightarrow> h \<le> q_elements q \<Longrightarrow> q_elements q < length r \<Longrightarrow>
     heap_from q (Suc h) r \<Longrightarrow>
     (\<And>c. 2 \<le> c \<Longrightarrow> c \<le> q_elements q \<Longrightarrow> c div 2 = h \<Longrightarrow> queue_cmp q (r ! c) e \<ge> 0) \<Longrightarrow>
     \<exists>r' h'. downheap_down q e r h False = Some (r', h', False) \<and>
       climb q e st r' h' = climb q e st r h"
proof (induction "q_elements q - h" arbitrary: h r rule: less_induct)
  case less
  note prems = less.prems
  show ?case
  proof (cases "h \<le> q_elements q div 2")
    case False
    then show ?thesis by (simp add: downheap_down.simps)
  next
    case True
    obtain c where nc: "next_child q r h = Some c" "c div 2 = h" "h < c" "c \<le> q_elements q"
      using next_child_ok [OF assms prems(1) True prems(4)] by blast
    have cl: "c < length r" "h < length r" using nc(3,4) prems(4) by auto
    let ?r = "r[h := r ! c]"
    have ge: "queue_cmp q (r ! c) e \<ge> 0" using prems(6) [of c] nc prems(1) by auto
    have below: "queue_cmp q (?r ! c') e \<ge> 0" if "2 \<le> c'" "c' \<le> q_elements q" "c' div 2 = c" for c'
    proof -
      have "queue_cmp q (r ! c) (r ! c') \<le> 0"
        using heap_from_edgeD [OF prems(5), of c'] that nc(3) by simp
      then have "queue_cmp q e (r ! c') \<le> 0"
        using ge comparator.cmp_trans [OF assms] comparator.cmp_le_iff [OF assms] by blast
      then show ?thesis using that nc(3) comparator.cmp_le_iff [OF assms] by auto
    qed
    have "\<exists>r' h'. downheap_down q e ?r c False = Some (r', h', False) \<and>
        climb q e st r' h' = climb q e st ?r c"
      using nc prems below heap_from_sink [OF prems(5) nc(2,3)] by (intro less.hyps) auto
    moreover have "climb q e st ?r c = climb q e st r h"
    proof -
      have up: "queue_cmp q (?r ! (c div 2)) e \<ge> 0" "st < c div 2"
        using ge nc(2) cl prems(2) by simp_all
      have "climb q e st ?r c = climb q e st (?r[c := ?r ! (c div 2)]) (c div 2)"
        using climb_step [of c ?r st q e] up nc cl prems by simp
      also have "?r[c := ?r ! (c div 2)] = ?r"
        using nc(2,3) cl by (simp add: list_update_same_conv)
      also have "climb q e st ?r (c div 2) = climb q e st r h"
        using climb_hole [OF prems(1) cl(2)] nc(2) by simp
      finally show ?thesis .
    qed
    ultimately show ?thesis using downheap_down_False [OF True nc(1) cl] by metis
  qed
qed

lemma down_climb_eq_old:
  assumes c: "comparator (queue_cmp q)"
  shows "1 \<le> h \<Longrightarrow> st < h \<Longrightarrow> h \<le> q_elements q \<Longrightarrow> q_elements q < length r \<Longrightarrow>
     heap_from q (Suc h) r \<Longrightarrow> queue_cmp q (r ! (h div 2)) e < 0 \<Longrightarrow>
     \<exists>r' h'. downheap_down q e r h False = Some (r', h', False) \<and>
       climb q e st r' h' = do { (r1, h1) \<leftarrow> downheap_old_loop q e r h; aset r1 h1 e }"
proof (induction "q_elements q - h" arbitrary: h r rule: less_induct)
  case less
  note prems = less.prems
  have stop: "climb q e st r h = Some (r[h := e])"
    using prems by (intro climb_stop) auto
  show ?case
  proof (cases "h \<le> q_elements q div 2")
    case False
    then show ?thesis using stop prems by (simp add: downheap_down.simps downheap_old_loop.simps)
  next
    case True
    obtain c where nc: "next_child q r h = Some c" "c div 2 = h" "h < c" "c \<le> q_elements q"
      "\<And>c'. c' div 2 = h \<Longrightarrow> c' \<le> q_elements q \<Longrightarrow> queue_cmp q (r ! c) (r ! c') \<le> 0"
      using next_child_ok [OF assms prems(1) True prems(4)] by blast
    have cl: "c < length r" "h < length r" using nc(3,4) prems(4) by auto
    show ?thesis
    proof (cases "queue_cmp q (r ! c) e \<ge> 0")
      case ge: True
      then have ec: "queue_cmp q e (r ! c) \<le> 0" using comparator.cmp_le_iff [OF assms] by simp
      have all: "queue_cmp q (r ! c') e \<ge> 0" if "c' \<le> q_elements q" "c' div 2 = h" for c'
        using comparator.cmp_trans [OF assms ec nc(5)] comparator.cmp_le_iff [OF assms] that
        by blast
      have "downheap_old_loop q e r h = Some (r, h)"
        using True nc(1) ge cl by (simp add: downheap_old_loop.simps)
      moreover have "\<exists>r' h'. downheap_down q e r h False = Some (r', h', False) \<and>
          climb q e st r' h' = climb q e st r h"
        using all by (intro down_climb_restore [OF assms prems(1-5)]) blast
      ultimately show ?thesis using stop cl by simp
    next
      case lt: False
      let ?r = "r[h := r ! c]"
      have "downheap_old_loop q e r h = downheap_old_loop q e ?r c"
        using True nc(1) lt cl by (subst downheap_old_loop.simps) simp
      moreover have "\<exists>r' h'. downheap_down q e ?r c False = Some (r', h', False) \<and>
        climb q e st r' h' = do { (r1, h1) \<leftarrow> downheap_old_loop q e ?r c; aset r1 h1 e }"
        using nc lt prems cl heap_from_sink [OF prems(5) nc(2,3)] by (intro less.hyps) auto
      ultimately show ?thesis using downheap_down_False [OF True nc(1) cl] by metis
    qed
  qed
qed

lemma downheap_eq_downheap_old_aux:
  assumes c: "comparator (queue_cmp q)"
    and h: "1 \<le> h" "h \<le> q_elements q" and len: "q_elements q < length (q_root q)"
    and heap: "heap_from q (Suc h) (q_root q)"
  shows "downheap q h = downheap_old q h"
proof -
  let ?r = "q_root q" let ?e = "?r ! h"
  have hl: "h < length ?r" using h len by simp
  show ?thesis
  proof (cases "h \<le> q_elements q div 2")
    case False
    moreover have "\<not> h < h div 2" by simp
    ultimately show ?thesis using hl h
      by (simp add: downheap_def downheap_old_def downheap_down.simps downheap_old_loop.simps
          downheap_up.simps [of q ?e h ?r h] Let_def)
  next
    case True
    obtain c where nc: "next_child q ?r h = Some c" "c div 2 = h" "h < c" "c \<le> q_elements q"
      using next_child_ok [OF c h(1) True len] by blast
    have cl: "c < length ?r" using nc(3,4) len by auto
    show ?thesis
    proof (cases "queue_cmp q (?r ! c) ?e \<ge> 0")
      case ge: True
      then show ?thesis using True nc(1) cl hl
        by (simp add: downheap_def downheap_old_def downheap_down.simps downheap_old_loop.simps)
    next
      case lt: False
      let ?r1 = "?r[h := ?r ! c]"
      have old: "downheap_old_loop q ?e ?r h = downheap_old_loop q ?e ?r1 c"
        using True nc(1) lt cl hl by (subst downheap_old_loop.simps) simp
      have new: "downheap_down q ?e ?r h True = downheap_down q ?e ?r1 c False"
        using True nc(1) lt cl hl by (subst downheap_down.simps) simp
      have "\<exists>r' h'. downheap_down q ?e ?r1 c False = Some (r', h', False) \<and>
        climb q ?e h r' h' = do { (r1, h1) \<leftarrow> downheap_old_loop q ?e ?r1 c; aset r1 h1 ?e }"
        using nc lt h len hl heap_from_sink [OF heap nc(2,3)]
        by (intro down_climb_eq_old [OF c]) auto
      then show ?thesis using old new hl
        by (auto simp: downheap_def downheap_old_def climb_def split: bind_splits)
    qed
  qed
qed

section \<open>The operations keep the heap\<close>

lemma hole_heap_below:
  assumes "hole_heap q s h r" "1 \<le> h" "s \<le> h"
  shows "heap_from q (Suc h) r"
  using assms unfolding hole_heap_def heap_from_def by fastforce

lemma downheap_ok:
  assumes c: "comparator (queue_cmp q)"
    and h: "1 \<le> h" "h \<le> q_elements q" "s \<le> h" and len: "q_elements q < length (q_root q)"
    and hh: "hole_heap q s h (q_root q)"
    and above: "s \<le> h div 2 \<Longrightarrow> queue_cmp q (q_root q ! (h div 2)) (q_root q ! h) \<le> 0"
  obtains r where "downheap q h = Some (q\<lparr>q_root := r\<rparr>)" "length r = length (q_root q)"
    "heap_from q s r" "mset r = mset (q_root q)"
    "\<And>j. j < h \<or> q_elements q < j \<Longrightarrow> r ! j = q_root q ! j"
    "queue_cmp q (r ! h) (q_root q ! h) \<le> 0"
proof -
  let ?r = "q_root q" let ?e = "?r ! h"
  have hl: "h < length ?r" using h len by simp
  obtain r' h' where old: "downheap_old_loop q ?e ?r h = Some (r', h')" "h \<le> h'"
    "h' \<le> q_elements q" "length r' = length ?r" "heap_from q s (r'[h' := ?e])"
    "mset (r'[h' := ?e]) = mset (?r[h := ?e])" "\<forall>j. j < h \<or> q_elements q < j \<longrightarrow> r' ! j = ?r ! j"
    "queue_cmp q (r'[h' := ?e] ! h) ?e \<le> 0"
    using downheap_old_loop_ok [OF c h len hh above] by blast
  have "downheap q h = downheap_old q h"
    using hole_heap_below [OF hh h(1,3)] by (intro downheap_eq_downheap_old_aux c h len)
  then have "downheap q h = Some (q\<lparr>q_root := r'[h' := ?e]\<rparr>)"
    using old hl len by (simp add: downheap_old_def)
  moreover have "mset (r'[h' := ?e]) = mset ?r" using old(6) by simp
  moreover have "(r'[h' := ?e]) ! j = ?r ! j" if "j < h \<or> q_elements q < j" for j
    using that old(2,3,7) by auto
  ultimately show thesis using old(4,5,8) that by simp
qed

lemma downheap_beyond:
  assumes "q_elements q < 2 * h" "1 \<le> h" "h < length (q_root q)"
  shows "downheap q h = Some q"
proof -
  have "\<not> h \<le> q_elements q div 2" "\<not> h < h div 2" using assms(1) by auto
  then show ?thesis using assms
    by (simp add: downheap_def downheap_down.simps downheap_up.simps [of q _ h _ h] Let_def)
qed

lemma queue_top_least_aux:
  assumes c: "comparator (queue_cmp q)" and heap: "heap_from q 1 r"
  shows "1 \<le> i \<Longrightarrow> i \<le> q_elements q \<Longrightarrow> queue_cmp q (r ! 1) (r ! i) \<le> 0"
proof (induction i rule: less_induct)
  case (less i)
  show ?case
  proof (cases "i = 1")
    case True
    then show ?thesis using comparator.cmp_refl [OF c] by simp
  next
    case False
    then have "queue_cmp q (r ! 1) (r ! (i div 2)) \<le> 0" using less by auto
    moreover have "queue_cmp q (r ! (i div 2)) (r ! i) \<le> 0"
      using False less.prems by (intro heap_from_edgeD [OF heap]) auto
    ultimately show ?thesis by (rule comparator.cmp_trans [OF c])
  qed
qed

lemma in_queue_listE:
  assumes "x \<in> set (queue_list q)" "q_elements q < length (q_root q)"
  obtains i where "1 \<le> i" "i \<le> q_elements q" "x = q_root q ! i"
proof -
  from assms obtain k where "k < q_elements q" "x = tl (q_root q) ! k"
    by (auto simp: queue_list_def in_set_conv_nth)
  then show thesis using that [of "Suc k"] assms(2) by (simp add: nth_tl)
qed

lemma queue_list_nth: "i < q_elements q \<Longrightarrow> q_elements q < length (q_root q) \<Longrightarrow>
    queue_list q ! i = q_root q ! Suc i"
  by (simp add: queue_list_def nth_tl)

lemma hole_heap_replace:
  assumes c: "comparator (queue_cmp q)" and heap: "heap_from q 1 r"
    and h: "1 \<le> h" and n: "n \<le> q_elements q"
  shows "hole_heap (q\<lparr>q_elements := n\<rparr>) 1 h (r[h := x])"
proof -
  have edge: "queue_cmp q (r ! (i div 2)) (r ! i) \<le> 0" if "2 \<le> i" "i \<le> n" for i
    using that n by (intro heap_from_edgeD [OF heap]) auto
  show ?thesis unfolding hole_heap_def
  proof (intro conjI ballI impI)
    fix i assume "i \<in> {2..q_elements (q\<lparr>q_elements := n\<rparr>)}" "1 \<le> i div 2 \<and> i \<noteq> h \<and> i div 2 \<noteq> h"
    then show "queue_cmp (q\<lparr>q_elements := n\<rparr>) (r[h := x] ! (i div 2)) (r[h := x] ! i) \<le> 0"
      using edge [of i] by auto
  next
    fix d assume d: "d \<in> {2..q_elements (q\<lparr>q_elements := n\<rparr>)}" "d div 2 = h \<and> 1 \<le> h div 2"
    then have "queue_cmp q (r ! (h div 2)) (r ! h) \<le> 0" "queue_cmp q (r ! h) (r ! d) \<le> 0"
      using edge [of h] edge [of d] by auto
    then have "queue_cmp q (r ! (h div 2)) (r ! d) \<le> 0" by (rule comparator.cmp_trans [OF c])
    moreover have "h div 2 \<noteq> h" "d \<noteq> h" using d h by auto
    ultimately show "queue_cmp (q\<lparr>q_elements := n\<rparr>) (r[h := x] ! (h div 2)) (r[h := x] ! d) \<le> 0"
      by simp
  qed
qed

lemma mset_remove_by_last:
  assumes "i < length xs"
  shows "mset (butlast (xs[i := last xs])) + {#xs ! i#} = mset xs"
proof -
  let ?ys = "xs[i := last xs]"
  have ne: "xs \<noteq> []" using assms by auto
  have "last ?ys = last xs" using ne by (simp add: last_list_update)
  then have "mset ?ys = mset (butlast ?ys) + {#last xs#}"
    using ne by (metis append_butlast_last_id list_update_nonempty mset.simps mset_append)
  moreover have "mset ?ys = add_mset (last xs) (mset xs - {#xs ! i#})"
    using assms by (simp add: mset_update)
  moreover have "add_mset (xs ! i) (mset xs - {#xs ! i#}) = mset xs"
    using assms by (simp add: insert_DiffM)
  ultimately show ?thesis by simp
qed

lemma queue_remove_gen:
  assumes c: "comparator (queue_cmp q)" and wf: "queue_wf q" and heap: "queue_heap q"
    and i: "i < q_elements q"
    and s: "s = Suc i \<or> s = 1 \<and> (i = 0 \<or>
      queue_cmp q (q_root q ! (Suc i div 2)) (q_root q ! q_elements q) \<le> 0)"
  obtains r where
    "queue_remove q i = Some (q\<lparr>q_root := r, q_elements := q_elements q - 1\<rparr>, queue_list q ! i)"
    "length r = length (q_root q)" "heap_from (q\<lparr>q_elements := q_elements q - 1\<rparr>) s r"
    "mset (take (q_elements q - 1) (tl r)) + {#queue_list q ! i#} = queue_mset q"
    "Suc i < q_elements q \<Longrightarrow> queue_cmp q (r ! Suc i) (q_root q ! q_elements q) \<le> 0"
    "\<And>j. j < Suc i \<Longrightarrow> r ! j = q_root q ! j"
proof -
  let ?n = "q_elements q" and ?r = "q_root q"
  let ?l = "?r ! ?n" and ?q = "q\<lparr>q_elements := q_elements q - 1\<rparr>"
  let ?rs = "?r[Suc i := ?l]"
  let ?qs = "q\<lparr>q_root := ?rs, q_elements := q_elements q - 1\<rparr>"
  have len: "?n < length ?r" and mx: "?n \<le> q_max_elements q"
    using wf by (auto simp: queue_wf_def)
  have rm: "queue_remove q i = do { q' \<leftarrow> downheap ?qs (Suc i); Some (q', ?r ! Suc i) }"
    using i len mx by (simp add: queue_remove_def uint_dec_def)
  have el: "queue_list q ! i = ?r ! Suc i" using i len by (rule queue_list_nth)
  have xs: "take (?n - 1) (tl ?rs) = butlast ((queue_list q)[i := last (queue_list q)])"
  proof (rule nth_equalityI)
    show "length (take (?n - 1) (tl ?rs)) = length (butlast ((queue_list q)[i := last (queue_list q)]))"
      using i len by (simp add: queue_list_def)
    fix k assume "k < length (take (?n - 1) (tl ?rs))"
    then have k: "k < ?n - 1" by simp
    have "queue_list q \<noteq> []" using i len by (cases "q_root q") (auto simp: queue_list_def)
    then have "last (queue_list q) = ?l"
      using i len by (subst last_conv_nth) (auto simp: queue_list_def nth_tl)
    then show "take (?n - 1) (tl ?rs) ! k = butlast ((queue_list q)[i := last (queue_list q)]) ! k"
      using i len k by (auto simp: nth_butlast nth_tl queue_list_def nth_list_update)
  qed
  have m0: "mset (take (?n - 1) (tl ?rs)) + {#queue_list q ! i#} = queue_mset q"
    unfolding xs using i len by (intro mset_remove_by_last) (simp add: queue_list_def)
  show thesis
  proof (cases "Suc i \<le> ?n - 1")
    case False
    then have si: "Suc i = ?n" using i by simp
    then have rs: "?rs = ?r" by simp
    have "downheap ?qs (Suc i) = Some ?qs"
      using si len by (intro downheap_beyond) auto
    moreover have "heap_from ?q s ?r"
      using heap s by (auto simp: queue_heap_def heap_from_def)
    ultimately show thesis using that [of ?r] rm rs m0 el si by simp
  next
    case True
    have hh1: "hole_heap ?qs 1 (Suc i) ?rs"
      using hole_heap_replace [OF c, of ?r "Suc i" "?n - 1" ?l] heap
      by (simp add: queue_heap_def hole_heap_def)
    have hh: "hole_heap ?qs s (Suc i) ?rs"
      using hh1 s by (auto simp: hole_heap_def)
    have pre: "comparator (queue_cmp ?qs)" "1 \<le> Suc i" "Suc i \<le> q_elements ?qs" "s \<le> Suc i"
      "q_elements ?qs < length (q_root ?qs)" "hole_heap ?qs s (Suc i) (q_root ?qs)"
      "s \<le> Suc i div 2 \<Longrightarrow> queue_cmp ?qs (q_root ?qs ! (Suc i div 2)) (q_root ?qs ! Suc i) \<le> 0"
      using c True s i len hh by auto
    obtain r where d: "downheap ?qs (Suc i) = Some (?qs\<lparr>q_root := r\<rparr>)"
      "length r = length (q_root ?qs)" "heap_from ?qs s r" "mset r = mset (q_root ?qs)"
      "\<And>j. j < Suc i \<or> q_elements ?qs < j \<Longrightarrow> r ! j = q_root ?qs ! j"
      "queue_cmp ?qs (r ! Suc i) (q_root ?qs ! Suc i) \<le> 0"
      using downheap_ok [OF pre] by blast
    have "?rs ! Suc i = ?l" using i len by simp
    moreover have "mset (take (?n - 1) (tl r)) = mset (take (?n - 1) (tl ?rs))"
      using d len i by (intro mset_inner_eq) auto
    moreover have "heap_from ?q s r" using d(3) by (simp add: heap_from_def)
    ultimately show thesis using that [of r] d rm m0 el by simp
  qed
qed

section \<open>Insertion\<close>

lemma hole_rise:
  assumes c: "comparator (queue_cmp q)" and hh: "hole_heap q 1 h r"
    and h: "2 \<le> h" "h < length r" "h \<le> q_elements q"
  shows "hole_heap q 1 (h div 2) (r[h := r ! (h div 2)])"
proof -
  let ?p = "h div 2"
  have edge: "queue_cmp q (r ! (i div 2)) (r ! i) \<le> 0"
    if "2 \<le> i" "i \<le> q_elements q" "i \<noteq> h" "i div 2 \<noteq> h" for i
    using hh that by (simp add: hole_heap_def)
  have grand: "queue_cmp q (r ! ?p) (r ! d) \<le> 0" if "2 \<le> d" "d \<le> q_elements q" "d div 2 = h" for d
    using hh that h by (simp add: hole_heap_def)
  have ph: "?p \<noteq> h" "?p < h" "?p div 2 \<noteq> h" using h by auto
  show ?thesis unfolding hole_heap_def
  proof (intro conjI ballI impI)
    fix i assume "i \<in> {2..q_elements q}" "1 \<le> i div 2 \<and> i \<noteq> ?p \<and> i div 2 \<noteq> ?p"
    moreover obtain p k where p: "i div 2 = p" and k: "h div 2 = k" by blast
    moreover have "i = h \<longrightarrow> p = k" using p k by auto
    ultimately show "queue_cmp q (r[h := r ! ?p] ! (i div 2)) (r[h := r ! ?p] ! i) \<le> 0"
      using edge [of i] grand [of i] h(2,3) ph(1) unfolding p k
      by (cases "i = h"; cases "p = h") simp_all
  next
    fix d assume d: "d \<in> {2..q_elements q}" "d div 2 = ?p \<and> 1 \<le> ?p div 2"
    then have pp: "queue_cmp q (r ! (?p div 2)) (r ! ?p) \<le> 0"
      using edge [of ?p] ph h by auto
    show "queue_cmp q (r[h := r ! ?p] ! (?p div 2)) (r[h := r ! ?p] ! d) \<le> 0"
    proof (cases "d = h")
      case True
      then show ?thesis using pp ph h by simp
    next
      case False
      then have "queue_cmp q (r ! ?p) (r ! d) \<le> 0" using edge [of d] d ph by auto
      with pp have "queue_cmp q (r ! (?p div 2)) (r ! d) \<le> 0" by (rule comparator.cmp_trans [OF c])
      then show ?thesis using False ph by simp
    qed
  qed
qed

lemma queue_insert_loop_ok:
  assumes c: "comparator (queue_cmp q)"
  shows "1 \<le> h \<Longrightarrow> h \<le> q_elements q \<Longrightarrow> q_elements q < length r \<Longrightarrow> r ! 0 = e \<Longrightarrow>
     hole_heap q 1 h r \<Longrightarrow>
     (\<And>d. 2 \<le> d \<Longrightarrow> d \<le> q_elements q \<Longrightarrow> d div 2 = h \<Longrightarrow> queue_cmp q e (r ! d) \<le> 0) \<Longrightarrow>
     \<exists>r' h'. queue_insert_loop q e r h = Some (r', h') \<and> 1 \<le> h' \<and> h' \<le> h \<and>
       length r' = length r \<and> heap_from q 1 (r'[h' := e]) \<and>
       mset (r'[h' := e]) = mset (r[h := e]) \<and> (\<forall>j. j = 0 \<or> h < j \<longrightarrow> r' ! j = r ! j)"
proof (induction h arbitrary: r rule: less_induct)
  case (less h)
  note prems = less.prems
  let ?p = "h div 2"
  have hl: "h < length r" "?p < length r" using prems(2,3) by auto
  show ?case
  proof (cases "queue_cmp q e (r ! ?p) < 0")
    case False
    have "heap_from q 1 (r[h := e])"
    proof (rule hole_fill [OF prems(5,1) hl(1) prems(6)])
      show "queue_cmp q (r ! ?p) e \<le> 0" using False comparator.cmp_le_iff [OF c] by simp
    qed simp_all
    moreover have "queue_insert_loop q e r h = Some (r, h)"
      using False hl by (simp add: queue_insert_loop.simps)
    ultimately show ?thesis using prems by auto
  next
    case True
    have h2: "2 \<le> h"
    proof (rule ccontr)
      assume "\<not> 2 \<le> h"
      then have "r ! ?p = e" using prems(4) by auto
      then show False using True comparator.cmp_refl [OF c] by simp
    qed
    let ?s = "r[h := r ! ?p]"
    have below: "queue_cmp q e (?s ! d) \<le> 0" if d: "2 \<le> d" "d \<le> q_elements q" "d div 2 = ?p" for d
    proof (cases "d = h")
      case True
      then show ?thesis using \<open>queue_cmp q e (r ! ?p) < 0\<close> hl by simp
    next
      case False
      moreover have "?p \<noteq> h" "1 \<le> ?p" using h2 by auto
      ultimately have "queue_cmp q (r ! ?p) (r ! d) \<le> 0"
        using hole_heapD [OF prems(5), of d] d by simp
      then show ?thesis
        using False \<open>queue_cmp q e (r ! ?p) < 0\<close> comparator.cmp_trans [OF c, of e "r ! ?p" "r ! d"]
        by simp
    qed
    have "\<exists>r' h'. queue_insert_loop q e ?s ?p = Some (r', h') \<and> 1 \<le> h' \<and> h' \<le> ?p \<and>
       length r' = length ?s \<and> heap_from q 1 (r'[h' := e]) \<and>
       mset (r'[h' := e]) = mset (?s[?p := e]) \<and> (\<forall>j. j = 0 \<or> ?p < j \<longrightarrow> r' ! j = ?s ! j)"
      using h2 prems below hole_rise [OF c prems(5) h2 hl(1) prems(2)]
      by (intro less.IH) auto
    moreover have "queue_insert_loop q e r h = queue_insert_loop q e ?s ?p"
      using True hl by (subst queue_insert_loop.simps) simp
    moreover have "mset (?s[?p := e]) = mset (r[h := e])"
      using hl h2 by (intro mset_update_swap) auto
    ultimately show ?thesis using h2 by fastforce
  qed
qed

lemma queue_insert_gen:
  assumes c: "comparator (queue_cmp q)" and wf: "queue_wf q" and heap: "queue_heap q"
    and room: "q_elements q < q_max_elements q"
  obtains r where "queue_insert q e = Some (q\<lparr>q_elements := q_elements q + 1, q_root := r\<rparr>)"
    "length r = length (q_root q)" "heap_from (q\<lparr>q_elements := q_elements q + 1\<rparr>) 1 r"
    "mset (take (q_elements q + 1) (tl r)) = queue_mset q + {#e#}"
proof -
  let ?n = "q_elements q" and ?r = "q_root q"
  let ?q = "q\<lparr>q_elements := ?n + 1\<rparr>" and ?s = "?r[0 := e]"
  have len: "?n + 1 < length ?r" using wf room by (simp add: queue_wf_def)
  have ne: "?r \<noteq> []" using len by auto
  have "hole_heap ?q 1 (?n + 1) ?s"
    using heap by (auto simp: hole_heap_def queue_heap_def heap_from_def)
  moreover have "\<not> d div 2 = ?n + 1" if "d \<le> ?n + 1" for d using that by auto
  ultimately have "\<exists>r' h'. queue_insert_loop ?q e ?s (?n + 1) = Some (r', h') \<and> 1 \<le> h' \<and>
      h' \<le> ?n + 1 \<and> length r' = length ?s \<and> heap_from ?q 1 (r'[h' := e]) \<and>
      mset (r'[h' := e]) = mset (?s[?n + 1 := e]) \<and> (\<forall>j. j = 0 \<or> ?n + 1 < j \<longrightarrow> r' ! j = ?s ! j)"
    using len c ne by (intro queue_insert_loop_ok) auto
  then obtain r' h' where loop: "queue_insert_loop ?q e ?s (?n + 1) = Some (r', h')" "1 \<le> h'"
    "h' \<le> ?n + 1" "length r' = length ?s" "heap_from ?q 1 (r'[h' := e])"
    "mset (r'[h' := e]) = mset (?s[?n + 1 := e])" "\<forall>j. j = 0 \<or> ?n + 1 < j \<longrightarrow> r' ! j = ?s ! j"
    by blast
  have "mset (take (?n + 1) (tl (r'[h' := e]))) = mset (take (?n + 1) (tl (?s[?n + 1 := e])))"
    using loop len by (intro mset_inner_eq) auto
  also have "take (?n + 1) (tl (?s[?n + 1 := e])) = queue_list q @ [e]"
    using len ne by (cases ?r) (simp_all add: queue_list_def take_Suc_conv_app_nth)
  finally have m: "mset (take (?n + 1) (tl (r'[h' := e]))) = queue_mset q + {#e#}" by simp
  have "queue_insert q e = Some (?q\<lparr>q_root := r'[h' := e]\<rparr>)"
    using room len loop ne by (simp add: queue_insert_def Let_def)
  with m loop show thesis by (intro that) auto
qed

section \<open>Rebuilding the heap\<close>

lemma queue_fix_loop_ok:
  assumes c: "comparator (queue_cmp q)" and len: "q_elements q < length (q_root q)"
    and heap: "heap_from q (Suc i) (q_root q)" and i: "i \<le> q_elements q div 2"
  shows "\<exists>r. queue_fix_loop i q = Some (q\<lparr>q_root := r\<rparr>) \<and> length r = length (q_root q) \<and>
    heap_from q 1 r \<and> mset r = mset (q_root q) \<and>
    (\<forall>j. j = 0 \<or> q_elements q < j \<longrightarrow> r ! j = q_root q ! j)"
  using len heap i c
proof (induction i arbitrary: q)
  case 0
  then show ?case by (intro exI [of _ "q_root q"]) simp
next
  case (Suc i)
  have hh: "hole_heap q (Suc i) (Suc i) (q_root q)"
    using Suc.prems(2) by (intro hole_heap_start) auto
  have n: "Suc i \<le> q_elements q" using Suc.prems(3) by linarith
  have up: "queue_cmp q (q_root q ! (Suc i div 2)) (q_root q ! Suc i) \<le> 0" if "Suc i \<le> Suc i div 2"
    using that by simp
  obtain r where d: "downheap q (Suc i) = Some (q\<lparr>q_root := r\<rparr>)" "length r = length (q_root q)"
    "heap_from q (Suc i) r" "mset r = mset (q_root q)"
    "\<And>j. j < Suc i \<or> q_elements q < j \<Longrightarrow> r ! j = q_root q ! j"
    using downheap_ok [OF Suc.prems(4) _ n order_refl Suc.prems(1) hh up] by (metis le_add1 plus_1_eq_Suc)
  have "\<exists>r'. queue_fix_loop i (q\<lparr>q_root := r\<rparr>) = Some (q\<lparr>q_root := r, q_root := r'\<rparr>) \<and>
      length r' = length (q_root (q\<lparr>q_root := r\<rparr>)) \<and> heap_from (q\<lparr>q_root := r\<rparr>) 1 r' \<and>
      mset r' = mset (q_root (q\<lparr>q_root := r\<rparr>)) \<and>
      (\<forall>j. j = 0 \<or> q_elements (q\<lparr>q_root := r\<rparr>) < j \<longrightarrow> r' ! j = q_root (q\<lparr>q_root := r\<rparr>) ! j)"
    using d Suc.prems by (intro Suc.IH) auto
  then show ?case using d by auto
qed

lemma queue_fix_ok:
  assumes c: "comparator (queue_cmp q)" and wf: "queue_wf q"
  obtains r where "queue_fix q = Some (q\<lparr>q_root := r\<rparr>)" "length r = length (q_root q)"
    "heap_from q 1 r" "mset (take (q_elements q) (tl r)) = queue_mset q"
proof -
  have len: "q_elements q < length (q_root q)" using wf by (simp add: queue_wf_def)
  have "heap_from q (Suc (q_elements q div 2)) (q_root q)"
    by (auto simp: heap_from_def)
  then obtain r where r: "queue_fix q = Some (q\<lparr>q_root := r\<rparr>)" "length r = length (q_root q)"
    "heap_from q 1 r" "mset r = mset (q_root q)"
    "\<forall>j. j = 0 \<or> q_elements q < j \<longrightarrow> r ! j = q_root q ! j"
    using queue_fix_loop_ok [OF c len, of "q_elements q div 2"] by (auto simp: queue_fix_def)
  then have "mset (take (q_elements q) (tl r)) = queue_mset q"
    unfolding queue_list_def using len by (intro mset_inner_eq) auto
  with r show thesis by (intro that)
qed

section \<open>The interface of a priority queue\<close>

text \<open>What the users of the queue rely on (the merge of sorted runs in
  \<^verbatim>\<open>storage/myisam/sort.c\<close>, the alarm queue in \<^verbatim>\<open>mysys/thr_alarm.c\<close>): inserting and taking
  the top succeed, keep the invariant and act on the multiset of elements, and the top is
  least. \<open>pq_drain\<close> takes the top \<open>n\<close> times.\<close>

fun pq_drain :: "('q \<Rightarrow> ('q \<times> 'e) option) \<Rightarrow> nat \<Rightarrow> 'q \<Rightarrow> 'e list option" where
  "pq_drain remove_top 0 q = Some []"
| "pq_drain remove_top (Suc n) q =
     do { (q', x) \<leftarrow> remove_top q; xs \<leftarrow> pq_drain remove_top n q'; Some (x # xs) }"

fun pq_insert_all :: "('q \<Rightarrow> 'e \<Rightarrow> 'q option) \<Rightarrow> 'e list \<Rightarrow> 'q \<Rightarrow> 'q option" where
  "pq_insert_all ins [] q = Some q"
| "pq_insert_all ins (x # xs) q = do { q' \<leftarrow> ins q x; pq_insert_all ins xs q' }"

locale prio_queue =
  fixes ins :: "'q \<Rightarrow> 'e \<Rightarrow> 'q option"
    and remove_top :: "'q \<Rightarrow> ('q \<times> 'e) option"
    and elems :: "'q \<Rightarrow> 'e multiset"
    and le :: "'q \<Rightarrow> 'e \<Rightarrow> 'e \<Rightarrow> bool"
    and capacity :: "'q \<Rightarrow> nat"
    and invar :: "'q \<Rightarrow> bool"
  assumes ins_ok: "invar q \<Longrightarrow> size (elems q) < capacity q \<Longrightarrow>
      \<exists>q'. ins q e = Some q' \<and> invar q' \<and> elems q' = elems q + {#e#} \<and> le q' = le q \<and>
        capacity q' = capacity q"
    and remove_top_ok: "invar q \<Longrightarrow> elems q \<noteq> {#} \<Longrightarrow>
      \<exists>q' x. remove_top q = Some (q', x) \<and> invar q' \<and> elems q = add_mset x (elems q') \<and>
        le q' = le q \<and> capacity q' = capacity q \<and> (\<forall>y\<in>#elems q. le q x y)"
begin

lemma insert_all:
  "invar q \<Longrightarrow> size (elems q) + length xs \<le> capacity q \<Longrightarrow>
     \<exists>q'. pq_insert_all ins xs q = Some q' \<and> invar q' \<and> elems q' = elems q + mset xs \<and>
       le q' = le q"
proof (induction xs arbitrary: q)
  case Nil
  then show ?case by simp
next
  case (Cons x xs)
  have "size (elems q) < capacity q" using Cons.prems(2) by simp
  then obtain q1 where q1: "ins q x = Some q1" "invar q1" "elems q1 = elems q + {#x#}"
    "le q1 = le q" "capacity q1 = capacity q"
    using ins_ok Cons.prems(1) by blast
  then have "size (elems q1) + length xs \<le> capacity q1" using Cons.prems(2) by simp
  from Cons.IH [OF q1(2) this] q1 show ?case by auto
qed

lemma drain:
  "invar q \<Longrightarrow> \<exists>xs. pq_drain remove_top (size (elems q)) q = Some xs \<and> mset xs = elems q \<and>
     sorted_wrt (le q) xs"
proof (induction "size (elems q)" arbitrary: q)
  case 0
  then show ?case by simp
next
  case (Suc n)
  then have "elems q \<noteq> {#}" by auto
  then obtain q1 x where q1: "remove_top q = Some (q1, x)" "invar q1"
    "elems q = add_mset x (elems q1)" "le q1 = le q" "\<forall>y\<in>#elems q. le q x y"
    using remove_top_ok Suc.prems by blast
  then have "n = size (elems q1)" using Suc.hyps(2) by simp
  from Suc.hyps(1) [OF this q1(2)] obtain xs where xs:
    "pq_drain remove_top (size (elems q1)) q1 = Some xs" "mset xs = elems q1"
    "sorted_wrt (le q) xs"
    using q1(4) by auto
  have "\<forall>y\<in>set xs. le q x y" using q1(3,5) xs(2) by (auto simp flip: set_mset_mset)
  then show ?case using q1 xs by simp
qed

end

definition queue_inv :: "'arg queue \<Rightarrow> bool" where
  "queue_inv q \<longleftrightarrow> queue_wf q \<and> queue_heap q \<and> comparator (q_compare q (q_first_cmp_arg q))"

lemma queue_inv_cmp: "queue_inv q \<Longrightarrow> comparator (queue_cmp q)"
  by (auto simp: queue_inv_def queue_wf_def intro: comparator_queue_cmp)

lemma size_queue_mset: "queue_wf q \<Longrightarrow> size (queue_mset q) = q_elements q"
  by (simp add: queue_wf_def queue_list_def)

interpretation queue_pq: prio_queue queue_insert "\<lambda>q. queue_remove q 0" "\<lambda>q. mset (queue_list q)"
  "\<lambda>q a b. queue_cmp q a b \<le> 0" q_max_elements queue_inv
proof
  fix q :: "'arg queue" and e
  assume inv: "queue_inv q" and room: "size (queue_mset q) < q_max_elements q"
  then have wf: "queue_wf q" and heap: "queue_heap q" by (auto simp: queue_inv_def)
  have "q_elements q < q_max_elements q" using room size_queue_mset [OF wf] by simp
  from queue_insert_gen [OF queue_inv_cmp [OF inv] wf heap this, of e] obtain r where
    "queue_insert q e = Some (q\<lparr>q_elements := q_elements q + 1, q_root := r\<rparr>)"
    "length r = length (q_root q)" "heap_from (q\<lparr>q_elements := q_elements q + 1\<rparr>) 1 r"
    "mset (take (q_elements q + 1) (tl r)) = queue_mset q + {#e#}" by blast
  then show "\<exists>q'. queue_insert q e = Some q' \<and> queue_inv q' \<and>
      queue_mset q' = queue_mset q + {#e#} \<and>
      (\<lambda>a b. queue_cmp q' a b \<le> 0) = (\<lambda>a b. queue_cmp q a b \<le> 0) \<and>
      q_max_elements q' = q_max_elements q"
    using inv room size_queue_mset [OF wf]
    by (auto simp: queue_inv_def queue_wf_def queue_heap_def queue_list_def)
next
  fix q :: "'arg queue"
  assume inv: "queue_inv q" and ne: "queue_mset q \<noteq> {#}"
  then have wf: "queue_wf q" and heap: "queue_heap q" by (auto simp: queue_inv_def)
  have n: "0 < q_elements q" and len: "q_elements q < length (q_root q)"
    using ne wf by (auto simp: queue_list_def queue_wf_def)
  from queue_remove_gen [OF queue_inv_cmp [OF inv] wf heap n, of 1] obtain r where r:
    "queue_remove q 0 = Some (q\<lparr>q_root := r, q_elements := q_elements q - 1\<rparr>, queue_list q ! 0)"
    "length r = length (q_root q)" "heap_from (q\<lparr>q_elements := q_elements q - 1\<rparr>) 1 r"
    "mset (take (q_elements q - 1) (tl r)) + {#queue_list q ! 0#} = queue_mset q" by auto
  have "queue_cmp q (queue_list q ! 0) y \<le> 0" if "y \<in># queue_mset q" for y
  proof -
    from that obtain i where "1 \<le> i" "i \<le> q_elements q" "y = q_root q ! i"
      using in_queue_listE len by auto
    then show ?thesis
      using queue_top_least_aux [OF queue_inv_cmp [OF inv], of "q_root q" i] heap n len
      by (simp add: queue_heap_def queue_list_nth)
  qed
  moreover have "heap_from (q\<lparr>q_root := r, q_elements := q_elements q - 1\<rparr>) 1 r"
    using r(3) by (simp add: heap_from_def)
  ultimately show "\<exists>q' x. queue_remove q 0 = Some (q', x) \<and> queue_inv q' \<and>
      queue_mset q = add_mset x (queue_mset q') \<and>
      (\<lambda>a b. queue_cmp q' a b \<le> 0) = (\<lambda>a b. queue_cmp q a b \<le> 0) \<and>
      q_max_elements q' = q_max_elements q \<and> (\<forall>y\<in>#queue_mset q. queue_cmp q x y \<le> 0)"
    using r inv by (auto simp: queue_inv_def queue_wf_def queue_heap_def queue_list_def)
qed

lemma queue_insert_drain_ok:
  assumes "queue_inv q" "q_elements q = 0" "length xs \<le> q_max_elements q"
  shows "\<exists>q' ys. pq_insert_all queue_insert xs q = Some q' \<and>
    pq_drain (\<lambda>q. queue_remove q 0) (length xs) q' = Some ys \<and> mset ys = mset xs \<and>
    sorted_wrt (\<lambda>a b. queue_cmp q a b \<le> 0) ys"
proof -
  have e: "queue_mset q = {#}" using assms(2) by (simp add: queue_list_def)
  obtain q' where q': "pq_insert_all queue_insert xs q = Some q'" "queue_inv q'"
    "queue_mset q' = mset xs" "(\<lambda>a b. queue_cmp q' a b \<le> 0) = (\<lambda>a b. queue_cmp q a b \<le> 0)"
    using queue_pq.insert_all [OF assms(1), of xs] e assms(3) by auto
  then have "size (queue_mset q') = length xs" by simp
  with queue_pq.drain [OF q'(2)] q' show ?thesis by auto
qed

section \<open>Properties\<close>

text \<open>C19: On a well-formed queue in heap order with room for one more element and a lawful
  comparison callback, \<open>queue_insert\<close> stays inside the array and terminates, and its result is
  again well formed and in heap order and holds exactly the old elements and the new one.\<close>

theorem queue_insert_correct:
  assumes "queue_inv q" "q_elements q < q_max_elements q"
  shows "\<exists>q'. queue_insert q e = Some q' \<and> queue_inv q' \<and> q_elements q' = q_elements q + 1 \<and>
    queue_mset q' = queue_mset q + {#e#}"
proof -
  have wf: "queue_wf q" using assms(1) by (simp add: queue_inv_def)
  obtain q' where q': "queue_insert q e = Some q'" "queue_inv q'"
    "queue_mset q' = queue_mset q + {#e#}"
    using queue_pq.ins_ok [of q e] assms size_queue_mset [OF wf] by auto
  moreover have "q_elements q' = q_elements q + 1"
    using q' size_queue_mset [of q'] size_queue_mset [OF wf] by (simp add: queue_inv_def)
  ultimately show ?thesis by blast
qed

text \<open>C20: Removing the top of a non-empty queue (\<open>queue_remove(queue, 0)\<close>) succeeds, returns an
  element that no element of the queue precedes, and leaves a well-formed queue in heap order
  with exactly the other elements.\<close>

theorem queue_remove_top_correct:
  assumes "queue_inv q" "0 < q_elements q"
  shows "\<exists>q' x. queue_remove q 0 = Some (q', x) \<and> queue_top q = Some x \<and> queue_inv q' \<and>
    queue_mset q = add_mset x (queue_mset q') \<and> (\<forall>y\<in>#queue_mset q. queue_cmp q x y \<le> 0)"
proof -
  have len: "1 < length (q_root q)" "q_elements q < length (q_root q)" and wf: "queue_wf q"
    using assms by (auto simp: queue_inv_def queue_wf_def)
  then have "queue_mset q \<noteq> {#}" using assms(2) size_queue_mset [OF wf] by auto
  then obtain q' x where q': "queue_remove q 0 = Some (q', x)" "queue_inv q'"
    "queue_mset q = add_mset x (queue_mset q')" "\<forall>y\<in>#queue_mset q. queue_cmp q x y \<le> 0"
    using queue_pq.remove_top_ok [OF assms(1)] by blast
  moreover from q'(1) len have "queue_top q = Some x"
    by (auto simp: queue_remove_def queue_top_def split: bind_splits)
  ultimately show ?thesis by blast
qed

text \<open>C21: The optimised \<open>_downheap\<close>, which lets the hole sink to a leaf and climbs back, computes
  the same queue as the version kept under \<open>OLD_VERSION\<close> whenever the slots below the start are
  in heap order.\<close>

theorem downheap_eq_downheap_old:
  assumes "queue_wf q" "comparator (q_compare q (q_first_cmp_arg q))"
    and "1 \<le> idx" "idx \<le> q_elements q" "heap_from q (Suc idx) (q_root q)"
  shows "downheap q idx = downheap_old q idx"
  using assms comparator_queue_cmp [of q]
  by (intro downheap_eq_downheap_old_aux) (auto simp: queue_wf_def)

text \<open>C22: \<open>queue_fix\<close> turns any arrangement of the elements into heap order and loses none of
  them.\<close>

theorem queue_fix_correct:
  assumes "queue_wf q" "comparator (q_compare q (q_first_cmp_arg q))"
  shows "\<exists>q'. queue_fix q = Some q' \<and> queue_inv q' \<and> queue_mset q' = queue_mset q"
proof -
  have "comparator (queue_cmp q)"
    using assms comparator_queue_cmp by (auto simp: queue_wf_def)
  from queue_fix_ok [OF this assms(1)] obtain r where r: "queue_fix q = Some (q\<lparr>q_root := r\<rparr>)"
    "length r = length (q_root q)" "heap_from q 1 r"
    "mset (take (q_elements q) (tl r)) = queue_mset q" by blast
  then show ?thesis using assms
    by (auto simp: queue_inv_def queue_wf_def queue_heap_def queue_list_def)
qed

text \<open>C5: Inserting any list that fits into an empty queue and then removing the top until the
  queue is empty sorts the list: the removed elements are the inserted ones, each no larger than
  those removed after it.\<close>

theorem queue_insert_then_drain_sorts:
  assumes "queue_inv q" "q_elements q = 0" "length xs \<le> q_max_elements q"
  shows "\<exists>q' ys. pq_insert_all queue_insert xs q = Some q' \<and>
    pq_drain (\<lambda>q. queue_remove q 0) (length xs) q' = Some ys \<and> mset ys = mset xs \<and>
    sorted_wrt (\<lambda>a b. queue_cmp q a b \<le> 0) ys"
  using assms by (rule queue_insert_drain_ok)

text \<open>C23: \<open>queue_remove\<close> at any valid index is memory safe and removes exactly the element at
  that index, but it only sifts down. The result is in heap order exactly when the index is 0 or
  the last element, which takes the removed slot, is not smaller than the parent of that slot.\<close>

theorem queue_remove_heap_iff:
  assumes "queue_inv q" "idx < q_elements q"
  shows "\<exists>q'. queue_remove q idx = Some (q', queue_list q ! idx) \<and> queue_wf q' \<and>
    queue_mset q = add_mset (queue_list q ! idx) (queue_mset q') \<and>
    (queue_heap q' \<longleftrightarrow>
       idx = 0 \<or> queue_cmp q (q_root q ! (Suc idx div 2)) (q_root q ! q_elements q) \<le> 0)"
    (is "\<exists>q'. _ \<and> _ \<and> _ \<and> (_ \<longleftrightarrow> ?fits)")
proof -
  have wf: "queue_wf q" and heap: "queue_heap q" and c: "comparator (queue_cmp q)"
    using assms queue_inv_cmp by (auto simp: queue_inv_def)
  let ?s = "if ?fits then 1 else Suc idx"
  obtain r where r:
    "queue_remove q idx = Some (q\<lparr>q_root := r, q_elements := q_elements q - 1\<rparr>, queue_list q ! idx)"
    "length r = length (q_root q)" "heap_from (q\<lparr>q_elements := q_elements q - 1\<rparr>) ?s r"
    "mset (take (q_elements q - 1) (tl r)) + {#queue_list q ! idx#} = queue_mset q"
    "Suc idx < q_elements q \<Longrightarrow> queue_cmp q (r ! Suc idx) (q_root q ! q_elements q) \<le> 0"
    "\<And>j. j < Suc idx \<Longrightarrow> r ! j = q_root q ! j"
  proof (rule queue_remove_gen [OF c wf heap assms(2), of ?s])
    show "?s = Suc idx \<or> ?s = 1 \<and> ?fits" by simp
  qed blast
  let ?q = "q\<lparr>q_root := r, q_elements := q_elements q - 1\<rparr>"
  have "queue_heap ?q \<longleftrightarrow> ?fits"
  proof
    assume ?fits
    then show "queue_heap ?q" using r(3) by (simp add: queue_heap_def heap_from_def)
  next
    assume heap': "queue_heap ?q"
    show ?fits
    proof (rule ccontr)
      assume nf: "\<not> ?fits"
      have "Suc idx \<noteq> q_elements q"
        using nf heap_from_edgeD [of q 1 "q_root q" "Suc idx"] heap by (auto simp: queue_heap_def)
      then have lt: "Suc idx < q_elements q" using assms(2) by simp
      then have "queue_cmp q (r ! (Suc idx div 2)) (r ! Suc idx) \<le> 0"
      proof -
        have "2 \<le> Suc idx" "Suc idx \<le> q_elements ?q" "1 \<le> Suc idx div 2" using nf lt by auto
        then show ?thesis
          using heap' heap_from_edgeD [of ?q 1 r "Suc idx"] by (simp add: queue_heap_def)
      qed
      moreover have "r ! (Suc idx div 2) = q_root q ! (Suc idx div 2)"
        using nf by (intro r(6)) auto
      ultimately show False using nf r(5) [OF lt] comparator.cmp_trans [OF c] by fastforce
    qed
  qed
  then show ?thesis using r wf by (auto simp: queue_wf_def queue_list_def)
qed

text \<open>The queue used as concrete input: seven elements compared by address.\<close>

definition addr_compare :: "unit \<Rightarrow> ptr \<Rightarrow> ptr \<Rightarrow> int" where
  "addr_compare _ a b = int a - int b"

interpretation addr_compare: comparator "addr_compare u"
  by unfold_locales (auto simp: addr_compare_def sgn_if)

definition sample_queue :: "unit queue" where
  "sample_queue =
     \<lparr>q_root = [0, 1, 10, 2, 11, 12, 3, 4, 0, 0], q_first_cmp_arg = (), q_elements = 7,
      q_max_elements = 9, q_offset_to_key = 0, q_max_at_top = 1, q_compare = addr_compare,
      q_auto_extent = 4\<rparr>"

lemma atLeastAtMost_2_7: "{2..7::nat} = {2, 3, 4, 5, 6, 7}"
  by auto

lemma sample_queue_inv: "queue_inv sample_queue"
  by (simp add: queue_inv_def queue_wf_def queue_heap_def heap_from_def sample_queue_def
      queue_cmp_def addr_compare_def atLeastAtMost_2_7 addr_compare.comparator_axioms)

lemma sample_queue_simps [simp]:
  "q_elements sample_queue = 7" "q_max_elements sample_queue = 9" "q_auto_extent sample_queue = 4"
  "queue_list sample_queue = [1, 10, 2, 11, 12, 3, 4]"
  "q_root sample_queue = [0, 1, 10, 2, 11, 12, 3, 4, 0, 0]"
  "queue_cmp sample_queue a b = int a - int b"
  by (simp_all add: sample_queue_def queue_list_def queue_cmp_def addr_compare_def)

text \<open>There is a queue in heap order and a valid index such that \<open>queue_remove\<close> at that index
  leaves a queue that is no longer in heap order.\<close>

lemma queue_remove_can_break_heap:
  "\<exists>(q :: unit queue) idx q' x.
     queue_inv q \<and> idx < q_elements q \<and> queue_remove q idx = Some (q', x) \<and> \<not> queue_heap q'"
proof -
  have "idx < q_elements sample_queue" if "idx = 3" for idx
    using that by (simp add: sample_queue_def)
  moreover have "\<exists>q' x. queue_remove sample_queue 3 = Some (q', x) \<and> \<not> queue_heap q'"
    by (simp add: sample_queue_def queue_remove_def downheap_def downheap_down.simps
        downheap_up.simps uint_dec_def queue_heap_def heap_from_def queue_cmp_def addr_compare_def)
      (auto intro!: bexI [of _ 4])
  ultimately show ?thesis using sample_queue_inv by blast
qed

lemma resize_queue_ok:
  assumes inv: "queue_inv q" and fits: "maxe + 1 < 2 ^ 32" and res: "resize_queue ok junk q maxe = (q', ret)"
  shows "if ret = 0 then queue_inv q' \<and> q_max_elements q' = maxe \<and>
      queue_list q' = take maxe (queue_list q) \<and> queue_cmp q' = queue_cmp q
    else q' = q \<and> \<not> ok"
proof (cases "q_max_elements q = maxe \<or> \<not> ok")
  case True
  then show ?thesis using assms
    by (auto simp: resize_queue_def realloc_slots_def queue_inv_def queue_wf_def queue_list_def
        split: if_splits)
next
  case False
  have wf: "queue_wf q" using inv by (simp add: queue_inv_def)
  obtain r where r: "realloc_slots ok junk (q_root q) (maxe + 1) = Some r"
    using False by (auto simp: realloc_slots_def)
  have q': "q' = q\<lparr>q_elements := min (q_elements q) maxe, q_max_elements := maxe, q_root := r\<rparr>"
    and ret: "ret = 0"
    using res False r fits by (auto simp: resize_queue_def uint_wrap_def)
  have len: "length r = maxe + 1" using length_realloc_slots [OF r] .
  have keep: "r ! i = q_root q ! i" if "i \<le> min (q_elements q) maxe" for i
    using nth_realloc_slots [OF r, of i] that wf by (auto simp: queue_wf_def)
  have cmp: "queue_cmp q' = queue_cmp q" by (simp add: q' queue_cmp_def fun_eq_iff)
  have "queue_list q' = take maxe (queue_list q)"
    using wf len keep by (intro nth_equalityI) (auto simp: q' queue_list_def queue_wf_def nth_tl)
  moreover have "queue_heap q'"
    unfolding queue_heap_def heap_from_def cmp
  proof (intro ballI impI)
    fix i assume "i \<in> {2..q_elements q'}" "1 \<le> i div 2"
    then have i: "i \<le> min (q_elements q) maxe" "2 \<le> i" "i div 2 \<le> i" by (auto simp: q')
    then have "i div 2 \<le> min (q_elements q) maxe" by linarith
    with i have "r ! i = q_root q ! i" "r ! (i div 2) = q_root q ! (i div 2)"
      using keep by blast+
    then show "queue_cmp q (q_root q' ! (i div 2)) (q_root q' ! i) \<le> 0"
      using inv i by (auto simp: q' queue_inv_def queue_heap_def heap_from_def)
  qed
  then have "queue_inv q'"
    using inv len fits by (auto simp: q' queue_inv_def queue_wf_def)
  ultimately show ?thesis using ret cmp by (simp add: q')
qed

text \<open>\<open>resize_queue\<close> keeps a queue well formed and in heap order. When it reports success the
  capacity is the requested one and the elements are those of the first \<open>maxe\<close> slots. When it
  reports an error the queue is unchanged, and it reports an error only when the allocation
  failed.\<close>

lemma resize_queue_correct:
  assumes "queue_inv q" "maxe + 1 < 2 ^ 32" "resize_queue ok junk q maxe = (q', ret)"
  shows "if ret = 0 then queue_inv q' \<and> q_max_elements q' = maxe \<and>
      queue_list q' = take maxe (queue_list q)
    else q' = q \<and> \<not> ok"
  using resize_queue_ok [OF assms] by (auto split: if_splits)

text \<open>\<open>queue_insert_safe\<close> on a queue in heap order never runs outside the array. It returns 0
  and adds exactly the element whenever there is room or the array can grow, 1 with the queue
  unchanged when the array had to grow and the allocation failed, and 2 with the queue unchanged
  when the queue is full and has no extent.\<close>

lemma queue_insert_safe_correct:
  assumes "queue_inv q" "q_max_elements q + q_auto_extent q + 1 < 2 ^ 32"
  shows "\<exists>q' ret. queue_insert_safe ok junk q e = Some (q', ret) \<and> queue_inv q' \<and>
    ret = (if q_elements q < q_max_elements q then 0 else if q_auto_extent q = 0 then 2
           else if ok then 0 else 1) \<and>
    queue_mset q' = (if ret = 0 then add_mset e (queue_mset q) else queue_mset q)"
proof -
  have wf: "queue_wf q" using assms(1) by (simp add: queue_inv_def)
  have sz: "length (queue_list q) = q_elements q" "q_elements q \<le> q_max_elements q"
    using size_queue_mset [OF wf] wf by (auto simp: queue_wf_def)
  have ins: "\<exists>q2. queue_insert p e = Some q2 \<and> queue_inv q2 \<and> queue_mset q2 = add_mset e (queue_mset p)"
    if "queue_inv p" "length (queue_list p) < q_max_elements p" for p :: "'a queue"
    using queue_pq.ins_ok [of p e] that by auto
  show ?thesis
  proof (cases "q_elements q < q_max_elements q")
    case True
    then show ?thesis using ins [OF assms(1)] sz by (auto simp: queue_insert_safe_def)
  next
    case full: False
    show ?thesis
    proof (cases "q_auto_extent q = 0")
      case True
      then show ?thesis using assms(1) full sz by (simp add: queue_insert_safe_def)
    next
      case ext: False
      let ?m = "q_max_elements q + q_auto_extent q"
      obtain q1 ret where r: "resize_queue ok junk q ?m = (q1, ret)" by fastforce
      have "ret = 0 \<longleftrightarrow> ok" using r by (auto simp: resize_queue_def realloc_slots_def ext split: if_splits)
      moreover have "uint_wrap ?m = ?m" using assms(2) by (simp add: uint_wrap_def)
      ultimately show ?thesis
        using resize_queue_ok [OF assms(1) _ r] assms full ext sz r ins [of q1]
        by (auto simp: queue_insert_safe_def split: if_splits)
    qed
  qed
qed

section \<open>Witnesses\<close>

lemma resize_queue_correct_sample:
  "let (q', ret) = resize_queue True (\<lambda>_. 0) sample_queue 3 in
     ret = 0 \<and> queue_inv q' \<and> q_max_elements q' = 3 \<and> queue_list q' = [1, 10, 2]"
proof -
  obtain q' ret where r: "resize_queue True (\<lambda>_. 0) sample_queue 3 = (q', ret)" by fastforce
  then have "ret = 0" by (auto simp: resize_queue_def realloc_slots_def)
  then show ?thesis using resize_queue_correct [OF sample_queue_inv _ r] r by simp
qed

lemma queue_insert_safe_correct_sample:
  "\<exists>q'. queue_insert_safe True (\<lambda>_. 0) sample_queue 5 = Some (q', 0) \<and> queue_inv q' \<and>
    queue_mset q' = {#5, 1, 10, 2, 11, 12, 3, 4#}"
  using queue_insert_safe_correct [OF sample_queue_inv, of True "\<lambda>_. 0" 5]
  by (simp add: add_mset_commute)

theorem queue_insert_correct_witness:
  "\<exists>q'. queue_insert sample_queue 5 = Some q' \<and> queue_inv q' \<and> q_elements q' = 8 \<and>
    queue_mset q' = {#1, 10, 2, 11, 12, 3, 4, 5#}"
proof -
  have "q_elements sample_queue < q_max_elements sample_queue" by (simp add: sample_queue_def)
  from queue_insert_correct [OF sample_queue_inv this, of 5] show ?thesis
    by (simp add: add_mset_commute)
qed

theorem queue_remove_top_correct_witness:
  "\<exists>q' x. queue_remove sample_queue 0 = Some (q', x) \<and> x = 1 \<and> queue_inv q' \<and>
    queue_mset q' = {#10, 2, 11, 12, 3, 4#}"
proof -
  have "0 < q_elements sample_queue" by (simp add: sample_queue_def)
  from queue_remove_top_correct [OF sample_queue_inv this] show ?thesis
    by (auto simp: queue_top_def)
qed

theorem downheap_eq_downheap_old_witness:
  "downheap sample_queue 2 = downheap_old sample_queue 2"
proof (rule downheap_eq_downheap_old)
  show "heap_from sample_queue (Suc 2) (q_root sample_queue)"
    using sample_queue_inv by (auto simp: queue_inv_def queue_heap_def heap_from_def)
qed (use sample_queue_inv in \<open>auto simp: queue_inv_def sample_queue_def\<close>)

theorem queue_fix_correct_witness:
  "\<exists>q'. queue_fix (sample_queue\<lparr>q_root := [0, 9, 8, 7, 6, 5, 4, 3, 0, 0]\<rparr>) = Some q' \<and> queue_inv q' \<and>
    queue_mset q' = {#9, 8, 7, 6, 5, 4, 3#}"
proof -
  let ?q = "sample_queue\<lparr>q_root := [0, 9, 8, 7, 6, 5, 4, 3, 0, 0]\<rparr>"
  have "queue_wf ?q" "comparator (q_compare ?q (q_first_cmp_arg ?q))"
    by (simp_all add: queue_wf_def sample_queue_def addr_compare.comparator_axioms)
  from queue_fix_correct [OF this] show ?thesis
    by (simp add: queue_list_def sample_queue_def)
qed

theorem queue_insert_then_drain_sorts_witness:
  "\<exists>q' ys. pq_insert_all queue_insert [30, 10, 20] (queue_remove_all sample_queue) = Some q' \<and>
    pq_drain (\<lambda>q. queue_remove q 0) 3 q' = Some ys \<and> mset ys = {#30, 10, 20#} \<and>
    sorted_wrt (\<lambda>a b. queue_cmp sample_queue a b \<le> 0) ys"
proof -
  have "queue_inv (queue_remove_all sample_queue)"
    using sample_queue_inv
    by (simp add: queue_inv_def queue_wf_def queue_heap_def heap_from_def queue_remove_all_def
        sample_queue_def)
  moreover have "q_elements (queue_remove_all sample_queue) = 0"
    "length [30, 10, 20 :: nat] \<le> q_max_elements (queue_remove_all sample_queue)"
    by (simp_all add: queue_remove_all_def sample_queue_def)
  ultimately show ?thesis
    using queue_insert_then_drain_sorts [of "queue_remove_all sample_queue" "[30, 10, 20]"]
    by (simp add: queue_remove_all_def eval_nat_numeral)
qed

theorem queue_remove_heap_iff_witness:
  "\<exists>q'. queue_remove sample_queue 2 = Some (q', 2) \<and> queue_wf q' \<and> queue_heap q' \<and>
    queue_mset q' = {#1, 10, 11, 12, 3, 4#}"
proof -
  have "2 < q_elements sample_queue" by (simp add: sample_queue_def)
  from queue_remove_heap_iff [OF sample_queue_inv this] show ?thesis
    by (auto simp: add_mset_commute)
qed

end
