(* ===== verification/Byte_Order.thy ===== *)
theory Byte_Order
  imports Mysys_Prelude
begin

text \<open>
  The byte order macros: the low byte first ones of \<^verbatim>\<open>include/my_global.h\<close> (in their
  portable version) that the client protocol uses, and the high byte first ones of
  \<^verbatim>\<open>include/myisampack.h\<close> that keys and file pointers use. A buffer is a list of bytes, a
  pointer into it is an index. Every byte access is checked.

  The macros are proved equal to the positional notation of their argument in base 256
  (\<open>le_bytes\<close>, \<open>be_bytes\<close>, \<open>le_val\<close>, \<open>be_val\<close>), from which the round trips follow.
\<close>

unbundle bit_operations_syntax

section \<open>Stores\<close>

fun store_bytes :: "u8 list \<Rightarrow> nat \<Rightarrow> u8 list \<Rightarrow> u8 list option" where
  "store_bytes t p [] = Some t"
| "store_bytes t p (b # bs) = do { t' \<leftarrow> aset t p b; store_bytes t' (p + 1) bs }"

definition int2store :: "u8 list \<Rightarrow> nat \<Rightarrow> u64 \<Rightarrow> u8 list option" where
  "int2store t p a =
     (let def_temp = (ucast a :: u32) in
      store_bytes t p [ucast def_temp, ucast (drop_bit 8 def_temp)])"

definition int3store :: "u8 list \<Rightarrow> nat \<Rightarrow> u64 \<Rightarrow> u8 list option" where
  "int3store t p a = store_bytes t p [ucast a, ucast (drop_bit 8 a), ucast (drop_bit 16 a)]"

definition int4store :: "u8 list \<Rightarrow> nat \<Rightarrow> u64 \<Rightarrow> u8 list option" where
  "int4store t p a =
     store_bytes t p [ucast a, ucast (drop_bit 8 a), ucast (drop_bit 16 a), ucast (drop_bit 24 a)]"

definition int5store :: "u8 list \<Rightarrow> nat \<Rightarrow> u64 \<Rightarrow> u8 list option" where
  "int5store t p a =
     store_bytes t p [ucast a, ucast (drop_bit 8 a), ucast (drop_bit 16 a), ucast (drop_bit 24 a),
       ucast (drop_bit 32 a)]"

definition int6store :: "u8 list \<Rightarrow> nat \<Rightarrow> u64 \<Rightarrow> u8 list option" where
  "int6store t p a =
     store_bytes t p [ucast a, ucast (drop_bit 8 a), ucast (drop_bit 16 a), ucast (drop_bit 24 a),
       ucast (drop_bit 32 a), ucast (drop_bit 40 a)]"

definition int8store :: "u8 list \<Rightarrow> nat \<Rightarrow> u64 \<Rightarrow> u8 list option" where
  "int8store t p a =
     (let def_temp = (ucast a :: u32); def_temp2 = (ucast (drop_bit 32 a) :: u32) in
      do { t1 \<leftarrow> int4store t p (ucast def_temp);
           int4store t1 (p + 4) (ucast def_temp2) })"

definition mi_int2store :: "u8 list \<Rightarrow> nat \<Rightarrow> u64 \<Rightarrow> u8 list option" where
  "mi_int2store t p a =
     (let def_temp = (ucast a :: u32) in
      store_bytes t p [ucast (drop_bit 8 def_temp), ucast def_temp])"

definition mi_int3store :: "u8 list \<Rightarrow> nat \<Rightarrow> u64 \<Rightarrow> u8 list option" where
  "mi_int3store t p a = store_bytes t p [ucast (drop_bit 16 a), ucast (drop_bit 8 a), ucast a]"

definition mi_int4store :: "u8 list \<Rightarrow> nat \<Rightarrow> u64 \<Rightarrow> u8 list option" where
  "mi_int4store t p a =
     store_bytes t p [ucast (drop_bit 24 a), ucast (drop_bit 16 a), ucast (drop_bit 8 a), ucast a]"

definition mi_int5store :: "u8 list \<Rightarrow> nat \<Rightarrow> u64 \<Rightarrow> u8 list option" where
  "mi_int5store t p a =
     (let def_temp = a; def_temp2 = drop_bit 32 a in
      store_bytes t p [ucast def_temp2, ucast (drop_bit 24 def_temp), ucast (drop_bit 16 def_temp),
        ucast (drop_bit 8 def_temp), ucast def_temp])"

definition mi_int6store :: "u8 list \<Rightarrow> nat \<Rightarrow> u64 \<Rightarrow> u8 list option" where
  "mi_int6store t p a =
     (let def_temp = a; def_temp2 = drop_bit 32 a in
      store_bytes t p [ucast (drop_bit 8 def_temp2), ucast def_temp2, ucast (drop_bit 24 def_temp),
        ucast (drop_bit 16 def_temp), ucast (drop_bit 8 def_temp), ucast def_temp])"

definition mi_int7store :: "u8 list \<Rightarrow> nat \<Rightarrow> u64 \<Rightarrow> u8 list option" where
  "mi_int7store t p a =
     (let def_temp = a; def_temp2 = drop_bit 32 a in
      store_bytes t p [ucast (drop_bit 16 def_temp2), ucast (drop_bit 8 def_temp2), ucast def_temp2,
        ucast (drop_bit 24 def_temp), ucast (drop_bit 16 def_temp), ucast (drop_bit 8 def_temp),
        ucast def_temp])"

definition mi_int8store :: "u8 list \<Rightarrow> nat \<Rightarrow> u64 \<Rightarrow> u8 list option" where
  "mi_int8store t p a =
     (let def_temp3 = a; def_temp4 = drop_bit 32 a in
      do { t1 \<leftarrow> mi_int4store t p def_temp4; mi_int4store t1 (p + 4) def_temp3 })"

section \<open>Loads\<close>

text \<open>Four bytes added up in \<open>uint32\<close> arithmetic, as every macro of four bytes and more does.\<close>

definition sum32 :: "u8 \<Rightarrow> u8 \<Rightarrow> u8 \<Rightarrow> u8 \<Rightarrow> u32" where
  "sum32 b0 b1 b2 b3 =
     ucast b0 + push_bit 8 (ucast b1) + push_bit 16 (ucast b2) + push_bit 24 (ucast b3)"

definition uint2korr :: "u8 list \<Rightarrow> nat \<Rightarrow> 16 word option" where
  "uint2korr a p =
     do { b0 \<leftarrow> aget a p; b1 \<leftarrow> aget a (p + 1); Some (ucast b0 + push_bit 8 (ucast b1)) }"

definition uint3korr :: "u8 list \<Rightarrow> nat \<Rightarrow> u32 option" where
  "uint3korr a p =
     do { b0 \<leftarrow> aget a p; b1 \<leftarrow> aget a (p + 1); b2 \<leftarrow> aget a (p + 2);
          Some (ucast b0 + push_bit 8 (ucast b1) + push_bit 16 (ucast b2)) }"

definition uint4korr :: "u8 list \<Rightarrow> nat \<Rightarrow> u32 option" where
  "uint4korr a p =
     do { b0 \<leftarrow> aget a p; b1 \<leftarrow> aget a (p + 1); b2 \<leftarrow> aget a (p + 2); b3 \<leftarrow> aget a (p + 3);
          Some (sum32 b0 b1 b2 b3) }"

definition uint5korr :: "u8 list \<Rightarrow> nat \<Rightarrow> u64 option" where
  "uint5korr a p =
     do { b0 \<leftarrow> aget a p; b1 \<leftarrow> aget a (p + 1); b2 \<leftarrow> aget a (p + 2); b3 \<leftarrow> aget a (p + 3);
          b4 \<leftarrow> aget a (p + 4);
          Some (ucast (sum32 b0 b1 b2 b3) + push_bit 32 (ucast b4)) }"

definition uint6korr :: "u8 list \<Rightarrow> nat \<Rightarrow> u64 option" where
  "uint6korr a p =
     do { b0 \<leftarrow> aget a p; b1 \<leftarrow> aget a (p + 1); b2 \<leftarrow> aget a (p + 2); b3 \<leftarrow> aget a (p + 3);
          b4 \<leftarrow> aget a (p + 4); b5 \<leftarrow> aget a (p + 5);
          Some (ucast (sum32 b0 b1 b2 b3) + push_bit 32 (ucast b4) + push_bit 40 (ucast b5)) }"

definition uint8korr :: "u8 list \<Rightarrow> nat \<Rightarrow> u64 option" where
  "uint8korr a p =
     do { b0 \<leftarrow> aget a p; b1 \<leftarrow> aget a (p + 1); b2 \<leftarrow> aget a (p + 2); b3 \<leftarrow> aget a (p + 3);
          b4 \<leftarrow> aget a (p + 4); b5 \<leftarrow> aget a (p + 5); b6 \<leftarrow> aget a (p + 6); b7 \<leftarrow> aget a (p + 7);
          Some (ucast (sum32 b0 b1 b2 b3) + push_bit 32 (ucast (sum32 b4 b5 b6 b7))) }"

definition mi_uint2korr :: "u8 list \<Rightarrow> nat \<Rightarrow> 16 word option" where
  "mi_uint2korr a p =
     do { b0 \<leftarrow> aget a p; b1 \<leftarrow> aget a (p + 1); Some (ucast b1 + push_bit 8 (ucast b0)) }"

definition mi_uint3korr :: "u8 list \<Rightarrow> nat \<Rightarrow> u32 option" where
  "mi_uint3korr a p =
     do { b0 \<leftarrow> aget a p; b1 \<leftarrow> aget a (p + 1); b2 \<leftarrow> aget a (p + 2);
          Some (ucast b2 + push_bit 8 (ucast b1) + push_bit 16 (ucast b0)) }"

definition mi_uint4korr :: "u8 list \<Rightarrow> nat \<Rightarrow> u32 option" where
  "mi_uint4korr a p =
     do { b0 \<leftarrow> aget a p; b1 \<leftarrow> aget a (p + 1); b2 \<leftarrow> aget a (p + 2); b3 \<leftarrow> aget a (p + 3);
          Some (sum32 b3 b2 b1 b0) }"

definition mi_uint5korr :: "u8 list \<Rightarrow> nat \<Rightarrow> u64 option" where
  "mi_uint5korr a p =
     do { b0 \<leftarrow> aget a p; b1 \<leftarrow> aget a (p + 1); b2 \<leftarrow> aget a (p + 2); b3 \<leftarrow> aget a (p + 3);
          b4 \<leftarrow> aget a (p + 4);
          Some (ucast (sum32 b4 b3 b2 b1) + push_bit 32 (ucast b0)) }"

definition mi_uint6korr :: "u8 list \<Rightarrow> nat \<Rightarrow> u64 option" where
  "mi_uint6korr a p =
     do { b0 \<leftarrow> aget a p; b1 \<leftarrow> aget a (p + 1); b2 \<leftarrow> aget a (p + 2); b3 \<leftarrow> aget a (p + 3);
          b4 \<leftarrow> aget a (p + 4); b5 \<leftarrow> aget a (p + 5);
          Some (ucast (sum32 b5 b4 b3 b2)
            + push_bit 32 (ucast (ucast b1 + push_bit 8 (ucast b0) :: u32))) }"

definition mi_uint7korr :: "u8 list \<Rightarrow> nat \<Rightarrow> u64 option" where
  "mi_uint7korr a p =
     do { b0 \<leftarrow> aget a p; b1 \<leftarrow> aget a (p + 1); b2 \<leftarrow> aget a (p + 2); b3 \<leftarrow> aget a (p + 3);
          b4 \<leftarrow> aget a (p + 4); b5 \<leftarrow> aget a (p + 5); b6 \<leftarrow> aget a (p + 6);
          Some (ucast (sum32 b6 b5 b4 b3)
            + push_bit 32 (ucast (ucast b2 + push_bit 8 (ucast b1) + push_bit 16 (ucast b0) :: u32))) }"

definition mi_uint8korr :: "u8 list \<Rightarrow> nat \<Rightarrow> u64 option" where
  "mi_uint8korr a p =
     do { b0 \<leftarrow> aget a p; b1 \<leftarrow> aget a (p + 1); b2 \<leftarrow> aget a (p + 2); b3 \<leftarrow> aget a (p + 3);
          b4 \<leftarrow> aget a (p + 4); b5 \<leftarrow> aget a (p + 5); b6 \<leftarrow> aget a (p + 6); b7 \<leftarrow> aget a (p + 7);
          Some (ucast (sum32 b7 b6 b5 b4) + push_bit 32 (ucast (sum32 b3 b2 b1 b0))) }"

section \<open>Positional notation\<close>

primrec le_bytes :: "nat \<Rightarrow> nat \<Rightarrow> u8 list" where
  "le_bytes 0 x = []"
| "le_bytes (Suc n) x = word_of_nat x # le_bytes n (x div 256)"

definition be_bytes :: "nat \<Rightarrow> nat \<Rightarrow> u8 list" where
  "be_bytes n x = rev (le_bytes n x)"

primrec le_val :: "u8 list \<Rightarrow> nat" where
  "le_val [] = 0"
| "le_val (b # bs) = unat b + 256 * le_val bs"

definition be_val :: "u8 list \<Rightarrow> nat" where
  "be_val bs = le_val (rev bs)"

lemma length_le_bytes [simp]: "length (le_bytes n x) = n"
  by (induction n arbitrary: x) auto

lemma length_be_bytes [simp]: "length (be_bytes n x) = n"
  by (simp add: be_bytes_def)

lemma le_val_le_bytes: "le_val (le_bytes n x) = x mod 256 ^ n"
proof (induction n arbitrary: x)
  case (Suc n)
  have "x mod (256 * 256 ^ n) = 256 * (x div 256 mod 256 ^ n) + x mod 256"
    by (rule mod_mult2_eq)
  then show ?case by (simp add: Suc unat_of_nat)
qed simp

lemma be_val_be_bytes: "be_val (be_bytes n x) = x mod 256 ^ n"
  by (simp add: be_val_def be_bytes_def le_val_le_bytes)

lemma unat_byte_less: "unat (b :: u8) < 256"
proof -
  have "(unsigned b :: nat) < 2 ^ LENGTH(8)" by (rule unsigned_less)
  then show ?thesis by simp
qed

lemma le_val_less: "le_val bs < 256 ^ length bs"
proof (induction bs)
  case (Cons b bs)
  then have "le_val bs + 1 \<le> 256 ^ length bs" by simp
  then have "256 * (le_val bs + 1) \<le> 256 * 256 ^ length bs" by (rule mult_le_mono2)
  then show ?case using unat_byte_less [of b] by simp
qed simp

lemma be_val_less: "be_val bs < 256 ^ length bs"
  using le_val_less [of "rev bs"] by (simp add: be_val_def)

lemma byte_of_positional [simp]: "word_of_nat (unat b + 256 * k) = (b :: u8)"
  by (rule unsigned_word_eqI [where ?'a = nat]) (simp add: unsigned_of_nat take_bit_eq_mod unat_byte_less del: of_nat_add of_nat_mult)

lemma le_bytes_le_val: "le_bytes (length bs) (le_val bs) = bs"
  by (induction bs) (simp_all add: unat_byte_less del: of_nat_add)

section \<open>The macros are positional notation\<close>

lemma store_bytes_eq:
  "p + length bs \<le> length t \<Longrightarrow> store_bytes t p bs = Some (take p t @ bs @ drop (p + length bs) t)"
proof (induction bs arbitrary: t p)
  case (Cons b bs)
  then have "p < length t" by simp
  then have "take (Suc p) (t[p := b]) = take p t @ [b]"
    by (simp add: take_Suc_conv_app_nth)
  with Cons show ?case by simp
qed simp

lemma ucast_drop_bit_byte:
  "(ucast (drop_bit k (a :: 'a::len word)) :: u8) = word_of_nat (unat a div 2 ^ k)"
  by (rule unsigned_word_eqI [where ?'a = nat])
    (simp add: unsigned_ucast_eq unsigned_of_nat unsigned_drop_bit_eq take_bit_eq_mod,
      simp add: drop_bit_eq_div unsigned_less)

lemma word_of_positional:
  "(ucast b + 256 * word_of_nat k :: 'a::len word) = word_of_nat (unat (b :: u8) + 256 * k)"
  by simp

lemma u32_of_bytes:
  "sum32 b0 b1 b2 b3 = word_of_nat (le_val [b0, b1, b2, b3])"
  "(ucast b0 + push_bit 8 (ucast b1) + push_bit 16 (ucast b2) :: u32) = word_of_nat (le_val [b0, b1, b2])"
  "(ucast b0 + push_bit 8 (ucast b1) :: 'a::len word) = word_of_nat (le_val [b0, b1])"
  by (simp_all add: sum32_def push_bit_eq_mult algebra_simps)

lemma ucast_word_of_nat:
  "n < 2 ^ LENGTH('b) \<Longrightarrow> (ucast (word_of_nat n :: 'b::len word) :: 'a::len word) = word_of_nat n"
  by (rule unsigned_word_eqI [where ?'a = nat])
    (simp add: unsigned_ucast_eq unsigned_of_nat take_bit_nat_eq_self)

lemma ucast_via_u32 [simp]:
  "(ucast (ucast (a :: u64) :: u32) :: u8) = ucast a"
  "(ucast (drop_bit 8 (ucast (a :: u64) :: u32)) :: u8) = ucast (drop_bit 8 a)"
  by (rule bit_word_eqI, auto simp: bit_simps)+

lemma u32_of_le_val:
  "length bs \<le> 4 \<Longrightarrow> (ucast (word_of_nat (le_val bs) :: u32) :: u64) = word_of_nat (le_val bs)"
proof (rule ucast_word_of_nat)
  assume "length bs \<le> 4"
  then have "(256 :: nat) ^ length bs \<le> 256 ^ 4" by (intro power_increasing) auto
  then show "le_val bs < 2 ^ LENGTH(32)" using le_val_less [of bs] by simp
qed

lemma le_bytes_map: "le_bytes n x = map (\<lambda>i. word_of_nat (x div 256 ^ i)) [0..<n]"
proof (induction n arbitrary: x)
  case (Suc n)
  have "[0..<Suc n] = 0 # map Suc [0..<n]" by (simp add: map_Suc_upt upt_conv_Cons)
  moreover have "x div 256 ^ Suc i = x div 256 div 256 ^ i" for i
    by (simp only: power_Suc div_mult2_eq)
  ultimately show ?case by (simp only: le_bytes.simps Suc list.map map_map comp_def power_0 div_by_1)
qed simp

lemma le_bytes_word:
  fixes a :: u64
  shows "le_bytes 2 (unat a) = [ucast a, ucast (drop_bit 8 a)]"
    and "le_bytes 3 (unat a) = [ucast a, ucast (drop_bit 8 a), ucast (drop_bit 16 a)]"
    and "le_bytes 4 (unat a) =
      [ucast a, ucast (drop_bit 8 a), ucast (drop_bit 16 a), ucast (drop_bit 24 a)]"
    and "le_bytes 5 (unat a) =
      [ucast a, ucast (drop_bit 8 a), ucast (drop_bit 16 a), ucast (drop_bit 24 a),
       ucast (drop_bit 32 a)]"
    and "le_bytes 6 (unat a) =
      [ucast a, ucast (drop_bit 8 a), ucast (drop_bit 16 a), ucast (drop_bit 24 a),
       ucast (drop_bit 32 a), ucast (drop_bit 40 a)]"
    and "le_bytes 7 (unat a) =
      [ucast a, ucast (drop_bit 8 a), ucast (drop_bit 16 a), ucast (drop_bit 24 a),
       ucast (drop_bit 32 a), ucast (drop_bit 40 a), ucast (drop_bit 48 a)]"
    and "le_bytes 8 (unat a) =
      [ucast a, ucast (drop_bit 8 a), ucast (drop_bit 16 a), ucast (drop_bit 24 a),
       ucast (drop_bit 32 a), ucast (drop_bit 40 a), ucast (drop_bit 48 a), ucast (drop_bit 56 a)]"
  by (simp_all add: le_bytes_map upt_conv_Cons ucast_drop_bit_byte)

lemma intstore_eq:
  "int2store t p a = store_bytes t p (le_bytes 2 (unat a))"
  "int3store t p a = store_bytes t p (le_bytes 3 (unat a))"
  "int4store t p a = store_bytes t p (le_bytes 4 (unat a))"
  "int5store t p a = store_bytes t p (le_bytes 5 (unat a))"
  "int6store t p a = store_bytes t p (le_bytes 6 (unat a))"
  by (simp_all only: int2store_def int3store_def int4store_def int5store_def int6store_def
      le_bytes_word Let_def ucast_via_u32)

lemma mi_intstore_eq:
  "mi_int2store t p a = store_bytes t p (be_bytes 2 (unat a))"
  "mi_int3store t p a = store_bytes t p (be_bytes 3 (unat a))"
  "mi_int4store t p a = store_bytes t p (be_bytes 4 (unat a))"
  "mi_int5store t p a = store_bytes t p (be_bytes 5 (unat a))"
  "mi_int6store t p a = store_bytes t p (be_bytes 6 (unat a))"
  "mi_int7store t p a = store_bytes t p (be_bytes 7 (unat a))"
  by (simp_all add: mi_int2store_def mi_int3store_def mi_int4store_def mi_int5store_def
      mi_int6store_def mi_int7store_def le_bytes_word be_bytes_def Let_def del: store_bytes.simps)

lemma store_bytes_append:
  "store_bytes t p (xs @ ys) = do { t1 \<leftarrow> store_bytes t p xs; store_bytes t1 (p + length xs) ys }"
  by (induction xs arbitrary: t p) (auto split: bind_splits)

lemma add_four: "Suc (Suc (Suc (Suc p))) = p + 4"
  by simp

lemma int8store_eq: "int8store t p a = store_bytes t p (le_bytes 8 (unat a))"
proof -
  have "(ucast (drop_bit k (ucast (b :: u64) :: u32) :: u32) :: u8) = ucast (drop_bit k b)"
    if "k + 8 \<le> 32" for b k
    using that by (intro bit_word_eqI) (auto simp: bit_simps)
  moreover have "(ucast (drop_bit k (ucast (b :: u32) :: u64)) :: u8) = ucast (drop_bit k b)" for b k
    by (intro bit_word_eqI) (auto simp: bit_simps dest: bit_imp_le_length)
  moreover have "(ucast (ucast (b :: u32) :: u64) :: u8) = ucast b" for b
    by (intro bit_word_eqI) (auto simp: bit_simps)
  moreover have "le_bytes 8 (unat a) =
      [ucast a, ucast (drop_bit 8 a), ucast (drop_bit 16 a), ucast (drop_bit 24 a)] @
      [ucast (drop_bit 32 a), ucast (drop_bit 40 a), ucast (drop_bit 48 a), ucast (drop_bit 56 a)]"
    by (simp add: le_bytes_word)
  ultimately show ?thesis
    by (simp add: int8store_def int4store_def store_bytes_append Let_def add_four del: store_bytes.simps append.simps)
qed

lemma mi_int8store_eq: "mi_int8store t p a = store_bytes t p (be_bytes 8 (unat a))"
proof -
  have "be_bytes 8 (unat a) =
      [ucast (drop_bit 56 a), ucast (drop_bit 48 a), ucast (drop_bit 40 a), ucast (drop_bit 32 a)] @
      [ucast (drop_bit 24 a), ucast (drop_bit 16 a), ucast (drop_bit 8 a), ucast a]"
    by (simp add: le_bytes_word be_bytes_def)
  then show ?thesis
    by (simp add: mi_int8store_def mi_int4store_def store_bytes_append Let_def add_four
        del: store_bytes.simps append.simps)
qed

lemma take_drop_nth: "p < length t \<Longrightarrow> take (Suc n) (drop p t) = t ! p # take n (drop (Suc p) t)"
  by (simp add: Cons_nth_drop_Suc [symmetric])

lemma take_2_drop: "p + 2 \<le> length t \<Longrightarrow> take 2 (drop p t) = [t ! p, t ! (p + 1)]"
  by (simp add: numeral_2_eq_2 take_drop_nth)

lemma take_3_drop: "p + 3 \<le> length t \<Longrightarrow> take 3 (drop p t) = [t ! p, t ! (p + 1), t ! (p + 2)]"
  by (simp add: numeral_3_eq_3 take_drop_nth)

lemma take_4_drop:
  "p + 4 \<le> length t \<Longrightarrow> take 4 (drop p t) = [t ! p, t ! (p + 1), t ! (p + 2), t ! (p + 3)]"
  using take_2_drop [of p t] take_2_drop [of "p + 2" t] take_add [of 2 2 "drop p t"]
  by (simp add: add.commute) (simp add: numeral_3_eq_3)

lemma take_drop_split: "take (m + n) (drop p t) = take m (drop p t) @ take n (drop (p + m) t)"
  by (simp add: take_add add.commute)

lemma uintkorr_eq:
  "p + 2 \<le> length t \<Longrightarrow> uint2korr t p = Some (word_of_nat (le_val (take 2 (drop p t))))"
  "p + 3 \<le> length t \<Longrightarrow> uint3korr t p = Some (word_of_nat (le_val (take 3 (drop p t))))"
  "p + 4 \<le> length t \<Longrightarrow> uint4korr t p = Some (word_of_nat (le_val (take 4 (drop p t))))"
  subgoal by (simp add: uint2korr_def u32_of_bytes take_2_drop del: le_val.simps)
  subgoal by (simp add: uint3korr_def u32_of_bytes(2) take_3_drop del: le_val.simps)
  subgoal by (simp add: uint4korr_def u32_of_bytes take_4_drop del: le_val.simps)
  done

lemma mi_uintkorr_eq:
  "p + 2 \<le> length t \<Longrightarrow> mi_uint2korr t p = Some (word_of_nat (be_val (take 2 (drop p t))))"
  "p + 3 \<le> length t \<Longrightarrow> mi_uint3korr t p = Some (word_of_nat (be_val (take 3 (drop p t))))"
  "p + 4 \<le> length t \<Longrightarrow> mi_uint4korr t p = Some (word_of_nat (be_val (take 4 (drop p t))))"
  subgoal by (simp add: mi_uint2korr_def u32_of_bytes take_2_drop be_val_def del: le_val.simps)
  subgoal by (simp add: mi_uint3korr_def u32_of_bytes(2) take_3_drop be_val_def del: le_val.simps)
  subgoal by (simp add: mi_uint4korr_def u32_of_bytes take_4_drop be_val_def del: le_val.simps)
  done

text \<open>The macros of five bytes and more add a high part shifted by 32 bits.\<close>

lemma take_1_drop: "p < length t \<Longrightarrow> take 1 (drop p t) = [t ! p]"
  using take_drop_nth [of p t 0] by simp

lemma take_wide_drop:
  "p + 5 \<le> length t \<Longrightarrow> take 5 (drop p t) = take 4 (drop p t) @ [t ! (p + 4)]"
  "p + 6 \<le> length t \<Longrightarrow> take 6 (drop p t) = take 4 (drop p t) @ [t ! (p + 4), t ! (p + 5)]"
  "p + 7 \<le> length t \<Longrightarrow> take 7 (drop p t) = take 4 (drop p t) @ [t ! (p + 4), t ! (p + 5), t ! (p + 6)]"
  "p + 8 \<le> length t \<Longrightarrow> take 8 (drop p t) =
     take 4 (drop p t) @ [t ! (p + 4), t ! (p + 5), t ! (p + 6), t ! (p + 7)]"
  using take_drop_split [of 4 1 p t] take_drop_split [of 4 2 p t] take_drop_split [of 4 3 p t]
    take_drop_split [of 4 4 p t] take_1_drop [of "p + 4" t] take_2_drop [of "p + 4" t]
    take_3_drop [of "p + 4" t] take_4_drop [of "p + 4" t]
  by (auto simp: add.assoc add.commute)

lemmas wide_korr = u32_of_bytes u32_of_le_val take_4_drop take_wide_drop be_val_def

lemma uint_wide_korr_eq:
  "p + 5 \<le> length t \<Longrightarrow> uint5korr t p = Some (word_of_nat (le_val (take 5 (drop p t))))"
  "p + 6 \<le> length t \<Longrightarrow> uint6korr t p = Some (word_of_nat (le_val (take 6 (drop p t))))"
  "p + 8 \<le> length t \<Longrightarrow> uint8korr t p = Some (word_of_nat (le_val (take 8 (drop p t))))"
  by (simp_all add: uint5korr_def uint6korr_def uint8korr_def wide_korr del: le_val.simps,
      simp_all add: push_bit_eq_mult algebra_simps)

lemma mi_uint_wide_korr_eq:
  "p + 5 \<le> length t \<Longrightarrow> mi_uint5korr t p = Some (word_of_nat (be_val (take 5 (drop p t))))"
  "p + 6 \<le> length t \<Longrightarrow> mi_uint6korr t p = Some (word_of_nat (be_val (take 6 (drop p t))))"
  "p + 7 \<le> length t \<Longrightarrow> mi_uint7korr t p = Some (word_of_nat (be_val (take 7 (drop p t))))"
  "p + 8 \<le> length t \<Longrightarrow> mi_uint8korr t p = Some (word_of_nat (be_val (take 8 (drop p t))))"
  subgoal by (simp add: mi_uint5korr_def wide_korr del: le_val.simps, simp add: push_bit_eq_mult algebra_simps)
  subgoal by (simp add: mi_uint6korr_def wide_korr del: le_val.simps, simp add: push_bit_eq_mult algebra_simps)
  subgoal by (simp add: mi_uint7korr_def u32_of_bytes(1,2) wide_korr(4-) del: le_val.simps, simp add: push_bit_eq_mult algebra_simps)
  subgoal by (simp add: mi_uint8korr_def wide_korr del: le_val.simps, simp add: push_bit_eq_mult algebra_simps)
  done

end
