(* ===== verification/Ptr_Cmp.thy ===== *)
theory Ptr_Cmp
  imports Byte_Order
begin

text \<open>
  \<^verbatim>\<open>mysys/ptr_cmp.c\<close>: the unrolled comparison functions that \<open>get_ptr_compare\<close> chooses for
  fixed length keys, and the storing of file pointers. The two keys are byte lists, the moving
  pointers \<open>first\<close> and \<open>last\<close> (here \<open>lst\<close>) an index into them. The comparison functions are proved equal to
  the difference of the first differing bytes, which makes \<open>get_ptr_compare\<close> a provider of the
  comparator contract, and stored file pointers are proved to sort in numerical order under it.
\<close>

section \<open>The comparison functions\<close>

partial_function (option) ptr_compare_loop :: "u8 list \<Rightarrow> u8 list \<Rightarrow> nat \<Rightarrow> int \<Rightarrow> int option" where
  "ptr_compare_loop first lst i len =
     (let len = len - 1 in
      if len \<noteq> 0 then
        do { x \<leftarrow> aget first i; y \<leftarrow> aget lst i;
             if x \<noteq> y then Some (uint x - uint y)
             else ptr_compare_loop first lst (i + 1) len }
      else do { x \<leftarrow> aget first i; y \<leftarrow> aget lst i; Some (uint x - uint y) })"

definition ptr_compare :: "nat \<Rightarrow> u8 list \<Rightarrow> u8 list \<Rightarrow> int option" where
  "ptr_compare compare_length a b = ptr_compare_loop a b 0 (int_wrap (int compare_length))"

text \<open>
  A run of \<open>cmp(N)\<close> macros at the given indices: \<open>Some (Some d)\<close> when one of them returns
  \<open>d\<close>, \<open>Some None\<close> when all the bytes agree.
\<close>

fun cmps :: "u8 list \<Rightarrow> u8 list \<Rightarrow> nat list \<Rightarrow> int option option" where
  "cmps first lst [] = Some None"
| "cmps first lst (n # ns) =
     do { x \<leftarrow> aget first n; y \<leftarrow> aget lst n;
          if x \<noteq> y then Some (Some (uint x - uint y)) else cmps first lst ns }"

partial_function (option) cmp4_loop :: "u8 list \<Rightarrow> u8 list \<Rightarrow> nat \<Rightarrow> int \<Rightarrow> int option" where
  "cmp4_loop first lst i len =
     do { r \<leftarrow> cmps first lst [i, i + 1, i + 2, i + 3];
          case r of
            Some d \<Rightarrow> Some d
          | None \<Rightarrow>
              (let len = len - 4 in
               if len \<noteq> 0 then cmp4_loop first lst (i + 4) len else Some 0) }"

definition ptr_compare_0 :: "nat \<Rightarrow> u8 list \<Rightarrow> u8 list \<Rightarrow> int option" where
  "ptr_compare_0 compare_length a b = cmp4_loop a b 0 (int_wrap (int compare_length))"

definition ptr_compare_1 :: "nat \<Rightarrow> u8 list \<Rightarrow> u8 list \<Rightarrow> int option" where
  "ptr_compare_1 compare_length a b =
     do { r \<leftarrow> cmps a b [0];
          case r of Some d \<Rightarrow> Some d
          | None \<Rightarrow> cmp4_loop a b 1 (int_wrap (int compare_length - 1)) }"

definition ptr_compare_2 :: "nat \<Rightarrow> u8 list \<Rightarrow> u8 list \<Rightarrow> int option" where
  "ptr_compare_2 compare_length a b =
     do { r \<leftarrow> cmps a b [0, 1];
          case r of Some d \<Rightarrow> Some d
          | None \<Rightarrow> cmp4_loop a b 2 (int_wrap (int compare_length - 2)) }"

definition ptr_compare_3 :: "nat \<Rightarrow> u8 list \<Rightarrow> u8 list \<Rightarrow> int option" where
  "ptr_compare_3 compare_length a b =
     do { r \<leftarrow> cmps a b [0, 1, 2];
          case r of Some d \<Rightarrow> Some d
          | None \<Rightarrow> cmp4_loop a b 3 (int_wrap (int compare_length - 3)) }"

definition get_ptr_compare :: "nat \<Rightarrow> nat \<Rightarrow> u8 list \<Rightarrow> u8 list \<Rightarrow> int option" where
  "get_ptr_compare sz =
     (if sz < 4 then ptr_compare
      else if sz mod 4 = 0 then ptr_compare_0
      else if sz mod 4 = 1 then ptr_compare_1
      else if sz mod 4 = 2 then ptr_compare_2
      else ptr_compare_3)"

section \<open>Storing file pointers\<close>

definition my_store_ptr :: "u8 list \<Rightarrow> nat \<Rightarrow> u64 \<Rightarrow> u8 list option" where
  "my_store_ptr buff pack_length pos =
     (if pack_length = 8 then mi_int8store buff 0 pos
      else if pack_length = 7 then mi_int7store buff 0 pos
      else if pack_length = 6 then mi_int6store buff 0 pos
      else if pack_length = 5 then mi_int5store buff 0 pos
      else if pack_length = 4 then mi_int4store buff 0 pos
      else if pack_length = 3 then mi_int3store buff 0 pos
      else if pack_length = 2 then mi_int2store buff 0 pos
      else if pack_length = 1 then aset buff 0 (ucast pos)
      else None)"

definition my_get_ptr :: "u8 list \<Rightarrow> nat \<Rightarrow> u64 option" where
  "my_get_ptr ptr pack_length =
     (if pack_length = 8 then mi_uint8korr ptr 0
      else if pack_length = 7 then mi_uint7korr ptr 0
      else if pack_length = 6 then mi_uint6korr ptr 0
      else if pack_length = 5 then mi_uint5korr ptr 0
      else if pack_length = 4 then map_option ucast (mi_uint4korr ptr 0)
      else if pack_length = 3 then map_option ucast (mi_uint3korr ptr 0)
      else if pack_length = 2 then map_option ucast (mi_uint2korr ptr 0)
      else if pack_length = 1 then map_option ucast (aget ptr 0)
      else None)"

section \<open>The reference comparison\<close>

fun byte_diff :: "u8 list \<Rightarrow> u8 list \<Rightarrow> int" where
  "byte_diff (x # xs) (y # ys) = (if x \<noteq> y then uint x - uint y else byte_diff xs ys)"
| "byte_diff _ _ = 0"

lemma byte_diff_same [simp]: "byte_diff xs xs = 0"
  by (induction xs) auto

lemma byte_diff_append:
  "length xs = length ys \<Longrightarrow>
     byte_diff (xs @ xs') (ys @ ys') = (if xs = ys then byte_diff xs' ys' else byte_diff xs ys)"
  by (induction xs ys rule: list_induct2) auto

lemma byte_diff_eq_0: "length xs = length ys \<Longrightarrow> byte_diff xs ys = 0 \<longleftrightarrow> xs = ys"
  by (induction xs ys rule: list_induct2) (auto, (metis word_of_int_uint)+)

lemma byte_diff_swap: "byte_diff ys xs = - byte_diff xs ys"
  by (induction xs ys rule: byte_diff.induct) auto

lemma byte_diff_trans:
  "length xs = length ys \<Longrightarrow> length ys = length zs \<Longrightarrow>
     byte_diff xs ys \<le> 0 \<Longrightarrow> byte_diff ys zs \<le> 0 \<Longrightarrow> byte_diff xs zs \<le> 0"
proof (induction xs ys zs rule: list_induct3)
  case (Cons x xs y ys z zs)
  then show ?case
    by (cases "x = y"; cases "y = z"; cases "x = z") (auto, metis antisym uint_word_of_int_eq word_of_int_uint)
qed simp

section \<open>The comparison functions compute the reference comparison\<close>

lemma take_drop_first:
  "i < length a \<Longrightarrow> 0 < n \<Longrightarrow> take n (drop i a) = a ! i # take (n - 1) (drop (Suc i) a)"
  using take_drop_nth [of i a "n - 1"] by simp

lemma ptr_compare_loop_eq:
  "0 < n \<Longrightarrow> i + n \<le> length a \<Longrightarrow> i + n \<le> length b \<Longrightarrow>
     ptr_compare_loop a b i (int n) = Some (byte_diff (take n (drop i a)) (take n (drop i b)))"
proof (induction n arbitrary: i)
  case (Suc n)
  then show ?case
    by (cases "n = 0") (auto simp: ptr_compare_loop.simps [of a b i] take_drop_first Let_def)
qed simp

lemma cmps_eq:
  "i + n \<le> length a \<Longrightarrow> i + n \<le> length b \<Longrightarrow>
     cmps a b [i..<i + n] =
       Some (if take n (drop i a) = take n (drop i b) then None
             else Some (byte_diff (take n (drop i a)) (take n (drop i b))))"
proof (induction n arbitrary: i)
  case (Suc n)
  then have "cmps a b [Suc i..<Suc i + n] =
       Some (if take n (drop (Suc i) a) = take n (drop (Suc i) b) then None
             else Some (byte_diff (take n (drop (Suc i) a)) (take n (drop (Suc i) b))))"
    by (intro Suc.IH) auto
  moreover have "[i..<i + Suc n] = i # [Suc i..<Suc i + n]"
    by (simp add: upt_conv_Cons del: upt_Suc)
  ultimately show ?case using Suc.prems by (auto simp: take_drop_first simp del: upt_Suc)
qed simp

lemma byte_diff_split:
  assumes "i + m + n \<le> length a" "i + m + n \<le> length b"
  shows "byte_diff (take (m + n) (drop i a)) (take (m + n) (drop i b)) =
    (if take m (drop i a) = take m (drop i b)
     then byte_diff (take n (drop (i + m) a)) (take n (drop (i + m) b))
     else byte_diff (take m (drop i a)) (take m (drop i b)))"
  using assms by (simp add: take_drop_split byte_diff_append)

lemma cmp4_loop_eq:
  "0 < k \<Longrightarrow> i + 4 * k \<le> length a \<Longrightarrow> i + 4 * k \<le> length b \<Longrightarrow>
     cmp4_loop a b i (int (4 * k)) =
       Some (byte_diff (take (4 * k) (drop i a)) (take (4 * k) (drop i b)))"
proof (induction k arbitrary: i)
  case (Suc k)
  have idx: "[i, i + 1, i + 2, i + 3] = [i..<i + 4]" by (simp add: upt_conv_Cons numeral_3_eq_3)
  have "cmp4_loop a b (i + 4) (int (4 * k)) =
      Some (byte_diff (take (4 * k) (drop (i + 4) a)) (take (4 * k) (drop (i + 4) b)))" if "k \<noteq> 0"
    using Suc that by simp
  then show ?case
    using Suc.prems byte_diff_split [of i 4 "4 * k" a b] cmps_eq [of i 4 a b]
    by (subst cmp4_loop.simps, unfold idx) (auto simp: Let_def)
qed simp

lemma get_ptr_compare_eq:
  assumes "0 < n" "n < 2 ^ 31" "n \<le> length a" "n \<le> length b"
  shows "get_ptr_compare n n a b = Some (byte_diff (take n a) (take n b))"
proof (cases "n < 4")
  case True
  then show ?thesis using ptr_compare_loop_eq [of n 0 a b] assms
    by (simp add: get_ptr_compare_def ptr_compare_def int_wrap_id)
next
  case False
  let ?m = "n mod 4" and ?k = "n div 4"
  have n: "n = ?m + 4 * ?k" by simp
  then have k: "0 < ?k" "?m + 4 * ?k \<le> length a" "?m + 4 * ?k \<le> length b" using False assms by auto
  have wrap: "int_wrap (int n - int ?m) = int (4 * ?k)"
  proof -
    have "int n - int ?m = int (4 * ?k)" using n by linarith
    moreover have "4 * ?k < 2 ^ 31" using assms(2) n by linarith
    ultimately show ?thesis by (subst int_wrap_id) auto
  qed
  have "byte_diff (take n a) (take n b) =
    (if take ?m a = take ?m b
     then byte_diff (take (4 * ?k) (drop ?m a)) (take (4 * ?k) (drop ?m b))
     else byte_diff (take ?m a) (take ?m b))"
    using byte_diff_split [of 0 ?m "4 * ?k" a b] k by simp
  moreover have "cmps a b [0..<?m] = Some (if take ?m a = take ?m b then None
      else Some (byte_diff (take ?m a) (take ?m b)))"
    using cmps_eq [of 0 ?m a b] k by simp
  moreover have "[0..<1] = [0 :: nat]" "[0..<2] = [0, 1 :: nat]" "[0..<3] = [0, 1, 2 :: nat]"
    by (simp_all add: upt_conv_Cons numeral_2_eq_2)
  moreover have "?m = 0 \<or> ?m = 1 \<or> ?m = 2 \<or> ?m = 3" by arith
  ultimately show ?thesis
    using False cmp4_loop_eq [OF k] wrap
    by (elim disjE) (simp_all add: get_ptr_compare_def ptr_compare_0_def ptr_compare_1_def
        ptr_compare_2_def ptr_compare_3_def del: cmps.simps)
qed

section \<open>The comparator contract\<close>

text \<open>
  A sort key comparison as \<^verbatim>\<open>sql/filesort.cc\<close> and \<^verbatim>\<open>sql/uniques.cc\<close> set it up: the
  address of a key pointer leads to \<open>sz\<close> bytes of key. \<open>mem\<close> gives the bytes. The size is
  limited by the range of the server variable \<open>max_sort_length\<close>.
\<close>

definition max_sort_length :: nat where
  "max_sort_length = 8192 * 1024"

definition key_bytes :: "(ptr \<Rightarrow> nat \<Rightarrow> u8) \<Rightarrow> nat \<Rightarrow> ptr \<Rightarrow> u8 list" where
  "key_bytes mem sz p = map (mem p) [0..<sz]"

lemma length_key_bytes [simp]: "length (key_bytes mem sz p) = sz"
  by (simp add: key_bytes_def)

lemma get_ptr_compare_keys:
  assumes "0 < sz" "sz \<le> max_sort_length"
  shows "get_ptr_compare sz sz (key_bytes mem sz a) (key_bytes mem sz b) =
    Some (byte_diff (key_bytes mem sz a) (key_bytes mem sz b))"
  using assms by (simp add: get_ptr_compare_eq max_sort_length_def)

text \<open>The sizes a sort can use: a sort that merges has keys of at least one byte.\<close>

definition key_size :: "nat \<Rightarrow> nat" where
  "key_size n = max 1 (min n max_sort_length)"

lemma key_size_id: "0 < sz \<Longrightarrow> sz \<le> max_sort_length \<Longrightarrow> key_size sz = sz"
  by (simp add: key_size_def)

interpretation sort_key: comparator
  "\<lambda>a b. the (get_ptr_compare (key_size n) (key_size n) (key_bytes mem (key_size n) a) (key_bytes mem (key_size n) b))"
proof
  fix x y z :: ptr
  let ?sz = "key_size n"
  have "0 < ?sz" "?sz \<le> max_sort_length" by (simp_all add: key_size_def max_sort_length_def)
  note eq = get_ptr_compare_keys [OF this]
  let ?c = "\<lambda>a b. the (get_ptr_compare ?sz ?sz (key_bytes mem ?sz a) (key_bytes mem ?sz b))"
  show "sgn (?c x y) = - sgn (?c y x)"
    unfolding eq option.sel by (subst byte_diff_swap) (simp add: sgn_minus)
  show "?c x y \<le> 0 \<Longrightarrow> ?c y z \<le> 0 \<Longrightarrow> ?c x z \<le> 0"
    unfolding eq option.sel by (rule byte_diff_trans) auto
qed

section \<open>Stored file pointers\<close>

lemma store_at_0: "length bs \<le> length t \<Longrightarrow> store_bytes t 0 bs = Some (bs @ drop (length bs) t)"
  using store_bytes_eq [of 0 bs t] by simp

lemma pack_length_cases:
  "1 \<le> n \<Longrightarrow> n \<le> 8 \<Longrightarrow> n = 1 \<or> n = 2 \<or> n = 3 \<or> n = 4 \<or> n = 5 \<or> n = 6 \<or> n = 7 \<or> n = (8 :: nat)"
  by arith

lemma my_store_ptr_eq:
  assumes "1 \<le> n" "n \<le> 8" "n \<le> length buff"
  shows "my_store_ptr buff n pos = Some (be_bytes n (unat pos) @ drop n buff)"
proof (cases "n = 1")
  case True
  with assms show ?thesis by (cases buff) (simp_all add: my_store_ptr_def be_bytes_def)
next
  case False
  with pack_length_cases [OF assms(1,2)] assms(3) show ?thesis
    by (elim disjE) (simp_all add: my_store_ptr_def mi_intstore_eq mi_int8store_eq store_at_0)
qed

lemma my_get_ptr_eq:
  assumes "1 \<le> n" "n \<le> 8" "n \<le> length t"
  shows "my_get_ptr t n = Some (word_of_nat (be_val (take n t)))"
proof (cases "n = 1")
  case True
  with assms show ?thesis by (cases t) (simp_all add: my_get_ptr_def be_val_def)
next
  case False
  have "be_val (take n t) < 256 ^ n" using be_val_less [of "take n t"] assms(3) by (simp add: min.absorb2)
  with False pack_length_cases [OF assms(1,2)] assms(3) show ?thesis
    by (elim disjE)
      (simp_all add: my_get_ptr_def mi_uintkorr_eq mi_uint_wide_korr_eq ucast_word_of_nat)
qed

lemma byte_diff_be_bytes:
  "x < 256 ^ n \<Longrightarrow> y < 256 ^ n \<Longrightarrow>
     sgn (byte_diff (be_bytes n x) (be_bytes n y)) = sgn (int x - int y)"
proof (induction n arbitrary: x y)
  case (Suc n)
  have split: "be_bytes (Suc n) z = be_bytes n (z div 256) @ [word_of_nat z]" for z
    by (simp add: be_bytes_def)
  have lt: "x div 256 < 256 ^ n" "y div 256 < 256 ^ n"
    using Suc.prems by (auto intro: less_mult_imp_div_less simp: mult.commute)
  note IH = Suc.IH [OF lt]
  show ?case
  proof (cases "x div 256 = y div 256")
    case True
    have "uint (word_of_nat z :: u8) = int (z mod 256)" for z
      by (simp add: unsigned_of_nat take_bit_eq_mod)
    moreover have "int x - int y = int (x mod 256) - int (y mod 256)"
      using True div_mult_mod_eq [of x 256] div_mult_mod_eq [of y 256] by linarith
    moreover have "byte_diff [a] [b] = uint a - uint b" for a b by simp
    ultimately show ?thesis using True by (simp only: split byte_diff_append) simp
  next
    case False
    then have "be_bytes n (x div 256) \<noteq> be_bytes n (y div 256)"
      using IH by (auto simp: sgn_if split: if_splits)
    then show ?thesis using False IH
      by (auto simp: split byte_diff_append sgn_if split: if_splits)
  qed
qed (simp add: be_bytes_def)

section \<open>Properties\<close>

text \<open>C31: For every key size from 1 to \<open>INT_MAX\<close>, the function \<open>get_ptr_compare\<close> returns, with
  its unrolled loops, ends without reading outside keys of that size and yields the difference of
  the first two bytes that differ, or 0 when the keys are equal.\<close>

theorem get_ptr_compare_is_byte_diff:
  assumes "0 < sz" "sz < 2 ^ 31" "length a = sz" "length b = sz"
  shows "get_ptr_compare sz sz a b = Some (byte_diff a b)"
  using get_ptr_compare_eq [of sz a b] assms by simp

text \<open>A file pointer stored in \<open>n\<close> bytes is read back as its low \<open>n\<close> bytes, and the rest of
  the buffer is not touched.\<close>

lemma my_get_ptr_store_ptr:
  assumes "1 \<le> n" "n \<le> 8" "n \<le> length buff"
  shows "\<exists>t. my_store_ptr buff n pos = Some t \<and> length t = length buff \<and> drop n t = drop n buff \<and>
    my_get_ptr t n = Some (take_bit (8 * n) pos)"
proof -
  have "unat pos mod 256 ^ n = take_bit (8 * n) (unat pos)"
    by (simp add: take_bit_eq_mod power_mult)
  then show ?thesis using assms
    by (simp add: my_store_ptr_eq my_get_ptr_eq be_val_be_bytes of_nat_take_bit)
qed

text \<open>Stored file pointers of the same length sort, under the comparison that
  \<open>get_ptr_compare\<close> chooses for that length, in the numerical order of the pointers.\<close>

lemma stored_ptr_order:
  assumes "1 \<le> n" "n \<le> 8" "unat x < 256 ^ n" "unat y < 256 ^ n"
    and "my_store_ptr (replicate n 0) n x = Some a" "my_store_ptr (replicate n 0) n y = Some b"
  shows "\<exists>d. get_ptr_compare n n a b = Some d \<and> (d < 0 \<longleftrightarrow> x < y) \<and> (d = 0 \<longleftrightarrow> x = y)"
proof -
  have ab: "a = be_bytes n (unat x)" "b = be_bytes n (unat y)"
    using assms my_store_ptr_eq [of n "replicate n 0"] by auto
  have "get_ptr_compare n n a b = Some (byte_diff a b)"
    using assms(1,2) by (subst get_ptr_compare_eq) (auto simp: ab)
  moreover have "sgn (byte_diff a b) = sgn (int (unat x) - int (unat y))"
    unfolding ab using assms(3,4) by (rule byte_diff_be_bytes)
  moreover have "x = y \<longleftrightarrow> uint x = uint y" by (metis word_of_int_uint)
  ultimately show ?thesis
    by (auto simp: sgn_if word_less_def split: if_splits)
qed

section \<open>Witnesses\<close>

theorem get_ptr_compare_is_byte_diff_witness:
  "get_ptr_compare 6 6 [1, 2, 3, 4, 9, 6] [1, 2, 3, 4, 5, 7] = Some 4"
  using get_ptr_compare_is_byte_diff [of 6 "[1, 2, 3, 4, 9, 6]" "[1, 2, 3, 4, 5, 7]"] by simp

lemma my_get_ptr_store_ptr_sample:
  "\<exists>t. my_store_ptr [0, 0, 0, 77] 3 70000 = Some t \<and> length t = length [0, 0, 0, 77 :: u8] \<and> drop 3 t = [77] \<and>
    my_get_ptr t 3 = Some 70000"
  using my_get_ptr_store_ptr [of 3 "[0, 0, 0, 77]" 70000] by simp

lemma stored_ptr_order_sample:
  "\<exists>d. get_ptr_compare 2 2 [1, 0] [0, 255] = Some d \<and> \<not> d < 0 \<and> d \<noteq> 0"
proof -
  have "my_store_ptr (replicate 2 0) 2 256 = Some [1, 0]"
    "my_store_ptr (replicate 2 0) 2 255 = Some [0, 255]"
    by code_simp+
  from stored_ptr_order [OF _ _ _ _ this] show ?thesis by simp
qed

end
