(* ===== verification/Net_Protocol.thy ===== *)
theory Net_Protocol
  imports Byte_Order
begin

text \<open>
  Length encoded strings and text rows of the client/server protocol. The server side is
  \<open>net_store_length\<close> (\<^verbatim>\<open>sql-common/pack.c\<close>), the growing packet buffer (\<open>String::realloc\<close>,
  \<open>String::append\<close> of \<^verbatim>\<open>sql/sql_string.cc\<close> and \<^verbatim>\<open>sql/sql_string.h\<close>), \<open>net_store_data\<close> and
  \<open>store_null\<close> (\<^verbatim>\<open>sql/protocol.cc\<close>). The client side is \<open>net_field_length\<close> and
  \<open>read_one_row\<close> of \<^verbatim>\<open>sql-common/client.c\<close>, which leaves the fields in the network buffer
  and ends each of them with a zero byte that overwrites the header of the next one.

  A buffer is a byte list, a pointer into it an index relative to \<open>read_pos\<close>. What
  \<open>cli_safe_read\<close> delivers is an argument: \<^term>\<open>None\<close> for \<open>packet_error\<close>, otherwise the buffer
  and the packet length.
\<close>

section \<open>Length encoded integers\<close>

definition NULL_LENGTH :: u64 where
  "NULL_LENGTH = - 1"

definition net_field_length :: "u8 list \<Rightarrow> nat \<Rightarrow> (u64 \<times> nat) option" where
  "net_field_length t pos =
     do { b \<leftarrow> aget t pos;
          if b < 251 then Some (ucast b, pos + 1)
          else if b = 251 then Some (NULL_LENGTH, pos + 1)
          else if b = 252 then do { v \<leftarrow> uint2korr t (pos + 1); Some (ucast v, pos + 3) }
          else if b = 253 then do { v \<leftarrow> uint3korr t (pos + 1); Some (ucast v, pos + 4) }
          else do { v \<leftarrow> uint4korr t (pos + 1); Some (ucast v, pos + 9) } }"

definition net_field_length_ll :: "u8 list \<Rightarrow> nat \<Rightarrow> (u64 \<times> nat) option" where
  "net_field_length_ll t pos =
     do { b \<leftarrow> aget t pos;
          if b < 251 then Some (ucast b, pos + 1)
          else if b = 251 then Some (NULL_LENGTH, pos + 1)
          else if b = 252 then do { v \<leftarrow> uint2korr t (pos + 1); Some (ucast v, pos + 3) }
          else if b = 253 then do { v \<leftarrow> uint3korr t (pos + 1); Some (ucast v, pos + 4) }
          else do { v \<leftarrow> uint8korr t (pos + 1); Some (v, pos + 9) } }"

definition net_store_length :: "u8 list \<Rightarrow> nat \<Rightarrow> u64 \<Rightarrow> (u8 list \<times> nat) option" where
  "net_store_length t packet len =
     (if len < 251 then do { t1 \<leftarrow> aset t packet (ucast len); Some (t1, packet + 1) }
      else if len < 65536 then
        do { t1 \<leftarrow> aset t packet 252; t2 \<leftarrow> int2store t1 (packet + 1) len; Some (t2, packet + 1 + 2) }
      else if len < 16777216 then
        do { t1 \<leftarrow> aset t packet 253; t2 \<leftarrow> int3store t1 (packet + 1) len; Some (t2, packet + 1 + 3) }
      else
        do { t1 \<leftarrow> aset t packet 254; t2 \<leftarrow> int8store t1 (packet + 1) len; Some (t2, packet + 1 + 8) })"

definition net_store_length_fast :: "u8 list \<Rightarrow> nat \<Rightarrow> u32 \<Rightarrow> (u8 list \<times> nat) option" where
  "net_store_length_fast t packet len =
     (if len < 251 then do { t1 \<leftarrow> aset t packet (ucast len); Some (t1, packet + 1) }
      else
        do { t1 \<leftarrow> aset t packet 252; t2 \<leftarrow> int2store t1 (packet + 1) (ucast len);
             Some (t2, packet + 1 + 2) })"

section \<open>The packet buffer\<close>

text \<open>\<open>str_ptr\<close> is the block behind \<open>Ptr\<close>.\<close>

record sql_string =
  str_ptr :: "u8 list"
  str_length :: nat
  str_alloced_length :: nat
  str_alloced :: bool

definition memcpy_to :: "u8 list \<Rightarrow> nat \<Rightarrow> u8 list \<Rightarrow> nat \<Rightarrow> u8 list option" where
  "memcpy_to dst p src n = (if n \<le> length src then store_bytes dst p (take n src) else None)"

definition align_size :: "nat \<Rightarrow> nat" where
  "align_size a = (a + 7) div 8 * 8"

definition String_realloc ::
  "bool \<Rightarrow> (nat \<Rightarrow> u8) \<Rightarrow> sql_string \<Rightarrow> nat \<Rightarrow> (sql_string \<times> bool) option" where
  "String_realloc ok junk s alloc_length =
     (let len = uint_wrap (align_size (uint_wrap (alloc_length + 1))) in
      do { dbug_assert (alloc_length < len);
           if str_alloced_length s < len then
             if str_alloced s then
               case realloc_slots ok junk (str_ptr s) len of
                 None \<Rightarrow> Some (s, True)
               | Some new_ptr \<Rightarrow>
                   do { p \<leftarrow> aset new_ptr alloc_length 0;
                        Some (s\<lparr>str_ptr := p, str_alloced_length := len\<rparr>, False) }
             else
               case malloc_slots ok junk len of
                 None \<Rightarrow> Some (s, True)
               | Some new_ptr \<Rightarrow>
                   (let sl = (if str_length s > len - 1 then 0 else str_length s) in
                    do { p1 \<leftarrow> memcpy_to new_ptr 0 (str_ptr s) sl;
                         p2 \<leftarrow> aset p1 sl 0;
                         p \<leftarrow> aset p2 alloc_length 0;
                         Some (s\<lparr>str_ptr := p, str_length := sl, str_alloced_length := len,
                                 str_alloced := True\<rparr>, False) })
           else do { p \<leftarrow> aset (str_ptr s) alloc_length 0; Some (s\<lparr>str_ptr := p\<rparr>, False) } })"

definition String_append ::
  "bool \<Rightarrow> (nat \<Rightarrow> u8) \<Rightarrow> sql_string \<Rightarrow> u8 list \<Rightarrow> nat \<Rightarrow> nat \<Rightarrow> (sql_string \<times> bool) option" where
  "String_append ok junk str s arg_length step_alloc =
     (let new_length = uint_wrap (arg_length + str_length str) in
      do { (str1, err) \<leftarrow>
             (if new_length > str_alloced_length str
              then String_realloc ok junk str (uint_wrap (new_length + step_alloc))
              else Some (str, False));
           if err then Some (str1, True)
           else
             do { p \<leftarrow> memcpy_to (str_ptr str1) (str_length str1) s arg_length;
                  Some (str1\<lparr>str_ptr := p, str_length := uint_wrap (str_length str1 + arg_length)\<rparr>,
                        False) } })"

definition PACKET_BUFFER_EXTRA_ALLOC :: nat where
  "PACKET_BUFFER_EXTRA_ALLOC = 1024"

definition Protocol_net_store_data ::
  "bool \<Rightarrow> (nat \<Rightarrow> u8) \<Rightarrow> sql_string \<Rightarrow> u8 list \<Rightarrow> nat \<Rightarrow> (sql_string \<times> bool) option" where
  "Protocol_net_store_data ok junk packet from len =
     (let packet_length = str_length packet in
      do { (packet1, err) \<leftarrow>
             (if packet_length + 9 + len > str_alloced_length packet
              then String_realloc ok junk packet (uint_wrap (packet_length + 9 + len))
              else Some (packet, False));
           if err then Some (packet1, True)
           else
             do { (t1, to) \<leftarrow> net_store_length (str_ptr packet1) packet_length (word_of_nat len);
                  t2 \<leftarrow> memcpy_to t1 to from len;
                  Some (packet1\<lparr>str_ptr := t2, str_length := uint_wrap (to + len)\<rparr>, False) } })"

definition Protocol_text_store_null ::
  "bool \<Rightarrow> (nat \<Rightarrow> u8) \<Rightarrow> sql_string \<Rightarrow> (sql_string \<times> bool) option" where
  "Protocol_text_store_null ok junk packet =
     String_append ok junk packet [251] 1 PACKET_BUFFER_EXTRA_ALLOC"

definition net_store_data :: "u8 list \<Rightarrow> nat \<Rightarrow> u8 list \<Rightarrow> nat \<Rightarrow> (u8 list \<times> nat) option" where
  "net_store_data t to from len =
     do { (t1, to1) \<leftarrow> net_store_length_fast t to (word_of_nat len);
          t2 \<leftarrow> memcpy_to t1 to1 from len;
          Some (t2, to1 + len) }"

section \<open>Reading rows\<close>

text \<open>
  The results of \<open>read_one_row\<close>: -1, 1 (with the warning count and server status when the
  packet carries them) and 0 (with the field pointers, the end of the last field, the lengths
  and the buffer with the terminators written into it).
\<close>

datatype row_result =
    Row_error
  | Row_eof "(16 word \<times> 16 word) option"
  | Row "nat option list" nat "nat list" "u8 list"

fun read_fields ::
  "nat \<Rightarrow> nat \<Rightarrow> u8 list \<Rightarrow> nat \<Rightarrow> nat option \<Rightarrow> nat option list \<Rightarrow> nat list \<Rightarrow> row_result option" where
  "read_fields 0 end_pos buf pos prev_pos row lengths =
     do { p \<leftarrow> prev_pos; buf1 \<leftarrow> aset buf p 0; Some (Row row (p + 1) lengths buf1) }"
| "read_fields (Suc n) end_pos buf pos prev_pos row lengths =
     do { (len, pos1) \<leftarrow> net_field_length buf pos;
          if len = NULL_LENGTH then
            do { buf1 \<leftarrow> (case prev_pos of None \<Rightarrow> Some buf | Some p \<Rightarrow> aset buf p 0);
                 read_fields n end_pos buf1 pos1 (Some pos1) (row @ [None]) (lengths @ [0]) }
          else if word_of_int (int end_pos - int pos1) < len then Some Row_error
          else
            do { buf1 \<leftarrow> (case prev_pos of None \<Rightarrow> Some buf | Some p \<Rightarrow> aset buf p 0);
                 read_fields n end_pos buf1 (pos1 + unat len) (Some (pos1 + unat len))
                   (row @ [Some pos1]) (lengths @ [unat len]) } }"

definition read_one_row :: "(u8 list \<times> nat) option \<Rightarrow> nat \<Rightarrow> row_result option" where
  "read_one_row pkt field_count =
     (case pkt of
        None \<Rightarrow> Some Row_error
      | Some (read_pos, pkt_len) \<Rightarrow>
          do { eof \<leftarrow> (if pkt_len \<le> 8 then do { b \<leftarrow> aget read_pos 0; Some (b = 254) } else Some False);
               if eof then
                 if pkt_len > 1 then
                   do { w \<leftarrow> uint2korr read_pos 1; s \<leftarrow> uint2korr read_pos 3;
                        Some (Row_eof (Some (w, s))) }
                 else Some (Row_eof None)
               else read_fields field_count pkt_len read_pos 0 None [] [] })"

section \<open>The encoding\<close>

definition enc_length :: "nat \<Rightarrow> u8 list" where
  "enc_length n =
     (if n < 251 then [word_of_nat n]
      else if n < 65536 then 252 # le_bytes 2 n
      else if n < 16777216 then 253 # le_bytes 3 n
      else 254 # le_bytes 8 n)"

primrec enc_field :: "u8 list option \<Rightarrow> u8 list" where
  "enc_field None = [251]"
| "enc_field (Some d) = enc_length (length d) @ d"

definition enc_row :: "u8 list option list \<Rightarrow> u8 list" where
  "enc_row fs = concat (map enc_field fs)"

lemma enc_length_bounds: "1 \<le> length (enc_length n)" "length (enc_length n) \<le> 9"
  by (simp_all add: enc_length_def)

lemma store_bytes_Cons: "store_bytes t p (b # bs) = do { t' \<leftarrow> aset t p b; store_bytes t' (p + 1) bs }"
  by simp

lemma word_of_nat_less_bounds:
  assumes "n < 2 ^ 64"
  shows "(word_of_nat n :: u64) < 251 \<longleftrightarrow> n < 251"
    and "(word_of_nat n :: u64) < 65536 \<longleftrightarrow> n < 65536"
    and "(word_of_nat n :: u64) < 16777216 \<longleftrightarrow> n < 16777216"
  using assms by (simp_all add: word_less_nat_alt unsigned_of_nat take_bit_nat_eq_self)

lemma net_store_length_eq:
  assumes "n < 2 ^ 64"
  shows "net_store_length t p (word_of_nat n) =
    map_option (\<lambda>t'. (t', p + length (enc_length n))) (store_bytes t p (enc_length n))"
proof -
  have u: "unat (word_of_nat n :: u64) = n"
    using assms by (simp add: unsigned_of_nat take_bit_nat_eq_self)
  have b: "(ucast (word_of_nat n :: u64) :: u8) = word_of_nat n"
    by (rule unsigned_word_eqI [where ?'a = nat])
      (simp add: unsigned_ucast_eq unsigned_of_nat)
  have m: "map_option f x = do { t' \<leftarrow> x; Some (f t') }" for f :: "u8 list \<Rightarrow> u8 list \<times> nat" and x
    by (cases x) auto
  show ?thesis
    using assms
    by (simp add: net_store_length_def enc_length_def word_of_nat_less_bounds [OF assms]
        intstore_eq int8store_eq u b m, simp add: numeral_3_eq_3 add.commute)
qed

lemma korr_at:
  "length bs = 2 \<Longrightarrow> uint2korr (pre @ b # bs @ post) (length pre + 1) = Some (word_of_nat (le_val bs))"
  "length bs = 3 \<Longrightarrow> uint3korr (pre @ b # bs @ post) (length pre + 1) = Some (word_of_nat (le_val bs))"
  "length bs = 4 \<Longrightarrow> uint4korr (pre @ b # bs @ post) (length pre + 1) = Some (word_of_nat (le_val bs))"
  "length bs = 8 \<Longrightarrow> uint8korr (pre @ b # bs @ post) (length pre + 1) = Some (word_of_nat (le_val bs))"
  by (simp_all add: uintkorr_eq uint_wide_korr_eq)

lemma le_bytes_8_split: "le_bytes 8 n = le_bytes 4 n @ le_bytes 4 (n div 2 ^ 32)"
  by (simp add: le_bytes_map upt_conv_Cons div_mult2_eq [symmetric])

lemma net_field_length_enc:
  assumes "n < 2 ^ 32"
  shows "net_field_length (pre @ enc_length n @ post) (length pre) =
    Some (word_of_nat n, length pre + length (enc_length n))"
proof -
  have "(word_of_nat n :: u8) < 251" "ucast (word_of_nat n :: u8) = (word_of_nat n :: u64)" if "n < 251"
    using that by (simp_all add: word_less_nat_alt unsigned_of_nat take_bit_nat_eq_self ucast_word_of_nat)
  moreover have "uint4korr (pre @ 254 # le_bytes 8 n @ post) (length pre + 1) = Some (word_of_nat n)"
    using korr_at(3) [of "le_bytes 4 n" pre 254 "le_bytes 4 (n div 2 ^ 32) @ post"] assms
    by (simp add: le_bytes_8_split le_val_le_bytes)
  ultimately show ?thesis
    using assms
    by (auto simp: net_field_length_def enc_length_def korr_at [simplified] le_val_le_bytes
        ucast_word_of_nat)
qed

lemma net_field_length_ll_enc:
  assumes "n < 2 ^ 64"
  shows "net_field_length_ll (pre @ enc_length n @ post) (length pre) =
    Some (word_of_nat n, length pre + length (enc_length n))"
proof -
  have "(word_of_nat n :: u8) < 251" "ucast (word_of_nat n :: u8) = (word_of_nat n :: u64)" if "n < 251"
    using that by (simp_all add: word_less_nat_alt unsigned_of_nat take_bit_nat_eq_self ucast_word_of_nat)
  then show ?thesis
    using assms
    by (auto simp: net_field_length_ll_def enc_length_def korr_at [simplified] le_val_le_bytes
        ucast_word_of_nat)
qed

section \<open>Reading an encoded row\<close>

text \<open>
  A field pointer and a length present a field value: a null pointer for NULL, otherwise the
  bytes of the value followed by a terminating zero byte.
\<close>

definition field_at :: "u8 list \<Rightarrow> u8 list option \<Rightarrow> nat option \<Rightarrow> nat \<Rightarrow> bool" where
  "field_at buf f r l =
     (case f of
        None \<Rightarrow> r = None \<and> l = 0
      | Some d \<Rightarrow>
          (case r of
             None \<Rightarrow> False
           | Some p \<Rightarrow> l = length d \<and> p + l < length buf \<and> take l (drop p buf) = d \<and> buf ! (p + l) = 0))"

definition field_size :: "u8 list option \<Rightarrow> nat" where
  "field_size f = (case f of None \<Rightarrow> 0 | Some d \<Rightarrow> length d)"

lemma enc_row_simps [simp]: "enc_row [] = []" "enc_row (f # fs) = enc_field f @ enc_row fs"
  by (simp_all add: enc_row_def)

lemma enc_field_ne: "enc_field f \<noteq> []"
  using enc_length_bounds by (cases f) (auto simp: enc_length_def)

lemma word_of_nat_ne_NULL: "n < 2 ^ 32 \<Longrightarrow> word_of_nat n \<noteq> NULL_LENGTH"
proof
  assume n: "n < 2 ^ 32" and eq: "word_of_nat n = NULL_LENGTH"
  have "(word_of_nat (Suc n) :: u64) = 0" using eq by (simp add: NULL_LENGTH_def)
  then have "2 ^ LENGTH(64) dvd Suc n" unfolding word_of_nat_eq_0_iff .
  then have "2 ^ LENGTH(64) \<le> Suc n" by (rule dvd_imp_le) simp
  then show False using n by simp
qed

lemma unat_word64: "m < 2 ^ 64 \<Longrightarrow> unat (word_of_nat m :: u64) = m"
  by (simp add: unsigned_of_nat take_bit_nat_eq_self)

lemma room_check:
  assumes "n < 2 ^ 32" "pos + n \<le> end_pos" "end_pos < 2 ^ 64"
  shows "\<not> word_of_int (int end_pos - int pos) < (word_of_nat n :: u64)"
proof -
  have "int end_pos - int pos = int (end_pos - pos)" using assms by simp
  then have "word_of_int (int end_pos - int pos) = (word_of_nat (end_pos - pos) :: u64)"
    by (simp only: of_int_of_nat_eq)
  moreover have "unat (word_of_nat (end_pos - pos) :: u64) = end_pos - pos" "unat (word_of_nat n :: u64) = n"
    using assms by (intro unat_word64; simp)+
  ultimately show ?thesis using assms by (simp only: word_less_nat_alt)
qed

text \<open>One step of the loop: where the next field starts, and the buffer after the terminator of
  the previous field has replaced the first byte of the header.\<close>

lemma read_fields_step:
  assumes f: "field_size f < 2 ^ 32" and end_pos: "length pre + length (enc_field f) \<le> end_pos" "end_pos < 2 ^ 64"
    and prev: "prev = None \<or> prev = Some (length pre)"
  obtains hdr d r where
    "length (hdr @ d) = length (enc_field f)" "hdr \<noteq> []" "prev \<noteq> None \<Longrightarrow> hdr ! 0 = 0"
    "d = (case f of None \<Rightarrow> [] | Some d \<Rightarrow> d)"
    "r = (case f of None \<Rightarrow> None | Some d \<Rightarrow> Some (length pre + length hdr))"
    "read_fields (Suc n) end_pos (pre @ enc_field f @ post) (length pre) prev row lens =
       read_fields n end_pos (pre @ (hdr @ d) @ post) (length pre + length (hdr @ d))
         (Some (length pre + length (hdr @ d))) (row @ [r]) (lens @ [length d])"
proof (cases f)
  case None
  let ?h = "if prev = None then [251] else [0 :: u8]"
  show ?thesis
    by (rule that [of ?h "[]" None]) (use prev None in \<open>auto simp: net_field_length_def NULL_LENGTH_def\<close>)
next
  case (Some d)
  let ?n = "length d" and ?p = "length pre"
  let ?e = "enc_length ?n"
  let ?h = "if prev = None then ?e else 0 # tl ?e"
  have n: "?n < 2 ^ 32" using f Some by (simp add: field_size_def)
  have e: "?e \<noteq> []" using enc_length_bounds [of ?n] by (cases ?e) auto
  have len: "unat (word_of_nat ?n :: u64) = ?n"
    using n by (simp add: unsigned_of_nat take_bit_nat_eq_self)
  have hdr: "net_field_length (pre @ ?e @ d @ post) ?p = Some (word_of_nat ?n, ?p + length ?e)"
    using net_field_length_enc [OF n] by blast
  have room: "\<not> word_of_int (int end_pos - int (?p + length ?e)) < (word_of_nat ?n :: u64)"
    using end_pos Some by (intro room_check [OF n]) simp_all
  show ?thesis
  proof (rule that [of ?h d "Some (?p + length ?h)"])
    show "length (?h @ d) = length (enc_field f)" using e Some by (cases ?e) auto
    show "read_fields (Suc n) end_pos (pre @ enc_field f @ post) ?p prev row lens =
       read_fields n end_pos (pre @ (?h @ d) @ post) (?p + length (?h @ d))
         (Some (?p + length (?h @ d))) (row @ [Some (?p + length ?h)]) (lens @ [length d])"
      using prev Some hdr room word_of_nat_ne_NULL [OF n] e len
      by (cases ?e) (auto simp: add.assoc)
  qed (use e Some in auto)
qed

lemma read_fields_ok:
  assumes "\<forall>f\<in>set fs. field_size f < 2 ^ 32" "end_pos = length pre + length (enc_row fs)" "end_pos < 2 ^ 64"
    and "prev = None \<or> prev = Some (length pre)" "fs = [] \<longrightarrow> prev \<noteq> None"
  shows "\<exists>row' lens' e buf'.
    read_fields (length fs) end_pos (pre @ enc_row fs @ [x]) (length pre) prev row lens =
      Some (Row (row @ row') e (lens @ lens') buf') \<and>
    length buf' = Suc end_pos \<and> take (length pre) buf' = pre \<and>
    (prev \<noteq> None \<longrightarrow> buf' ! length pre = 0) \<and> length lens' = length fs \<and>
    list_all2 (\<lambda>f (r, l). field_at buf' f r l) fs (zip row' lens')"
  using assms
proof (induction fs arbitrary: pre prev row lens)
  case Nil
  then show ?case by (intro exI [of _ "[]"]) auto
next
  case (Cons f fs)
  obtain hdr d r where h:
    "length (hdr @ d) = length (enc_field f)" "hdr \<noteq> []" "prev \<noteq> None \<Longrightarrow> hdr ! 0 = 0"
    "d = (case f of None \<Rightarrow> [] | Some d \<Rightarrow> d)"
    "r = (case f of None \<Rightarrow> None | Some d \<Rightarrow> Some (length pre + length hdr))"
    "read_fields (Suc (length fs)) end_pos (pre @ enc_field f @ enc_row fs @ [x]) (length pre) prev row lens =
       read_fields (length fs) end_pos (pre @ (hdr @ d) @ enc_row fs @ [x]) (length pre + length (hdr @ d))
         (Some (length pre + length (hdr @ d))) (row @ [r]) (lens @ [length d])"
    by (rule read_fields_step [of f pre end_pos prev "length fs" "enc_row fs @ [x]" row lens])
      (use Cons.prems in auto)
  let ?pre = "pre @ hdr @ d"
  have pre: "end_pos = length ?pre + length (enc_row fs)" using Cons.prems h(1) by simp
  have small: "\<forall>f\<in>set fs. field_size f < 2 ^ 32" using Cons.prems(1) by simp
  obtain row' lens' e buf' where IH:
    "read_fields (length fs) end_pos (?pre @ enc_row fs @ [x]) (length ?pre) (Some (length ?pre))
       (row @ [r]) (lens @ [length d]) = Some (Row ((row @ [r]) @ row') e ((lens @ [length d]) @ lens') buf')"
    "length buf' = Suc end_pos" "take (length ?pre) buf' = ?pre" "Some (length ?pre) \<noteq> None \<longrightarrow> buf' ! length ?pre = 0"
    "length lens' = length fs" "list_all2 (\<lambda>f (r, l). field_at buf' f r l) fs (zip row' lens')"
    using Cons.IH [OF small pre Cons.prems(3), of "Some (length ?pre)" "row @ [r]" "lens @ [length d]"]
    by blast
  have buf': "buf' = ?pre @ drop (length ?pre) buf'" using IH(3) append_take_drop_id by metis
  have "take (length pre) buf' = pre" by (subst buf') simp
  moreover have "buf' ! length pre = hdr ! 0" by (subst buf') (use h(2) in \<open>simp add: nth_append\<close>)
  moreover have "field_at buf' f r (length d)"
  proof (cases f)
    case (Some d')
    have "take (length d) (drop (length pre + length hdr) buf') = d" by (subst buf') simp
    moreover have "length ?pre < length buf'" using IH(2) Cons.prems h(1) by simp
    ultimately show ?thesis using Some h(4,5) IH(4) by (simp add: field_at_def add.assoc)
  qed (use h in \<open>simp add: field_at_def\<close>)
  ultimately show ?case using IH h
    by (intro exI [of _ "r # row'"] exI [of _ "length d # lens'"] exI [of _ e] exI [of _ buf']) auto
qed

lemma enc_row_not_eof:
  assumes "fs \<noteq> []" "enc_row fs ! 0 = 254"
  shows "8 < length (enc_row fs)"
proof -
  obtain f gs where fs: "fs = f # gs" using assms(1) by (cases fs) auto
  then obtain d where d: "f = Some d" using assms(2) by (cases f) auto
  have "\<not> length d < 251"
  proof
    assume "length d < 251"
    then have "word_of_nat (length d) = (254 :: u8)" using assms(2) fs d by (simp add: enc_length_def)
    then have "unat (word_of_nat (length d) :: u8) = 254" by simp
    then show False using \<open>length d < 251\<close> by (simp add: unsigned_of_nat take_bit_nat_eq_self)
  qed
  then show ?thesis using fs d by (simp add: enc_length_def)
qed

section \<open>Writing a row\<close>

text \<open>The fields of a row are sent one after the other; the first error ends the row.\<close>

fun store_row :: "bool \<Rightarrow> (nat \<Rightarrow> u8) \<Rightarrow> u8 list option list \<Rightarrow> sql_string \<Rightarrow> (sql_string \<times> bool) option" where
  "store_row ok junk [] s = Some (s, False)"
| "store_row ok junk (f # fs) s =
     do { (s1, err) \<leftarrow>
            (case f of
               None \<Rightarrow> Protocol_text_store_null ok junk s
             | Some d \<Rightarrow> Protocol_net_store_data ok junk s d (length d));
          if err then Some (s1, True) else store_row ok junk fs s1 }"

definition string_wf :: "sql_string \<Rightarrow> bool" where
  "string_wf s \<longleftrightarrow> str_alloced_length s \<le> length (str_ptr s) \<and> str_length s \<le> length (str_ptr s)"

definition string_val :: "sql_string \<Rightarrow> u8 list" where
  "string_val s = take (str_length s) (str_ptr s)"

lemma align_size_bounds: "a \<le> align_size a" "align_size a < a + 8"
  unfolding align_size_def by presburger+

lemma memcpy_to_eq:
  "n \<le> length src \<Longrightarrow> p + n \<le> length dst \<Longrightarrow>
     memcpy_to dst p src n = Some (take p dst @ take n src @ drop (p + n) dst)"
  using store_bytes_eq [of p "take n src" dst] by (simp add: memcpy_to_def)

lemma take_realloc_slots:
  assumes "realloc_slots ok junk old n = Some xs" "m \<le> n" "m \<le> length old"
  shows "take m xs = take m old"
  using assms length_realloc_slots [OF assms(1)] nth_realloc_slots [OF assms(1)]
  by (intro nth_equalityI) auto

lemma String_realloc_ok:
  assumes wf: "string_wf s" and n: "str_length s \<le> n" "n + 9 < 2 ^ 32"
  shows "\<exists>s' err. String_realloc ok junk s n = Some (s', err) \<and> string_wf s' \<and>
    string_val s' = string_val s \<and> str_length s' = str_length s \<and> (ok \<longrightarrow> \<not> err) \<and>
    (\<not> err \<longrightarrow> n < length (str_ptr s'))"
proof -
  let ?len = "align_size (n + 1)"
  have len: "n < ?len" "?len < 2 ^ 32" using align_size_bounds [of "n + 1"] n by auto
  have wrap: "uint_wrap (align_size (uint_wrap (n + 1))) = ?len"
    using len n by (simp add: uint_wrap_def)
  show ?thesis
  proof (cases "str_alloced_length s < ?len \<and> ok")
    case True
    obtain xs where xs: "realloc_slots ok junk (str_ptr s) ?len = Some xs"
      using True by (auto simp: realloc_slots_def)
    obtain ys where ys: "malloc_slots ok junk ?len = Some ys" "length ys = ?len"
      using True by (auto simp: malloc_slots_def)
    have lx: "length xs = ?len" using length_realloc_slots [OF xs] .
    have tx: "take (str_length s) xs = take (str_length s) (str_ptr s)"
      using take_realloc_slots [OF xs] n len wf by (simp add: string_wf_def)
    have "\<not> ?len - 1 < str_length s" using len n by simp
    then show ?thesis
      unfolding String_realloc_def wrap Let_def
      using True len n wf lx tx ys xs memcpy_to_eq [of "str_length s" "str_ptr s" 0 ys]
      by (cases "str_alloced s") (auto simp: string_wf_def string_val_def)
  next
    case False
    then show ?thesis
      unfolding String_realloc_def wrap Let_def
      using len n wf by (auto simp: string_wf_def string_val_def realloc_slots_def malloc_slots_def)
  qed
qed

lemma grow_ok:
  assumes wf: "string_wf s" and n: "str_length s \<le> need" "need \<le> n" "n + 9 < 2 ^ 32"
  obtains s1 err where
    "(if need > str_alloced_length s then String_realloc ok junk s n else Some (s, False)) = Some (s1, err)"
    "string_wf s1" "string_val s1 = string_val s" "str_length s1 = str_length s" "ok \<longrightarrow> \<not> err"
    "\<not> err \<longrightarrow> need \<le> length (str_ptr s1)"
proof (cases "need > str_alloced_length s")
  case True
  obtain s1 err where "String_realloc ok junk s n = Some (s1, err)" "string_wf s1"
    "string_val s1 = string_val s" "str_length s1 = str_length s" "ok \<longrightarrow> \<not> err"
    "\<not> err \<longrightarrow> n < length (str_ptr s1)"
    using String_realloc_ok [OF wf, of n ok junk] n by auto
  then show ?thesis using True n by (intro that [of s1 err]) auto
next
  case False
  then show ?thesis using that [of s False] wf by (simp add: string_wf_def)
qed

lemma store_data_ok:
  assumes wf: "string_wf s" and n: "str_length s + length d + 18 < 2 ^ 32"
  shows "\<exists>s' err. Protocol_net_store_data ok junk s d (length d) = Some (s', err) \<and> string_wf s' \<and>
    (ok \<longrightarrow> \<not> err) \<and> string_val s' = string_val s @ (if err then [] else enc_field (Some d)) \<and>
    str_length s' = str_length s + (if err then 0 else length (enc_field (Some d)))"
proof -
  let ?n = "str_length s + 9 + length d"
  define grow where "grow = (if ?n > str_alloced_length s then String_realloc ok junk s (uint_wrap ?n)
    else Some (s, False))"
  have wrap: "uint_wrap ?n = ?n" using n by (simp add: uint_wrap_def)
  have n1: "str_length s \<le> ?n" "?n \<le> ?n" "?n + 9 < 2 ^ 32" using n by simp_all
  obtain s1 err where s1: "grow = Some (s1, err)" "string_wf s1" "string_val s1 = string_val s"
    "str_length s1 = str_length s" "ok \<longrightarrow> \<not> err" "\<not> err \<longrightarrow> ?n \<le> length (str_ptr s1)"
    using grow_ok [OF wf n1, of ok junk] unfolding grow_def wrap by blast
  have eq: "Protocol_net_store_data ok junk s d (length d) =
    do { (packet1, err) \<leftarrow> grow;
         if err then Some (packet1, True)
         else
           do { (t1, to) \<leftarrow> net_store_length (str_ptr packet1) (str_length s) (word_of_nat (length d));
                t2 \<leftarrow> memcpy_to t1 to d (length d);
                Some (packet1\<lparr>str_ptr := t2, str_length := uint_wrap (to + length d)\<rparr>, False) } }"
    by (simp only: Protocol_net_store_data_def Let_def grow_def)
  show ?thesis
  proof (cases err)
    case True
    then show ?thesis unfolding eq using s1 by auto
  next
    case False
    let ?e = "enc_length (length d)" and ?p = "str_length s" and ?t = "str_ptr s1"
    have e: "length ?e \<le> 9" and len: "?n \<le> length ?t"
      using enc_length_bounds False s1(6) by auto
    let ?q = "?p + length ?e"
    let ?r = "take ?p ?t @ ?e @ d @ drop (?q + length d) ?t"
    have st: "net_store_length ?t ?p (word_of_nat (length d)) =
        Some (take ?p ?t @ ?e @ drop ?q ?t, ?q)"
      using e len n by (simp add: net_store_length_eq store_bytes_eq)
    have cp: "memcpy_to (take ?p ?t @ ?e @ drop ?q ?t) ?q d (length d) = Some ?r"
      using e len by (subst memcpy_to_eq) (simp_all add: ac_simps)
    have wr: "uint_wrap (?q + length d) = ?q + length d"
      using e n by (simp add: uint_wrap_def)
    have res: "Protocol_net_store_data ok junk s d (length d) =
        Some (s1\<lparr>str_ptr := ?r, str_length := ?q + length d\<rparr>, False)"
      by (simp only: eq s1(1) False st cp wr bind.bind_lunit prod.case if_False)
    let ?s = "s1\<lparr>str_ptr := ?r, str_length := ?q + length d\<rparr>"
    have v: "take ?p ?t = string_val s" using s1(3,4) by (simp add: string_val_def)
    have "string_val ?s = string_val s @ ?e @ d"
      unfolding v [symmetric] using e len by (simp add: string_val_def)
    moreover have "string_wf ?s" using s1(2) e len by (simp add: string_wf_def)
    ultimately show ?thesis
      unfolding res by (intro exI [of _ ?s] exI [of _ False]) simp
  qed
qed

lemma store_null_ok:
  assumes wf: "string_wf s" and n: "str_length s + 1034 < 2 ^ 32"
  shows "\<exists>s' err. Protocol_text_store_null ok junk s = Some (s', err) \<and> string_wf s' \<and>
    (ok \<longrightarrow> \<not> err) \<and> string_val s' = string_val s @ (if err then [] else enc_field None) \<and>
    str_length s' = str_length s + (if err then 0 else length (enc_field None))"
proof -
  let ?n = "1 + str_length s"
  define grow where "grow = (if ?n > str_alloced_length s
    then String_realloc ok junk s (uint_wrap (?n + PACKET_BUFFER_EXTRA_ALLOC)) else Some (s, False))"
  have wrap: "uint_wrap ?n = ?n" "uint_wrap (?n + PACKET_BUFFER_EXTRA_ALLOC) = ?n + PACKET_BUFFER_EXTRA_ALLOC"
    "uint_wrap (str_length s + 1) = str_length s + 1"
    using n by (simp_all add: uint_wrap_def PACKET_BUFFER_EXTRA_ALLOC_def)
  have n1: "str_length s \<le> ?n" "?n \<le> ?n + PACKET_BUFFER_EXTRA_ALLOC"
    "?n + PACKET_BUFFER_EXTRA_ALLOC + 9 < 2 ^ 32"
    using n by (simp_all add: PACKET_BUFFER_EXTRA_ALLOC_def)
  obtain s1 err where s1: "grow = Some (s1, err)" "string_wf s1" "string_val s1 = string_val s"
    "str_length s1 = str_length s" "ok \<longrightarrow> \<not> err" "\<not> err \<longrightarrow> ?n \<le> length (str_ptr s1)"
    using grow_ok [OF wf n1, of ok junk] unfolding grow_def wrap by blast
  have eq: "Protocol_text_store_null ok junk s =
    do { (str1, err) \<leftarrow> grow;
         if err then Some (str1, True)
         else do { p \<leftarrow> memcpy_to (str_ptr str1) (str_length str1) [251] 1;
                   Some (str1\<lparr>str_ptr := p, str_length := uint_wrap (str_length str1 + 1)\<rparr>, False) } }"
    by (simp only: Protocol_text_store_null_def String_append_def Let_def grow_def wrap)
  show ?thesis
  proof (cases err)
    case True
    then show ?thesis unfolding eq using s1 by auto
  next
    case False
    let ?p = "str_length s" and ?t = "str_ptr s1"
    let ?r = "take ?p ?t @ [251] @ drop (?p + 1) ?t"
    let ?s = "s1\<lparr>str_ptr := ?r, str_length := ?p + 1\<rparr>"
    have len: "?n \<le> length ?t" using s1(6) False by simp
    have cp: "memcpy_to ?t ?p [251] 1 = Some ?r"
      using len memcpy_to_eq [of 1 "[251]" ?p ?t] by simp
    have res: "Protocol_text_store_null ok junk s = Some (?s, False)"
      by (simp only: eq s1(1,4) False cp wrap bind.bind_lunit prod.case if_False)
    have v: "take ?p ?t = string_val s" using s1(3,4) by (simp add: string_val_def)
    have "string_val ?s = string_val s @ [251]"
      unfolding v [symmetric] using len by (simp add: string_val_def)
    moreover have "string_wf ?s" using s1(2) len by (auto simp: string_wf_def)
    ultimately show ?thesis
      unfolding res by (intro exI [of _ ?s] exI [of _ False]) simp
  qed
qed

lemma length_enc_field: "length (enc_field f) \<le> field_size f + 9"
  using enc_length_bounds(2) by (cases f) (simp_all add: field_size_def)

lemma store_row_ok:
  assumes "string_wf s" "str_length s + length (enc_row fs) + 1034 < 2 ^ 32"
  shows "\<exists>s' err. store_row ok junk fs s = Some (s', err) \<and> string_wf s' \<and> (ok \<longrightarrow> \<not> err) \<and>
    (\<not> err \<longrightarrow> string_val s' = string_val s @ enc_row fs)"
  using assms
proof (induction fs arbitrary: s)
  case (Cons f fs)
  have n: "str_length s + 1034 < 2 ^ 32" using Cons.prems by simp
  have "\<exists>s' err. (case f of None \<Rightarrow> Protocol_text_store_null ok junk s
      | Some d \<Rightarrow> Protocol_net_store_data ok junk s d (length d)) = Some (s', err) \<and> string_wf s' \<and>
    (ok \<longrightarrow> \<not> err) \<and> string_val s' = string_val s @ (if err then [] else enc_field f) \<and>
    str_length s' = str_length s + (if err then 0 else length (enc_field f))"
  proof (cases f)
    case None
    show ?thesis
      using store_null_ok [OF Cons.prems(1) n, of ok junk] by (simp only: None option.case)
  next
    case (Some d)
    then have "str_length s + length d + 18 < 2 ^ 32" using Cons.prems by simp
    from store_data_ok [OF Cons.prems(1) this, of ok junk] show ?thesis by (simp only: Some option.case)
  qed
  then obtain s1 err where s1: "(case f of None \<Rightarrow> Protocol_text_store_null ok junk s
      | Some d \<Rightarrow> Protocol_net_store_data ok junk s d (length d)) = Some (s1, err)" "string_wf s1"
    "ok \<longrightarrow> \<not> err" "string_val s1 = string_val s @ (if err then [] else enc_field f)"
    "str_length s1 = str_length s + (if err then 0 else length (enc_field f))" by blast
  show ?case
  proof (cases err)
    case True
    have "store_row ok junk (f # fs) s = Some (s1, True)"
      by (simp only: store_row.simps s1(1) True bind.bind_lunit prod.case if_True)
    then show ?thesis using s1(2,3) True by blast
  next
    case False
    have "store_row ok junk (f # fs) s = store_row ok junk fs s1"
      by (simp only: store_row.simps s1(1) False bind.bind_lunit prod.case if_False)
    then show ?thesis using Cons.IH [OF s1(2)] Cons.prems s1 False by simp
  qed
qed auto

lemma read_row_enc:
  assumes "fs \<noteq> []" "\<forall>f\<in>set fs. field_size f < 2 ^ 32" "length (enc_row fs) < 2 ^ 64"
  shows "\<exists>row e lens buf.
    read_one_row (Some (enc_row fs @ [x], length (enc_row fs))) (length fs) = Some (Row row e lens buf) \<and>
    length lens = length fs \<and> list_all2 (\<lambda>f (r, l). field_at buf f r l) fs (zip row lens)"
proof -
  have ne: "enc_row fs \<noteq> []" using assms(1) enc_field_ne by (cases fs) auto
  then have "read_one_row (Some (enc_row fs @ [x], length (enc_row fs))) (length fs) =
    read_fields (length fs) (length (enc_row fs)) ([] @ enc_row fs @ [x]) (length []) None [] []"
    using enc_row_not_eof [OF assms(1)] by (auto simp: read_one_row_def nth_append)
  moreover have "length (enc_row fs) = length [] + length (enc_row fs)" by simp
  ultimately show ?thesis
    using read_fields_ok [OF assms(2) _ assms(3), of "[]" None x "[]" "[]"] assms(1) by auto
qed

section \<open>Properties\<close>

text \<open>A text row that holds any fields, NULL included, each of less than 4 GB, is read by
  \<open>read_one_row\<close> without leaving the buffer. Every field pointer leads to exactly the bytes of
  the field and a terminating zero, although the terminators are written over the headers, and
  the lengths are those of the fields.\<close>

text \<open>The fields a row has got so far lie inside the packet that ends at \<open>end_pos\<close>, or start behind it.\<close>

definition fields_inside :: "nat \<Rightarrow> nat option list \<Rightarrow> nat list \<Rightarrow> bool" where
  "fields_inside end_pos row lens \<longleftrightarrow> length row = length lens \<and>
     (\<forall>i<length lens. \<forall>p. row ! i = Some p \<longrightarrow> p + lens ! i \<le> end_pos \<or> end_pos < p)"

lemma fields_inside_snoc:
  assumes "fields_inside end_pos row lens" "\<And>p. r = Some p \<Longrightarrow> p + l \<le> end_pos \<or> end_pos < p"
  shows "fields_inside end_pos (row @ [r]) (lens @ [l])"
  using assms by (auto simp: fields_inside_def nth_append less_Suc_eq)

lemma length_check:
  assumes "\<not> word_of_int (int end_pos - int pos) < (len :: u64)" "end_pos < 2 ^ 64" "pos \<le> end_pos"
  shows "pos + unat len \<le> end_pos"
proof -
  have "(word_of_int (int end_pos - int pos) :: u64) = word_of_nat (end_pos - pos)"
    using assms(3) by (simp add: of_nat_diff)
  moreover have "unat (word_of_nat (end_pos - pos) :: u64) = end_pos - pos"
    using assms(2) by (simp add: unsigned_of_nat take_bit_nat_eq_self)
  ultimately show ?thesis using assms(1,3) by (simp add: word_less_nat_alt)
qed

lemma read_fields_inside:
  assumes "read_fields n end_pos buf pos prev row lens = Some (Row row' e lens' buf')" "end_pos < 2 ^ 64"
    and "fields_inside end_pos row lens"
  shows "fields_inside end_pos row' lens' \<and> length lens' = length lens + n"
  using assms(1,3)
proof (induction n arbitrary: buf pos prev row lens)
  case 0
  then show ?case by (auto simp: bind_eq_Some_conv)
next
  case (Suc n)
  from Suc.prems(1) obtain len pos1 where f: "net_field_length buf pos = Some (len, pos1)"
    by (auto simp: bind_eq_Some_conv)
  show ?case
  proof (cases "len = NULL_LENGTH")
    case True
    with Suc.prems(1) f obtain buf1 where
      "read_fields n end_pos buf1 pos1 (Some pos1) (row @ [None]) (lens @ [0]) = Some (Row row' e lens' buf')"
      by (auto simp: bind_eq_Some_conv)
    from Suc.IH [OF this fields_inside_snoc [OF Suc.prems(2)]] show ?thesis by simp
  next
    case False
    with Suc.prems(1) f have c: "\<not> word_of_int (int end_pos - int pos1) < len"
      by (auto simp: bind_eq_Some_conv split: if_splits)
    with Suc.prems(1) f False obtain buf1 where r:
      "read_fields n end_pos buf1 (pos1 + unat len) (Some (pos1 + unat len)) (row @ [Some pos1]) (lens @ [unat len]) =
        Some (Row row' e lens' buf')"
      by (auto simp: bind_eq_Some_conv)
    have "pos1 + unat len \<le> end_pos \<or> end_pos < pos1" using length_check [OF c assms(2)] by linarith
    then have "fields_inside end_pos (row @ [Some pos1]) (lens @ [unat len])"
      by (intro fields_inside_snoc [OF Suc.prems(2)]) simp
    from Suc.IH [OF r this] show ?thesis by simp
  qed
qed

lemma read_one_row_enc_row:
  assumes "fs \<noteq> []" "\<forall>f\<in>set fs. field_size f < 2 ^ 32" "length (enc_row fs) < 2 ^ 64"
  shows "\<exists>row e lens buf.
    read_one_row (Some (enc_row fs @ [x], length (enc_row fs))) (length fs) = Some (Row row e lens buf) \<and>
    length lens = length fs \<and> list_all2 (\<lambda>f (r, l). field_at buf f r l) fs (zip row lens)"
  using assms by (rule read_row_enc)

text \<open>C6: The server side writes rows that the client side reads back. When the fields of a row are
  stored into an empty packet and memory does not run out, the packet is stored without an
  error, and \<open>read_one_row\<close> applied to its bytes returns the very same fields.\<close>

theorem stored_row_is_read_back:
  assumes "string_wf s" "str_length s = 0" "fs \<noteq> []" "length (enc_row fs) + 1034 < 2 ^ 32"
  shows "\<exists>s' row e lens buf. store_row True junk fs s = Some (s', False) \<and>
    read_one_row (Some (string_val s' @ [x], length (string_val s'))) (length fs) =
      Some (Row row e lens buf) \<and>
    length lens = length fs \<and> list_all2 (\<lambda>f (r, l). field_at buf f r l) fs (zip row lens)"
proof -
  obtain s' where s': "store_row True junk fs s = Some (s', False)" "string_val s' = enc_row fs"
    using store_row_ok [of s fs True junk] assms by (auto simp: string_val_def)
  have "field_size f \<le> length (enc_row fs)" if "f \<in> set fs" for f
    using that by (induction fs) (auto simp: field_size_def split: option.splits)
  then have "\<forall>f\<in>set fs. field_size f < 2 ^ 32" using assms(4) by fastforce
  then show ?thesis using s' read_row_enc [OF assms(3)] assms(4) by auto
qed

text \<open>C32: For every 64 bit length, \<open>net_store_length\<close> writes between one and nine bytes and
  \<open>net_field_length_ll\<close> reads the length back and stops right behind it.\<close>

theorem net_length_roundtrip:
  assumes "p + 9 \<le> length t"
  shows "\<exists>t' q. net_store_length t p len = Some (t', q) \<and> p < q \<and> q \<le> p + 9 \<and> length t' = length t \<and>
    take p t' = take p t \<and> drop q t' = drop q t \<and> net_field_length_ll t' p = Some (len, q)"
proof -
  let ?e = "enc_length (unat len)"
  have lt: "unat len < 2 ^ 64" using unsigned_less [of len, where ?'a = nat] by simp
  have e: "1 \<le> length ?e" "length ?e \<le> 9" by (rule enc_length_bounds)+
  have "net_store_length t p len = Some (take p t @ ?e @ drop (p + length ?e) t, p + length ?e)"
    using net_store_length_eq [OF lt, of t p] store_bytes_eq [of p ?e t] e assms by simp
  moreover have "net_field_length_ll (take p t @ ?e @ drop (p + length ?e) t) p = Some (len, p + length ?e)"
    using net_field_length_ll_enc [OF lt, of "take p t" "drop (p + length ?e) t"] assms by simp
  ultimately show ?thesis using e assms by auto
qed

text \<open>C33: Whatever a packet contains, a field of the row that \<open>read_one_row\<close> returns lies inside the
  packet, unless its length header already ends behind the packet, the one case that the length check
  misses. There is an entry and a length for every field.\<close>

theorem row_fields_inside_packet:
  assumes "pkt_len < 2 ^ 64" "read_one_row (Some (buf, pkt_len)) field_count = Some (Row row e lens buf')"
  shows "length row = field_count \<and> length lens = field_count \<and>
    (\<forall>i p. i < field_count \<longrightarrow> row ! i = Some p \<longrightarrow> p + lens ! i \<le> pkt_len \<or> pkt_len < p)"
proof -
  have "read_fields field_count pkt_len buf 0 None [] [] = Some (Row row e lens buf')"
    using assms(2) by (auto simp: read_one_row_def bind_eq_Some_conv split: if_splits)
  from read_fields_inside [OF this assms(1)] show ?thesis by (simp add: fields_inside_def)
qed

theorem row_fields_inside_packet_witness:
  "read_one_row (Some ([2, 104, 105, 7], 3)) 1 = Some (Row [Some 1] 4 [2] [2, 104, 105, 0]) \<and>
   (1 + [2] ! 0 \<le> (3 :: nat) \<or> 3 < (1 :: nat))"
proof -
  have r: "read_one_row (Some ([2, 104, 105, 7], 3)) 1 = Some (Row [Some 1] 4 [2] [2, 104, 105, 0])"
    by (simp add: read_one_row_def net_field_length_def NULL_LENGTH_def)
  have "(3 :: nat) < 2 ^ 64" by simp
  from row_fields_inside_packet [OF this r] have "1 + [2] ! 0 \<le> (3 :: nat) \<or> 3 < (1 :: nat)"
    by (metis less_one nth_Cons_0)
  with r show ?thesis by blast
qed

text \<open>That case: for a packet of the single byte 253 any length in the three bytes behind the packet
  is accepted, and the field is reported to lie there.\<close>

lemma read_one_row_overrun:
  assumes "buf = [253, a, b, c] @ rest"
    and L: "L = unat a + 256 * unat b + 65536 * unat c" "L < length rest"
  shows "read_one_row (Some (buf, 1)) 1 = Some (Row [Some 4] (L + 5) [L] (buf[L + 4 := 0]))"
proof -
  have u: "unat a < 256" "unat b < 256" "unat c < 256"
    using unsigned_less [of a, where ?'a = nat] unsigned_less [of b, where ?'a = nat]
      unsigned_less [of c, where ?'a = nat] by simp_all
  then have lt: "L < 2 ^ 24" using L by simp
  have len: "uint3korr buf 1 = Some (word_of_nat L)"
    using assms(1) L(1) by (simp add: uint3korr_def push_bit_eq_mult mult.commute)
  have un: "unat (word_of_nat L :: u64) = L" using lt by (simp add: unsigned_of_nat take_bit_nat_eq_self)
  have "ucast (word_of_nat L :: u32) = (word_of_nat L :: u64)"
    using lt by (intro unsigned_word_eqI [where ?'a = nat])
      (simp add: unsigned_ucast_eq unsigned_of_nat take_bit_nat_eq_self)
  then have f: "net_field_length buf 0 = Some (word_of_nat L, 4)"
    using assms(1) len by (simp add: net_field_length_def)
  have "\<not> word_of_int (int 1 - int 4) < (word_of_nat L :: u64)"
    using lt by (simp add: word_less_nat_alt un)
  moreover have "(word_of_nat L :: u64) \<noteq> NULL_LENGTH" using lt by (intro word_of_nat_ne_NULL) simp
  ultimately show ?thesis
    using f assms(1) L(2) un by (simp add: read_one_row_def add.commute)
qed

section \<open>Witnesses\<close>

lemma read_one_row_enc_row_sample:
  "\<exists>row e lens buf.
    read_one_row (Some ([2, 104, 105, 251, 0, 7], 5)) 3 = Some (Row row e lens buf) \<and>
    list_all2 (\<lambda>f (r, l). field_at buf f r l) [Some [104, 105], None, Some []] (zip row lens)"
proof -
  let ?fs = "[Some [104, 105], None, Some []] :: u8 list option list"
  have "?fs \<noteq> []" "\<forall>f\<in>set ?fs. field_size f < 2 ^ 32" "length (enc_row ?fs) < 2 ^ 64"
    by (simp_all add: enc_length_def field_size_def)
  moreover have "length ?fs = 3" "length (enc_row ?fs) = 5" "enc_row ?fs @ [7] = [2, 104, 105, 251, 0, 7]"
    by (simp_all add: enc_length_def)
  ultimately show ?thesis using read_one_row_enc_row [of ?fs 7] by metis
qed

theorem stored_row_is_read_back_witness:
  "\<exists>s' row e lens buf.
    store_row True (\<lambda>_. 0) [Some [104, 105], None] \<lparr>str_ptr = [], str_length = 0,
      str_alloced_length = 0, str_alloced = False\<rparr> = Some (s', False) \<and>
    read_one_row (Some (string_val s' @ [7], length (string_val s'))) 2 = Some (Row row e lens buf) \<and>
    list_all2 (\<lambda>f (r, l). field_at buf f r l) [Some [104, 105], None] (zip row lens)"
proof -
  let ?fs = "[Some [104, 105], None] :: u8 list option list"
  let ?s = "\<lparr>str_ptr = [], str_length = 0, str_alloced_length = 0, str_alloced = False\<rparr>"
  have "string_wf ?s" "str_length ?s = 0" "?fs \<noteq> []" "length (enc_row ?fs) + 1034 < 2 ^ 32"
    by (simp_all add: string_wf_def enc_length_def)
  moreover have "length ?fs = 2" by simp
  ultimately show ?thesis using stored_row_is_read_back [of ?s ?fs "\<lambda>_. 0" 7] by metis
qed

theorem net_length_roundtrip_witness:
  "\<exists>t' q. net_store_length (replicate 9 0) 0 70000 = Some (t', q) \<and>
    net_field_length_ll t' 0 = Some (70000, q)"
  using net_length_roundtrip [of 0 "replicate 9 0" 70000] by auto

end
