(* ===== verification/Dyn_Array.thy ===== *)
theory Dyn_Array
  imports Mysys_Prelude
begin

text \<open>
  Dynamic arrays: \<^verbatim>\<open>mysys/array.c\<close>. The buffer is a block of bytes; an element occupies
  \<open>size_of_element\<close> of them, and a pointer to an element is its offset in the buffer. The member
  \<open>buffer_is_static\<close> stands for the test \<open>array->buffer == (uchar *)(array + 1)\<close>. The
  products and sums of \<open>uint\<close> values wrap around before they are used as sizes and offsets. The
  arguments \<open>ok\<close> and \<open>junk\<close> of an operation say whether an allocation it makes succeeds and what
  fresh memory holds.

  The operations are proved to be those of a list of elements, for any element size; the lemmas
  at the end show what the error paths leave behind.
\<close>

section \<open>Model\<close>

record dynamic_array =
  buffer :: "u8 list option"
  buffer_is_static :: bool
  elements :: nat
  max_element :: nat
  alloc_increment :: nat
  size_of_element :: nat

definition MALLOC_OVERHEAD :: nat where
  "MALLOC_OVERHEAD = 8"

text \<open>\<open>memcpy\<close>, \<open>memmove\<close> and \<open>bzero\<close> write a sequence of bytes; reads and writes outside the
  block are undefined.\<close>

definition write_block :: "u8 list \<Rightarrow> nat \<Rightarrow> u8 list \<Rightarrow> u8 list option" where
  "write_block b off bs =
     (if off + length bs \<le> length b then Some (take off b @ bs @ drop (off + length bs) b) else None)"

definition read_block :: "u8 list \<Rightarrow> nat \<Rightarrow> nat \<Rightarrow> u8 list option" where
  "read_block b off n = (if off + n \<le> length b then Some (take n (drop off b)) else None)"

definition init_dynamic_array2 ::
  "nat \<Rightarrow> u8 list option \<Rightarrow> nat \<Rightarrow> nat \<Rightarrow> bool \<Rightarrow> (nat \<Rightarrow> u8) \<Rightarrow> dynamic_array option" where
  "init_dynamic_array2 element_size init_buffer init_alloc alloc_incr ok junk =
     do {
       alloc_incr \<leftarrow>
         (if alloc_incr = 0 then
            do { dbug_assert (element_size \<noteq> 0);
                 let incr = max ((8192 - MALLOC_OVERHEAD) div element_size) 16;
                 Some (if init_alloc > 8 \<and> incr > uint_wrap (init_alloc * 2)
                       then uint_wrap (init_alloc * 2) else incr) }
          else Some alloc_incr);
       let (init_alloc, init_buffer) =
         (if init_alloc = 0 then (alloc_incr, None) else (init_alloc, init_buffer));
       let array = \<lparr>buffer = init_buffer, buffer_is_static = (init_buffer \<noteq> None), elements = 0,
                    max_element = init_alloc, alloc_increment = alloc_incr,
                    size_of_element = element_size\<rparr>;
       if init_buffer \<noteq> None then Some array
       else
         case malloc_slots ok junk (uint_wrap (element_size * init_alloc)) of
           None \<Rightarrow> Some (array\<lparr>max_element := 0\<rparr>)
         | Some b \<Rightarrow> Some (array\<lparr>buffer := Some b\<rparr>)
     }"

text \<open>
  A block of \<open>n\<close> bytes in place of the buffer: a new one with a copy of the elements for a
  static buffer, otherwise by \<open>my_realloc\<close>, which allocates if there is no buffer.
\<close>

definition grow_buffer :: "dynamic_array \<Rightarrow> nat \<Rightarrow> bool \<Rightarrow> (nat \<Rightarrow> u8) \<Rightarrow> u8 list option option" where
  "grow_buffer array n ok junk =
     (if buffer_is_static array then
        case malloc_slots ok junk n of
          None \<Rightarrow> Some None
        | Some new_ptr \<Rightarrow>
            do { old \<leftarrow> buffer array;
                 bs \<leftarrow> read_block old 0 (uint_wrap (elements array * size_of_element array));
                 new_ptr \<leftarrow> write_block new_ptr 0 bs;
                 Some (Some new_ptr) }
      else
        case buffer array of
          None \<Rightarrow> Some (malloc_slots ok junk n)
        | Some old \<Rightarrow> Some (realloc_slots ok junk old n))"

text \<open>The offset of the space for the next element; \<^term>\<open>None\<close> is the null pointer.\<close>

definition alloc_dynamic ::
  "dynamic_array \<Rightarrow> bool \<Rightarrow> (nat \<Rightarrow> u8) \<Rightarrow> (nat option \<times> dynamic_array) option" where
  "alloc_dynamic array ok junk =
     do {
       grown \<leftarrow>
         (if elements array = max_element array then do {
            new_ptr \<leftarrow> grow_buffer array
              (uint_wrap (uint_wrap (max_element array + alloc_increment array) * size_of_element array)) ok junk;
            Some (case new_ptr of
                None \<Rightarrow> None
              | Some b \<Rightarrow> Some (array\<lparr>buffer := Some b, buffer_is_static := False,
                  max_element := uint_wrap (max_element array + alloc_increment array)\<rparr>))
          }
          else Some (Some array));
       case grown of
         None \<Rightarrow> Some (None, array)
       | Some array \<Rightarrow>
           Some (Some (uint_wrap (elements array * size_of_element array)),
                 array\<lparr>elements := uint_wrap (elements array + 1)\<rparr>)
     }"

definition write_element :: "dynamic_array \<Rightarrow> nat \<Rightarrow> u8 list \<Rightarrow> dynamic_array option" where
  "write_element array off bs =
     do { b \<leftarrow> buffer array; b \<leftarrow> write_block b off bs; Some (array\<lparr>buffer := Some b\<rparr>) }"

text \<open>The result and the array; \<open>element\<close> are the bytes the argument points at.\<close>

definition insert_dynamic ::
  "dynamic_array \<Rightarrow> u8 list \<Rightarrow> bool \<Rightarrow> (nat \<Rightarrow> u8) \<Rightarrow> (bool \<times> dynamic_array) option" where
  "insert_dynamic array element ok junk =
     do {
       (p, array) \<leftarrow>
         (if elements array = max_element array then alloc_dynamic array ok junk
          else Some (Some (uint_wrap (elements array * size_of_element array)),
                     array\<lparr>elements := uint_wrap (elements array + 1)\<rparr>));
       case p of
         None \<Rightarrow> Some (True, array)
       | Some off \<Rightarrow>
           do { bs \<leftarrow> read_block element 0 (size_of_element array);
                array \<leftarrow> write_element array off bs;
                Some (False, array) }
     }"

definition pop_dynamic :: "dynamic_array \<Rightarrow> nat option \<times> dynamic_array" where
  "pop_dynamic array =
     (if elements array \<noteq> 0
      then (Some (uint_wrap ((elements array - 1) * size_of_element array)),
            array\<lparr>elements := elements array - 1\<rparr>)
      else (None, array))"

definition allocate_dynamic ::
  "dynamic_array \<Rightarrow> nat \<Rightarrow> bool \<Rightarrow> (nat \<Rightarrow> u8) \<Rightarrow> (bool \<times> dynamic_array) option" where
  "allocate_dynamic array max_elements ok junk =
     (if max_elements \<ge> max_element array then do {
        dbug_assert (alloc_increment array \<noteq> 0);
        let size = uint_wrap (uint_wrap (max_elements + alloc_increment array) div alloc_increment array *
                              alloc_increment array);
        new_ptr \<leftarrow> grow_buffer array (uint_wrap (size * size_of_element array)) ok junk;
        Some (case new_ptr of
            None \<Rightarrow> (\<not> buffer_is_static array, array)
          | Some b \<Rightarrow> (False, array\<lparr>buffer := Some b, buffer_is_static := False, max_element := size\<rparr>))
      }
      else Some (False, array))"

definition set_dynamic ::
  "dynamic_array \<Rightarrow> u8 list \<Rightarrow> nat \<Rightarrow> bool \<Rightarrow> (nat \<Rightarrow> u8) \<Rightarrow> (bool \<times> dynamic_array) option" where
  "set_dynamic array element idx ok junk =
     do {
       (failed, array) \<leftarrow>
         (if idx \<ge> elements array then do {
            (failed, array) \<leftarrow>
              (if idx \<ge> max_element array then allocate_dynamic array idx ok junk else Some (False, array));
            if failed then Some (True, array)
            else do {
              array \<leftarrow> write_element array (uint_wrap (elements array * size_of_element array))
                (replicate (uint_wrap ((idx - elements array) * size_of_element array)) 0);
              Some (False, array\<lparr>elements := uint_wrap (idx + 1)\<rparr>)
            }
          }
          else Some (False, array));
       if failed then Some (True, array)
       else do {
         bs \<leftarrow> read_block element 0 (size_of_element array);
         array \<leftarrow> write_element array (uint_wrap (idx * size_of_element array)) bs;
         Some (False, array)
       }
     }"

definition get_dynamic :: "dynamic_array \<Rightarrow> nat \<Rightarrow> u8 list option" where
  "get_dynamic array idx =
     (if idx \<ge> elements array then Some (replicate (size_of_element array) 0)
      else do { b \<leftarrow> buffer array;
                read_block b (uint_wrap (idx * size_of_element array)) (size_of_element array) })"

definition delete_dynamic :: "dynamic_array \<Rightarrow> dynamic_array" where
  "delete_dynamic array =
     (if buffer_is_static array then array\<lparr>elements := 0\<rparr>
      else if buffer array \<noteq> None then array\<lparr>buffer := None, elements := 0, max_element := 0\<rparr>
      else array)"

definition delete_dynamic_element :: "dynamic_array \<Rightarrow> nat \<Rightarrow> dynamic_array option" where
  "delete_dynamic_element array idx =
     (let off = uint_wrap (size_of_element array * idx);
          elements' = uint_dec (elements array);
          n = nat ((int elements' - int idx) * int (size_of_element array) mod 2 ^ 32)
      in do {
        b \<leftarrow> buffer array;
        bs \<leftarrow> read_block b (off + size_of_element array) n;
        b \<leftarrow> write_block b off bs;
        Some (array\<lparr>buffer := Some b, elements := elements'\<rparr>)
      })"

definition freeze_size :: "dynamic_array \<Rightarrow> bool \<Rightarrow> (nat \<Rightarrow> u8) \<Rightarrow> dynamic_array" where
  "freeze_size array ok junk =
     (let elements' = max (elements array) 1 in
      if buffer_is_static array then array
      else
        case buffer array of
          None \<Rightarrow> array
        | Some old \<Rightarrow>
            if max_element array \<noteq> elements'
            then array\<lparr>buffer := realloc_slots ok junk old (uint_wrap (elements' * size_of_element array)),
                       max_element := elements'\<rparr>
            else array)"

text \<open>The index of the element at an offset from the buffer; negative offsets are below it.\<close>

definition get_index_dynamic :: "dynamic_array \<Rightarrow> int \<Rightarrow> int option" where
  "get_index_dynamic array off =
     (if off < 0 then Some (- 1)
      else do {
        dbug_assert (size_of_element array \<noteq> 0);
        let ret = nat off div size_of_element array;
        Some (if ret > elements array then - 1 else int_wrap (int ret))
      })"

definition reset_dynamic :: "dynamic_array \<Rightarrow> dynamic_array" where
  "reset_dynamic array = array\<lparr>elements := 0\<rparr>"

section \<open>Chunks of a block\<close>

definition chunk :: "nat \<Rightarrow> 'a list \<Rightarrow> nat \<Rightarrow> 'a list" where
  "chunk s b i = take s (drop (i * s) b)"

lemma chunk_fits: "i < n \<Longrightarrow> i * s + s \<le> n * s" for s :: nat
proof -
  assume "i < n"
  then have "Suc i * s \<le> n * s" by (intro mult_le_mono1) simp
  then show ?thesis by simp
qed

lemma length_chunk: "n * s \<le> length b \<Longrightarrow> i < n \<Longrightarrow> length (chunk s b i) = s"
  using chunk_fits [of i n s] by (simp add: chunk_def)

lemma chunk_take: "i < n \<Longrightarrow> chunk s (take (n * s) b) i = chunk s b i"
  using chunk_fits [of i n s] by (simp add: chunk_def drop_take min_absorb1)

lemma chunk_append1: "length a = n * s \<Longrightarrow> i < n \<Longrightarrow> chunk s (a @ b) i = chunk s a i"
  using chunk_fits [of i n s] by (simp add: chunk_def)

lemma chunk_append2: "length a = n * s \<Longrightarrow> chunk s (a @ b) (n + i) = chunk s b i"
  by (simp add: chunk_def algebra_simps)

lemma chunk_drop: "chunk s (drop (n * s) b) i = chunk s b (n + i)"
  by (simp add: chunk_def algebra_simps)

lemma chunk_replicate: "i < n \<Longrightarrow> chunk s (replicate (n * s) x) i = replicate s x"
  using chunk_fits [of i n s] by (simp add: chunk_def min_absorb1)

lemma realloc_chunk:
  assumes "j < m" "m \<le> n" "m * s \<le> length old"
  shows "chunk s (map (\<lambda>i. if i < length old then old ! i else junk i) [0..<n * s]) j = chunk s old j"
proof -
  let ?b = "map (\<lambda>i. if i < length old then old ! i else junk i) [0..<n * s]"
  have le: "m * s \<le> n * s" using assms(2) by (rule mult_le_mono1)
  have "take (m * s) ?b = take (m * s) old"
  proof (rule nth_equalityI)
    show "length (take (m * s) ?b) = length (take (m * s) old)" using le assms(3) by (simp add: min_absorb2)
    fix i assume "i < length (take (m * s) ?b)"
    then have "i < m * s" by simp
    then have "i < n * s" "i < length old" "i < m * s" using le assms(3) by linarith+
    then show "take (m * s) ?b ! i = take (m * s) old ! i" by simp
  qed
  then show ?thesis using chunk_take [OF assms(1), of s ?b] chunk_take [OF assms(1), of s old] by simp
qed

text \<open>A write that starts and ends at chunk limits.\<close>

lemma write_chunks:
  assumes "length bs = k * s" "length b = n * s" "i + k \<le> n"
  shows "\<exists>b'. write_block b (i * s) bs = Some b' \<and> length b' = n * s \<and>
    (\<forall>j<n. chunk s b' j = (if i \<le> j \<and> j < i + k then chunk s bs (j - i) else chunk s b j))"
proof -
  let ?b = "take (i * s) b @ bs @ drop (i * s + k * s) b"
  have m: "i * s + k * s \<le> n * s" using mult_le_mono1 [OF assms(3), of s] by (simp add: algebra_simps)
  have l1: "length (take (i * s) b) = i * s" using m assms(2) by simp
  have l2: "length (take (i * s) b @ bs) = (i + k) * s" using l1 assms(1) by (simp add: algebra_simps)
  have "chunk s ?b j = (if i \<le> j \<and> j < i + k then chunk s bs (j - i) else chunk s b j)" if "j < n" for j
  proof -
    consider "j < i" | "i \<le> j" "j < i + k" | "i + k \<le> j" by linarith
    then show ?thesis
    proof cases
      case 1
      then show ?thesis using chunk_append1 [OF l1 1] chunk_take [OF 1] by simp
    next
      case 2
      then show ?thesis
        using chunk_append2 [OF l1, of _ "j - i"] chunk_append1 [OF assms(1), of "j - i"] by simp
    next
      case 3
      then show ?thesis
        using chunk_append2 [OF l2, of "drop (i * s + k * s) b" "j - (i + k)"] chunk_drop [of s "i + k" b "j - (i + k)"]
        by (simp add: algebra_simps)
    qed
  qed
  then show ?thesis using m assms by (auto simp: write_block_def)
qed


section \<open>Arrays as lists of elements\<close>

definition block_of :: "dynamic_array \<Rightarrow> u8 list" where
  "block_of a = (case buffer a of None \<Rightarrow> [] | Some b \<Rightarrow> b)"

definition dyn_ok :: "dynamic_array \<Rightarrow> bool" where
  "dyn_ok a \<longleftrightarrow> 0 < size_of_element a \<and> 0 < alloc_increment a \<and> elements a \<le> max_element a \<and>
     max_element a * size_of_element a < 2 ^ 32 \<and>
     (case buffer a of
        None \<Rightarrow> max_element a = 0 \<and> \<not> buffer_is_static a
      | Some b \<Rightarrow> length b = max_element a * size_of_element a)"

definition contents :: "dynamic_array \<Rightarrow> u8 list list" where
  "contents a = map (chunk (size_of_element a) (block_of a)) [0..<elements a]"

text \<open>The members that no operation after the initialisation changes.\<close>

definition same_shape :: "dynamic_array \<Rightarrow> dynamic_array \<Rightarrow> bool" where
  "same_shape a a' \<longleftrightarrow> size_of_element a' = size_of_element a \<and> alloc_increment a' = alloc_increment a"

lemma length_contents [simp]: "length (contents a) = elements a"
  by (simp add: contents_def)

lemma dyn_okD:
  assumes "dyn_ok a"
  shows "0 < size_of_element a" "0 < alloc_increment a" "elements a \<le> max_element a"
    "max_element a * size_of_element a < 2 ^ 32" "length (block_of a) = max_element a * size_of_element a"
    "max_element a < 2 ^ 32" "buffer a = None \<Longrightarrow> max_element a = 0 \<and> \<not> buffer_is_static a"
proof -
  have *: "0 < size_of_element a" "max_element a * size_of_element a < 2 ^ 32"
    using assms by (auto simp: dyn_ok_def)
  then have "max_element a * 1 \<le> max_element a * size_of_element a" by (intro mult_le_mono2) simp
  then show "max_element a < 2 ^ 32" using * by linarith
qed (use assms in \<open>auto simp: dyn_ok_def block_of_def split: option.splits\<close>)

lemma dyn_okI:
  assumes "buffer a = Some b" "length b = max_element a * size_of_element a" "0 < size_of_element a"
    "0 < alloc_increment a" "elements a \<le> max_element a" "max_element a * size_of_element a < 2 ^ 32"
  shows "dyn_ok a"
  using assms by (simp add: dyn_ok_def)

lemma dyn_ok_fewer: "dyn_ok a \<Longrightarrow> n \<le> max_element a \<Longrightarrow> dyn_ok (a\<lparr>elements := n\<rparr>)"
  by (auto simp: dyn_ok_def split: option.splits)

lemma contents_nth: "i < elements a \<Longrightarrow> contents a ! i = chunk (size_of_element a) (block_of a) i"
  by (simp add: contents_def)

lemma offset_id:
  assumes "dyn_ok a" "i \<le> max_element a"
  shows "uint_wrap (i * size_of_element a) = i * size_of_element a"
    "i * size_of_element a \<le> length (block_of a)"
proof -
  have le: "i * size_of_element a \<le> max_element a * size_of_element a" using assms(2) by (rule mult_le_mono1)
  also have lt: "\<dots> < 2 ^ 32" by (rule dyn_okD(4) [OF assms(1)])
  finally show "uint_wrap (i * size_of_element a) = i * size_of_element a"
    unfolding uint_wrap_def by (rule mod_less)
  show "i * size_of_element a \<le> length (block_of a)" using le dyn_okD(5) [OF assms(1)] by simp
qed

text \<open>A larger block with the same elements.\<close>

lemma grow_buffer_ok:
  assumes a: "dyn_ok a" and n: "max_element a \<le> n"
  shows "grow_buffer a (n * size_of_element a) False junk = Some None"
    "\<exists>b. grow_buffer a (n * size_of_element a) True junk = Some (Some b) \<and> length b = n * size_of_element a \<and>
       (\<forall>j<elements a. chunk (size_of_element a) b j = chunk (size_of_element a) (block_of a) j)"
proof -
  let ?s = "size_of_element a"
  note ok = dyn_okD [OF a]
  show "grow_buffer a (n * ?s) False junk = Some None"
    by (auto simp: grow_buffer_def malloc_slots_def realloc_slots_def split: option.splits)
  have le: "max_element a * ?s \<le> n * ?s" using n by (rule mult_le_mono1)
  note el = offset_id [OF a ok(3)]
  show "\<exists>b. grow_buffer a (n * ?s) True junk = Some (Some b) \<and> length b = n * ?s \<and>
       (\<forall>j<elements a. chunk ?s b j = chunk ?s (block_of a) j)"
  proof (cases "buffer_is_static a")
    case True
    then obtain old where old: "buffer a = Some old" using ok(7) by auto
    let ?bs = "take (elements a * ?s) old"
    have len: "length ?bs = elements a * ?s" "length (map junk [0..<n * ?s]) = n * ?s"
      using el(2) old by (simp_all add: block_of_def)
    obtain b where b: "write_block (map junk [0..<n * ?s]) (0 * ?s) ?bs = Some b" "length b = n * ?s"
      "\<forall>j<n. chunk ?s b j = (if 0 \<le> j \<and> j < 0 + elements a then chunk ?s ?bs (j - 0)
         else chunk ?s (map junk [0..<n * ?s]) j)"
      using write_chunks [OF len, of 0] ok(3) n by auto
    have "grow_buffer a (n * ?s) True junk = Some (Some b)"
      using True old el b(1) by (simp add: grow_buffer_def malloc_slots_def read_block_def block_of_def)
    moreover have "chunk ?s b j = chunk ?s (block_of a) j" if "j < elements a" for j
      using b(3) that ok(3) n chunk_take [OF that, of ?s old] old by (simp add: block_of_def)
    ultimately show ?thesis using b(2) by blast
  next
    case False
    show ?thesis
    proof (cases "buffer a")
      case None
      then have "elements a = 0" using ok(3,7) by simp
      then show ?thesis using None False by (simp add: grow_buffer_def malloc_slots_def)
    next
      case (Some old)
      have "chunk ?s (map (\<lambda>i. if i < length old then old ! i else junk i) [0..<n * ?s]) j = chunk ?s old j"
        if "j < elements a" for j
        by (rule realloc_chunk [OF that]) (use ok(3) n el(2) Some in \<open>auto simp: block_of_def\<close>)
      then show ?thesis using Some False by (simp add: grow_buffer_def realloc_slots_def block_of_def)
    qed
  qed
qed


lemma wrap_id: "n < 2 ^ 32 \<Longrightarrow> uint_wrap n = n"
  by (simp add: uint_wrap_def)

lemma size_bound:
  fixes n s :: nat
  assumes "n * s < 2 ^ 32" "0 < s"
  shows "n < 2 ^ 32" "uint_wrap (n * s) = n * s"
proof -
  have "n * 1 \<le> n * s" using assms(2) by (intro mult_le_mono2) simp
  then show "n < 2 ^ 32" using assms(1) by linarith
  show "uint_wrap (n * s) = n * s" using assms(1) by (rule wrap_id)
qed

lemma write_element_ok:
  assumes a: "dyn_ok a" and b: "buffer a = Some b" and bs: "length bs = k * size_of_element a"
    and i: "i + k \<le> max_element a"
  shows "\<exists>b'. write_element a (i * size_of_element a) bs = Some (a\<lparr>buffer := Some b'\<rparr>) \<and>
    dyn_ok (a\<lparr>buffer := Some b'\<rparr>) \<and>
    (\<forall>j<max_element a. chunk (size_of_element a) b' j =
       (if i \<le> j \<and> j < i + k then chunk (size_of_element a) bs (j - i) else chunk (size_of_element a) b j))"
proof -
  have "length b = max_element a * size_of_element a" using dyn_okD(5) [OF a] b by (simp add: block_of_def)
  from write_chunks [OF bs this i] show ?thesis
    using a b by (auto simp: write_element_def dyn_ok_def)
qed

text \<open>An array that has been filled up to the element \<open>idx\<close> and given a value there.\<close>

lemma contents_write:
  assumes a: "dyn_ok a" and b: "buffer a = Some b" and idx: "idx < max_element a"
    and e: "length e = size_of_element a"
  shows "\<exists>b'. write_element a (idx * size_of_element a) e = Some (a\<lparr>buffer := Some b'\<rparr>) \<and>
    dyn_ok (a\<lparr>buffer := Some b'\<rparr>) \<and> contents (a\<lparr>buffer := Some b'\<rparr>) = (contents a)[idx := e]"
proof -
  let ?s = "size_of_element a"
  obtain b' where b': "write_element a (idx * ?s) e = Some (a\<lparr>buffer := Some b'\<rparr>)"
    "dyn_ok (a\<lparr>buffer := Some b'\<rparr>)"
    "\<forall>j<max_element a. chunk ?s b' j = (if idx \<le> j \<and> j < idx + 1 then chunk ?s e (j - idx) else chunk ?s b j)"
    using write_element_ok [OF a b, of e 1 idx] e idx by auto
  have "contents (a\<lparr>buffer := Some b'\<rparr>) = (contents a)[idx := e]"
  proof (rule nth_equalityI)
    fix j assume j: "j < length (contents (a\<lparr>buffer := Some b'\<rparr>))"
    have "chunk ?s e 0 = e" using e by (simp add: chunk_def)
    then show "contents (a\<lparr>buffer := Some b'\<rparr>) ! j = (contents a)[idx := e] ! j"
      using j b b'(3) dyn_okD(3) [OF a] by (auto simp: contents_nth block_of_def nth_list_update)
  qed simp
  then show ?thesis using b' by blast
qed

lemma contents_longer:
  assumes "elements a \<le> n" "\<forall>j<n. chunk (size_of_element a) (block_of a') j =
      (if elements a \<le> j then replicate (size_of_element a) 0 else chunk (size_of_element a) (block_of a) j)"
    "elements a' = n" "size_of_element a' = size_of_element a"
  shows "contents a' = contents a @ replicate (n - elements a) (replicate (size_of_element a) 0)"
  by (rule nth_equalityI) (use assms in \<open>auto simp: contents_nth nth_append\<close>)

lemma insert_dynamic_ok:
  assumes a: "dyn_ok a" and e: "length e = size_of_element a"
    and room: "elements a = max_element a \<Longrightarrow> (elements a + alloc_increment a) * size_of_element a < 2 ^ 32"
  shows "if elements a = max_element a \<and> \<not> ok then insert_dynamic a e ok junk = Some (True, a)
    else \<exists>a'. insert_dynamic a e ok junk = Some (False, a') \<and> dyn_ok a' \<and> same_shape a a' \<and>
      max_element a' \<le> max_element a + (if elements a = max_element a then alloc_increment a else 0) \<and>
      contents a' = contents a @ [e]"
proof -
  let ?s = "size_of_element a" and ?n = "max_element a + alloc_increment a"
  note ok = dyn_okD [OF a]
  have r: "uint_wrap ?n = ?n" "uint_wrap (?n * ?s) = ?n * ?s" if "elements a = max_element a"
    using size_bound [OF _ ok(1), of ?n] room that by (auto simp: wrap_id)
  define a1 where "a1 = (if elements a = max_element a
    then a\<lparr>buffer := Some (the (the (grow_buffer a (?n * ?s) True junk))), buffer_is_static := False, max_element := ?n\<rparr>
    else a)"
  obtain b where b: "grow_buffer a (?n * ?s) True junk = Some (Some b)" "length b = ?n * ?s"
    "\<forall>j<elements a. chunk ?s b j = chunk ?s (block_of a) j"
    using grow_buffer_ok(2) [OF a, of ?n junk] by auto
  show ?thesis
  proof (cases "elements a = max_element a \<and> \<not> ok")
    case True
    then show ?thesis
      using grow_buffer_ok(1) [OF a, of ?n junk] r
      by (simp add: insert_dynamic_def alloc_dynamic_def)
  next
    case False
    obtain b1 where b1: "buffer a1 = Some b1" "dyn_ok a1" "elements a1 = elements a" "elements a < max_element a1"
      "size_of_element a1 = ?s" "alloc_increment a1 = alloc_increment a"
      "\<forall>j<elements a. chunk ?s b1 j = chunk ?s (block_of a) j"
      "max_element a1 \<le> max_element a + (if elements a = max_element a then alloc_increment a else 0)"
    proof (cases "elements a = max_element a")
      case True
      then show ?thesis using b ok room by (intro that [of b]) (auto simp: a1_def dyn_ok_def)
    next
      case False
      then obtain b0 where "buffer a = Some b0" using ok(3,7) by (cases "buffer a") auto
      then show ?thesis using False a ok(3) by (intro that [of b0]) (auto simp: a1_def block_of_def)
    qed
    define a2 where "a2 = a1\<lparr>elements := elements a + 1\<rparr>"
    have a2: "dyn_ok a2" "buffer a2 = Some b1" "elements a < max_element a2" "length e = size_of_element a2"
      using b1 e by (auto simp: a2_def dyn_ok_def)
    have el: "uint_wrap (elements a * ?s) = elements a * ?s" "uint_wrap (elements a + 1) = elements a + 1"
      using offset_id(1) [OF a ok(3)] b1(4) dyn_okD(6) [OF b1(2)] by (simp_all add: wrap_id)
    have "insert_dynamic a e ok junk =
        write_element a2 (elements a * size_of_element a2) e \<bind> (\<lambda>a'. Some (False, a'))"
      using False b(1) el r e b1(5)
      by (auto simp: insert_dynamic_def alloc_dynamic_def a2_def a1_def read_block_def)
    moreover obtain b' where "write_element a2 (elements a * size_of_element a2) e = Some (a2\<lparr>buffer := Some b'\<rparr>)"
      "dyn_ok (a2\<lparr>buffer := Some b'\<rparr>)" "contents (a2\<lparr>buffer := Some b'\<rparr>) = (contents a2)[elements a := e]"
      using contents_write [OF a2] by blast
    moreover have "(contents a2)[elements a := e] = contents a @ [e]"
      by (rule nth_equalityI)
        (use b1 a2 in \<open>auto simp: a2_def contents_nth nth_list_update nth_append block_of_def less_Suc_eq\<close>)
    moreover have "same_shape a (a2\<lparr>buffer := Some b'\<rparr>)" for b'
      using b1(5,6) by (simp add: same_shape_def a2_def)
    ultimately show ?thesis using False b1(8) by (auto simp: a2_def)
  qed
qed


lemma get_dynamic_ok:
  assumes a: "dyn_ok a"
  shows "get_dynamic a i = Some (if i < elements a then contents a ! i else replicate (size_of_element a) 0)"
proof (cases "i < elements a")
  case True
  note ok = dyn_okD [OF a]
  have i: "i < max_element a" using True ok(3) by simp
  then obtain b where b: "buffer a = Some b" using ok(7) by (cases "buffer a") auto
  have "i * size_of_element a + size_of_element a \<le> length b"
    using chunk_fits [OF i, of "size_of_element a"] ok(5) b by (simp add: block_of_def)
  then show ?thesis
    using True b offset_id(1) [OF a, of i] i
    by (simp add: get_dynamic_def read_block_def contents_nth chunk_def block_of_def)
qed (simp add: get_dynamic_def)

lemma pop_dynamic_ok:
  assumes a: "dyn_ok a" and ne: "elements a \<noteq> 0"
  shows "\<exists>off a'. pop_dynamic a = (Some off, a') \<and> dyn_ok a' \<and> same_shape a a' \<and>
    contents a' = butlast (contents a) \<and>
    read_block (block_of a') off (size_of_element a) = Some (last (contents a))"
proof -
  note ok = dyn_okD [OF a]
  let ?i = "elements a - 1" and ?s = "size_of_element a"
  have i: "?i < max_element a" using ne ok(3) by simp
  have f: "?i * ?s + ?s \<le> length (block_of a)" using chunk_fits [OF i, of ?s] ok(5) by simp
  have "last (contents a) = chunk ?s (block_of a) ?i"
    using ne by (subst last_conv_nth) (auto simp: contents_nth simp flip: length_0_conv)
  moreover have "contents (a\<lparr>elements := ?i\<rparr>) = butlast (contents a)"
    by (rule nth_equalityI) (auto simp: contents_nth nth_butlast block_of_def)
  moreover have "block_of (a\<lparr>elements := ?i\<rparr>) = block_of a" by (simp add: block_of_def)
  ultimately show ?thesis
    using ne f offset_id(1) [OF a, of ?i] i dyn_ok_fewer [OF a, of ?i]
    by (auto simp: pop_dynamic_def same_shape_def read_block_def chunk_def)
qed

lemma delete_dynamic_element_ok:
  assumes a: "dyn_ok a" and i: "i < elements a"
  shows "\<exists>a'. delete_dynamic_element a i = Some a' \<and> dyn_ok a' \<and> same_shape a a' \<and>
    contents a' = take i (contents a) @ drop (Suc i) (contents a)"
proof -
  let ?s = "size_of_element a" and ?k = "elements a - 1 - i"
  note ok = dyn_okD [OF a]
  have im: "i < max_element a" using i ok(3) by simp
  then obtain b where b: "buffer a = Some b" using ok(7) by (cases "buffer a") auto
  have len: "length b = max_element a * ?s" using ok(5) b by (simp add: block_of_def)
  have off: "uint_wrap (?s * i) = i * ?s" using offset_id(1) [OF a, of i] im by (simp add: mult.commute)
  have el: "uint_dec (elements a) = elements a - 1" using i by (simp add: uint_dec_def)
  have k: "nat ((int (elements a - 1) - int i) * int ?s mod 2 ^ 32) = ?k * ?s"
  proof -
    have "int (elements a - 1) - int i = int ?k" using i by simp
    moreover have "?k \<le> max_element a" using ok(3) by simp
    ultimately show ?thesis
      using offset_id(1) [OF a, of ?k] unfolding uint_wrap_def
      by (simp only: of_nat_mult [symmetric]) (metis nat_int of_nat_mod of_nat_numeral of_nat_power)
  qed
  have lim: "Suc i + ?k \<le> max_element a" "i + ?k \<le> max_element a" using i ok(3) by auto
  let ?bs = "take (?k * ?s) (drop (Suc i * ?s) b)"
  have le: "Suc i * ?s + ?k * ?s \<le> length b"
    using mult_le_mono1 [OF lim(1), of ?s] len by (simp add: algebra_simps)
  have bs: "length ?bs = ?k * ?s" using le by simp
  obtain b' where b': "write_block b (i * ?s) ?bs = Some b'" "length b' = max_element a * ?s"
    "\<forall>j<max_element a. chunk ?s b' j = (if i \<le> j \<and> j < i + ?k then chunk ?s ?bs (j - i) else chunk ?s b j)"
    using write_chunks [OF bs len lim(2)] by blast
  let ?a = "a\<lparr>buffer := Some b', elements := elements a - 1\<rparr>"
  have "delete_dynamic_element a i = Some ?a"
  proof -
    have "read_block b (i * ?s + ?s) (?k * ?s) = Some ?bs"
      using le by (simp add: read_block_def add.commute)
    then show ?thesis
      unfolding delete_dynamic_element_def Let_def off el k b bind.simps using b'(1) by simp
  qed
  moreover have "dyn_ok ?a" using a b'(2) by (auto simp: dyn_ok_def)
  moreover have "contents ?a = take i (contents a) @ drop (Suc i) (contents a)"
  proof (rule nth_equalityI)
    fix j assume j: "j < length (contents ?a)"
    have "chunk ?s ?bs (j - i) = chunk ?s b (Suc j)" if "i \<le> j"
      using chunk_take [of "j - i" ?k ?s "drop (Suc i * ?s) b"] chunk_drop [of ?s "Suc i" b "j - i"] that j i by auto
    then show "contents ?a ! j = (take i (contents a) @ drop (Suc i) (contents a)) ! j"
      using j i b b'(3) ok(3) by (auto simp: contents_nth nth_append block_of_def min_def)
  qed (use i in simp)
  ultimately show ?thesis by (auto simp: same_shape_def)
qed


lemma round_up:
  fixes idx inc :: nat
  assumes "0 < inc"
  shows "idx < (idx + inc) div inc * inc" "(idx + inc) div inc * inc \<le> idx + inc"
proof -
  have "(idx + inc) div inc * inc + (idx + inc) mod inc = idx + inc" by (rule div_mult_mod_eq)
  moreover have "(idx + inc) mod inc < inc" using assms by simp
  ultimately show "idx < (idx + inc) div inc * inc" by linarith
  show "(idx + inc) div inc * inc \<le> idx + inc" by simp
qed

lemma allocate_dynamic_ok:
  assumes a: "dyn_ok a" and room: "(idx + alloc_increment a) * size_of_element a < 2 ^ 32"
    and ok: "ok \<or> idx < max_element a"
  shows "\<exists>b a'. allocate_dynamic a idx ok junk = Some (False, a') \<and> buffer a' = Some b \<and> dyn_ok a' \<and>
    same_shape a a' \<and> elements a' = elements a \<and> idx < max_element a' \<and>
    (\<forall>j<elements a. chunk (size_of_element a) b j = chunk (size_of_element a) (block_of a) j)"
proof (cases "idx < max_element a")
  case True
  then obtain b where "buffer a = Some b" using dyn_okD(7) [OF a] by (cases "buffer a") auto
  then show ?thesis using True a by (auto simp: allocate_dynamic_def same_shape_def block_of_def)
next
  case False
  let ?s = "size_of_element a" and ?inc = "alloc_increment a"
  define n where "n = (idx + ?inc) div ?inc * ?inc"
  note d = dyn_okD [OF a]
  have n: "idx < n" "n \<le> idx + ?inc" using round_up [OF d(2)] by (simp_all add: n_def)
  have ns: "n * ?s < 2 ^ 32" using mult_le_mono1 [OF n(2), of ?s] room by (rule le_less_trans)
  note w = size_bound [OF ns d(1)] size_bound [OF room d(1)]
  obtain b where b: "grow_buffer a (n * ?s) True junk = Some (Some b)" "length b = n * ?s"
    "\<forall>j<elements a. chunk ?s b j = chunk ?s (block_of a) j"
    using grow_buffer_ok(2) [OF a, of n junk] n(1) False by auto
  have "allocate_dynamic a idx ok junk =
      Some (False, a\<lparr>buffer := Some b, buffer_is_static := False, max_element := n\<rparr>)"
    unfolding allocate_dynamic_def Let_def wrap_id [OF w(3)] n_def [symmetric] wrap_id [OF w(1)] w(2)
    using b(1) d(2) False ok by simp
  moreover have "dyn_ok (a\<lparr>buffer := Some b, buffer_is_static := False, max_element := n\<rparr>)"
    using b(2) ns d n False by (auto simp: dyn_ok_def)
  ultimately show ?thesis using b(3) n(1) by (auto simp: same_shape_def)
qed

text \<open>The elements between the old end and \<open>idx\<close> are zeroed.\<close>

lemma extend_elements:
  assumes a: "dyn_ok a" and b: "buffer a = Some b" and idx: "elements a \<le> idx" "idx < max_element a"
  shows "\<exists>b'. write_element a (elements a * size_of_element a)
      (replicate ((idx - elements a) * size_of_element a) 0) = Some (a\<lparr>buffer := Some b'\<rparr>) \<and>
    dyn_ok (a\<lparr>buffer := Some b', elements := idx + 1\<rparr>) \<and>
    (\<exists>x. contents (a\<lparr>buffer := Some b', elements := idx + 1\<rparr>) =
      contents a @ replicate (idx - elements a) (replicate (size_of_element a) 0) @ [x])"
proof -
  let ?s = "size_of_element a" and ?k = "idx - elements a"
  obtain b' where b': "write_element a (elements a * ?s) (replicate (?k * ?s) 0) = Some (a\<lparr>buffer := Some b'\<rparr>)"
    "dyn_ok (a\<lparr>buffer := Some b'\<rparr>)"
    "\<forall>j<max_element a. chunk ?s b' j =
       (if elements a \<le> j \<and> j < elements a + ?k then chunk ?s (replicate (?k * ?s) 0) (j - elements a) else chunk ?s b j)"
    using write_element_ok [OF a b, of "replicate (?k * ?s) 0" ?k "elements a"] idx by auto
  let ?a = "a\<lparr>buffer := Some b', elements := idx + 1\<rparr>"
  have "contents ?a = contents a @ replicate ?k (replicate ?s 0) @ [chunk ?s b idx]"
    by (rule nth_equalityI)
      (use b b'(3) idx in \<open>auto simp: contents_nth nth_append block_of_def chunk_replicate less_Suc_eq\<close>)
  moreover have "dyn_ok ?a" using dyn_ok_fewer [OF b'(2), of "idx + 1"] idx by simp
  ultimately show ?thesis using b'(1) by blast
qed

lemma set_dynamic_ok:
  assumes a: "dyn_ok a" and e: "length e = size_of_element a"
    and room: "(idx + alloc_increment a) * size_of_element a < 2 ^ 32" and ok: "ok \<or> idx < max_element a"
  shows "\<exists>a'. set_dynamic a e idx ok junk = Some (False, a') \<and> dyn_ok a' \<and> same_shape a a' \<and>
    contents a' = (contents a @ replicate (Suc idx - elements a) (replicate (size_of_element a) 0))[idx := e]"
proof -
  let ?s = "size_of_element a" and ?z = "replicate (size_of_element a) (0 :: u8)"
  have rb: "read_block e 0 ?s = Some e" using e by (simp add: read_block_def)
  show ?thesis
  proof (cases "idx < elements a")
    case True
    then have m: "idx < max_element a" using dyn_okD(3) [OF a] by simp
    then obtain b where b: "buffer a = Some b" using dyn_okD(7) [OF a] by (cases "buffer a") auto
    show ?thesis
      using contents_write [OF a b m e] True rb offset_id(1) [OF a, of idx] m
      by (auto simp: set_dynamic_def same_shape_def)
  next
    case False
    obtain b a1 where a1: "allocate_dynamic a idx ok junk = Some (False, a1)" "buffer a1 = Some b" "dyn_ok a1"
      "same_shape a a1" "elements a1 = elements a" "idx < max_element a1"
      "\<forall>j<elements a. chunk ?s b j = chunk ?s (block_of a) j"
      using allocate_dynamic_ok [OF a room ok, of junk] by blast
    have s1: "size_of_element a1 = ?s" using a1(4) by (simp add: same_shape_def)
    have c1: "contents a1 = contents a"
      by (rule nth_equalityI) (use a1 s1 in \<open>auto simp: contents_nth block_of_def\<close>)
    obtain b2 x where w: "write_element a1 (elements a1 * ?s) (replicate ((idx - elements a1) * ?s) 0) = Some (a1\<lparr>buffer := Some b2\<rparr>)"
      and ok2: "dyn_ok (a1\<lparr>buffer := Some b2, elements := idx + 1\<rparr>)"
      and c2: "contents (a1\<lparr>buffer := Some b2, elements := idx + 1\<rparr>) = contents a @ replicate (idx - elements a) ?z @ [x]"
      using extend_elements [OF a1(3,2), of idx] False a1(5,6) s1 c1 by auto
    let ?a2 = "a1\<lparr>buffer := Some b2, elements := idx + 1\<rparr>"
    have off: "uint_wrap (elements a1 * ?s) = elements a1 * ?s" "uint_wrap ((idx - elements a1) * ?s) = (idx - elements a1) * ?s"
      "uint_wrap (idx + 1) = idx + 1" "uint_wrap (idx * ?s) = idx * ?s"
      using offset_id(1) [OF a1(3), of "elements a1"] offset_id(1) [OF a1(3), of "idx - elements a1"]
        offset_id(1) [OF a1(3), of idx] a1(5,6) False dyn_okD(6) [OF a1(3)] s1 by (simp_all add: wrap_id)
    have all: "(if idx \<ge> max_element a then allocate_dynamic a idx ok junk else Some (False, a)) = Some (False, a1)"
      using a1(1) by (auto simp: allocate_dynamic_def)
    have "set_dynamic a e idx ok junk = write_element ?a2 (idx * ?s) e \<bind> (\<lambda>a'. Some (False, a'))"
      using False w off rb s1 unfolding set_dynamic_def all by simp
    moreover obtain b3 where "write_element ?a2 (idx * ?s) e = Some (?a2\<lparr>buffer := Some b3\<rparr>)"
      "dyn_ok (?a2\<lparr>buffer := Some b3\<rparr>)" "contents (?a2\<lparr>buffer := Some b3\<rparr>) = (contents ?a2)[idx := e]"
      using contents_write [OF ok2, of b2 idx e] a1(6) e s1 by auto
    moreover have "(contents a @ replicate (idx - elements a) ?z @ [x])[idx := e] =
        (contents a @ replicate (Suc idx - elements a) ?z)[idx := e]"
      by (rule nth_equalityI) (use False in \<open>auto simp: nth_list_update nth_append less_Suc_eq\<close>)
    ultimately show ?thesis using c2 a1(4) by (auto simp: same_shape_def)
  qed
qed


lemma freeze_size_ok:
  assumes a: "dyn_ok a" and s: "size_of_element a < 2 ^ 32"
  shows "dyn_ok (freeze_size a True junk)" "contents (freeze_size a True junk) = contents a"
    "same_shape a (freeze_size a True junk)"
proof -
  let ?s = "size_of_element a" and ?n = "max (elements a) 1"
  note d = dyn_okD [OF a]
  have n: "elements a * ?s \<le> ?n * ?s" by (rule mult_le_mono1) simp
  have ns: "?n * ?s < 2 ^ 32"
    using mult_le_mono1 [OF d(3), of ?s] d(4) s by (cases "elements a") (auto simp: max_def)
  have "dyn_ok (freeze_size a True junk) \<and> contents (freeze_size a True junk) = contents a \<and>
    same_shape a (freeze_size a True junk)"
  proof (cases "buffer_is_static a \<or> buffer a = None \<or> max_element a = ?n")
    case True
    then have "freeze_size a True junk = a" by (auto simp: freeze_size_def Let_def split: option.splits)
    then show ?thesis using a by (simp add: same_shape_def)
  next
    case False
    then obtain b where b: "buffer a = Some b" by auto
    let ?b = "map (\<lambda>i. if i < length b then b ! i else junk i) [0..<?n * ?s]"
    let ?a = "a\<lparr>buffer := Some ?b, max_element := ?n\<rparr>"
    have eq: "freeze_size a True junk = ?a"
      using False b wrap_id [OF ns] by (simp add: freeze_size_def realloc_slots_def Let_def)
    have "chunk ?s ?b j = chunk ?s b j" if "j < elements a" for j
      by (rule realloc_chunk [OF that]) (use offset_id(2) [OF a d(3)] b in \<open>auto simp: block_of_def\<close>)
    then have "contents ?a = contents a"
      by (intro nth_equalityI) (use b in \<open>auto simp: contents_nth block_of_def\<close>)
    moreover have "dyn_ok ?a" using ns d by (auto simp: dyn_ok_def)
    ultimately show ?thesis unfolding eq by (simp add: same_shape_def)
  qed
  then show "dyn_ok (freeze_size a True junk)" "contents (freeze_size a True junk) = contents a"
    "same_shape a (freeze_size a True junk)" by auto
qed

lemma init_dynamic_array2_ok:
  assumes s: "0 < s" "s * init_alloc < 2 ^ 32" "s * incr < 2 ^ 32" "s * 16 < 2 ^ 32" and n: "init_alloc * 2 < 2 ^ 32"
    and b: "buf = None \<or> (\<exists>b. buf = Some b \<and> length b = init_alloc * s \<and> init_alloc \<noteq> 0)"
  shows "\<exists>a. init_dynamic_array2 s buf init_alloc incr ok junk = Some a \<and> dyn_ok a \<and> contents a = [] \<and>
    size_of_element a = s"
proof -
  define inc where "inc = (if incr = 0 then
      if init_alloc > 8 \<and> max ((8192 - MALLOC_OVERHEAD) div s) 16 > init_alloc * 2 then init_alloc * 2
      else max ((8192 - MALLOC_OVERHEAD) div s) 16 else incr)"
  define k where "k = (if init_alloc = 0 then inc else init_alloc)"
  have inc: "0 < inc" by (auto simp: inc_def)
  have "s * (8184 div s) < 2 ^ 32" using times_div_less_eq_dividend [of s 8184] by (rule le_less_trans) simp
  then have "s * max ((8192 - MALLOC_OVERHEAD) div s) 16 < 2 ^ 32"
    using s(4) by (simp add: MALLOC_OVERHEAD_def max_def)
  moreover have "s * inc \<le> s * max ((8192 - MALLOC_OVERHEAD) div s) 16 \<or> inc = incr"
    by (auto simp: inc_def)
  ultimately have si: "s * inc < 2 ^ 32" using s(3) by (metis le_less_trans)
  then have sk: "k * s < 2 ^ 32" "uint_wrap (s * k) = k * s"
    using s(2) by (auto simp: k_def mult.commute wrap_id)
  let ?a = "\<lparr>buffer = None, buffer_is_static = False, elements = 0, max_element = k, alloc_increment = inc,
    size_of_element = s\<rparr>"
  have "init_dynamic_array2 s buf init_alloc incr ok junk =
    Some (if init_alloc \<noteq> 0 \<and> buf \<noteq> None then ?a\<lparr>buffer := buf, buffer_is_static := True\<rparr>
          else if ok then ?a\<lparr>buffer := Some (map junk [0..<k * s])\<rparr> else ?a\<lparr>max_element := 0\<rparr>)"
    using s(1) wrap_id [OF n] sk(2) b
    by (auto simp: init_dynamic_array2_def inc_def k_def malloc_slots_def Let_def)
  moreover have "dyn_ok (?a\<lparr>buffer := Some (map junk [0..<k * s])\<rparr>)" "dyn_ok (?a\<lparr>max_element := 0\<rparr>)"
    using s(1) inc sk(1) by (auto simp: dyn_ok_def)
  moreover have "dyn_ok (?a\<lparr>buffer := buf, buffer_is_static := True\<rparr>)" if "init_alloc \<noteq> 0 \<and> buf \<noteq> None"
    using that b s(1) inc sk(1) by (auto simp: dyn_ok_def k_def)
  ultimately show ?thesis by (auto simp: contents_def)
qed

lemma get_index_dynamic_ok:
  assumes a: "dyn_ok a" and i: "i < elements a" "k < size_of_element a" and small: "elements a < 2 ^ 31"
  shows "get_index_dynamic a (int (i * size_of_element a + k)) = Some (int i)"
proof -
  have "(i * size_of_element a + k) div size_of_element a = i" using i(2) by simp
  then show ?thesis
    using i small dyn_okD(1) [OF a] by (simp add: get_index_dynamic_def int_wrap_id nat_add_distrib nat_mult_distrib del: of_nat_add of_nat_mult)
qed

lemma emptied_ok:
  assumes "dyn_ok a"
  shows "dyn_ok (delete_dynamic a)" "contents (delete_dynamic a) = []"
    "dyn_ok (reset_dynamic a)" "contents (reset_dynamic a) = []"
  using assms by (auto simp: dyn_ok_def delete_dynamic_def reset_dynamic_def contents_def split: option.splits)

section \<open>Sequences that grow at the end\<close>

text \<open>What a client of a growing sequence relies on: an insertion appends while the sequence is shorter
  than its limit, and a read returns the element.\<close>

primrec push_all :: "('s \<Rightarrow> 'e \<Rightarrow> 's option) \<Rightarrow> 's \<Rightarrow> 'e list \<Rightarrow> 's option" where
  "push_all push a [] = Some a"
| "push_all push a (e # es) = push a e \<bind> (\<lambda>a'. push_all push a' es)"

locale growable =
  fixes inv :: "'s \<Rightarrow> bool" and conts :: "'s \<Rightarrow> 'e list" and push :: "'s \<Rightarrow> 'e \<Rightarrow> 's option"
    and get :: "'s \<Rightarrow> nat \<Rightarrow> 'e option" and elem_ok :: "'e \<Rightarrow> bool" and limit :: nat and default :: 'e
  assumes push_ok: "inv a \<Longrightarrow> elem_ok e \<Longrightarrow> length (conts a) < limit \<Longrightarrow>
      \<exists>a'. push a e = Some a' \<and> inv a' \<and> conts a' = conts a @ [e]"
    and get_ok: "inv a \<Longrightarrow> get a i = Some (if i < length (conts a) then conts a ! i else default)"
begin

lemma push_all_ok:
  assumes "inv a" "\<forall>e\<in>set es. elem_ok e" "length (conts a) + length es \<le> limit"
  shows "\<exists>a'. push_all push a es = Some a' \<and> inv a' \<and> conts a' = conts a @ es"
  using assms
proof (induction es arbitrary: a)
  case (Cons e es)
  then obtain a1 where a1: "push a e = Some a1" "inv a1" "conts a1 = conts a @ [e]"
    using push_ok [of a e] by auto
  then show ?case using Cons.IH [of a1] Cons.prems by auto
qed simp

lemma push_all_get:
  assumes "inv a" "conts a = []" "\<forall>e\<in>set es. elem_ok e" "length es \<le> limit"
  shows "\<exists>a'. push_all push a es = Some a' \<and> inv a' \<and>
    (\<forall>i. get a' i = Some (if i < length es then es ! i else default))"
  using push_all_ok [of a es] assms get_ok by auto

end

text \<open>
  The dynamic array with elements of \<open>s\<close> bytes is such a sequence, if the allocations succeed. Its
  limit is the largest number of elements whose block, with the increment, has a size that is a \<open>uint\<close>.
\<close>

definition dyn_inv :: "nat \<Rightarrow> nat \<Rightarrow> dynamic_array \<Rightarrow> bool" where
  "dyn_inv s inc a \<longleftrightarrow> dyn_ok a \<and> size_of_element a = s \<and> alloc_increment a = inc"

definition dyn_push :: "(nat \<Rightarrow> u8) \<Rightarrow> dynamic_array \<Rightarrow> u8 list \<Rightarrow> dynamic_array option" where
  "dyn_push junk a e =
     (case insert_dynamic a e True junk of Some (False, a') \<Rightarrow> Some a' | _ \<Rightarrow> None)"

definition dyn_limit :: "nat \<Rightarrow> nat \<Rightarrow> nat" where
  "dyn_limit s inc = Suc ((2 ^ 32 - 1) div s) - inc"

lemma dyn_limit_room:
  assumes "n < dyn_limit s inc" shows "(n + inc) * s < 2 ^ 32"
proof -
  have "(n + inc) * s \<le> ((2 ^ 32 - 1) div s) * s"
    by (rule mult_le_mono1) (use assms in \<open>unfold dyn_limit_def, linarith\<close>)
  also have "\<dots> \<le> 2 ^ 32 - 1" by (rule div_times_less_eq_dividend)
  finally show ?thesis by (simp add: le_less_trans)
qed

lemma dyn_push_ok:
  assumes "dyn_inv s inc a" "length e = s" "length (contents a) < dyn_limit s inc"
  shows "\<exists>a'. dyn_push junk a e = Some a' \<and> dyn_inv s inc a' \<and> contents a' = contents a @ [e]"
proof -
  have "(elements a + alloc_increment a) * size_of_element a < 2 ^ 32"
    using dyn_limit_room assms by (simp add: dyn_inv_def)
  then show ?thesis
    using insert_dynamic_ok [of a e True junk] assms(1,2)
    by (force simp: dyn_inv_def dyn_push_def same_shape_def)
qed

interpretation dyn: growable "dyn_inv s inc" contents "dyn_push junk" get_dynamic "\<lambda>e. length e = s"
    "dyn_limit s inc" "replicate s 0" for s inc junk
  by unfold_locales (rule dyn_push_ok, assumption+, simp add: get_dynamic_ok dyn_inv_def)

section \<open>Error paths\<close>

text \<open>
  When a static buffer is full and no memory is left, \<open>allocate_dynamic\<close> returns 0, which is success,
  and \<open>set_dynamic\<close> writes behind the buffer.
\<close>

lemma set_dynamic_static_overrun:
  assumes a: "dyn_ok a" "buffer_is_static a" and idx: "max_element a \<le> idx"
    and room: "(idx + alloc_increment a) * size_of_element a < 2 ^ 32"
  shows "set_dynamic a e idx False junk = None"
proof -
  let ?s = "size_of_element a" and ?inc = "alloc_increment a"
  note d = dyn_okD [OF a(1)]
  obtain b where b: "buffer a = Some b" using d(7) a(2) by (cases "buffer a") auto
  have len: "length b = max_element a * ?s" using d(5) b by (simp add: block_of_def)
  have all: "allocate_dynamic a idx False junk = Some (False, a)"
    using idx d(2) a(2) by (simp add: allocate_dynamic_def grow_buffer_def malloc_slots_def)
  have "idx * ?s \<le> (idx + ?inc) * ?s" by (rule mult_le_mono1) simp
  then have off: "uint_wrap (idx * ?s) = idx * ?s" using room by (intro wrap_id) (rule le_less_trans)
  have big: "\<not> idx * ?s + ?s \<le> length b"
    using mult_le_mono1 [OF idx, of ?s] d(1) len by linarith
  have el: "elements a \<le> idx" using d(3) idx by simp
  have w: "write_element a' (idx * ?s) bs = None"
    if "buffer a' = Some b'" "length b' = length b" "length bs = ?s" for a' b' bs
    using that big by (simp add: write_element_def write_block_def)
  have keep: "\<exists>b'. buffer a' = Some b' \<and> length b' = length b \<and> size_of_element a' = ?s"
    if "write_element a o1 z = Some a'" for a' o1 z
    using that b by (auto simp: write_element_def write_block_def split: if_splits)
  have "read_block e 0 ?s = None \<or> (\<exists>bs. read_block e 0 ?s = Some bs \<and> length bs = ?s)"
    by (auto simp: read_block_def)
  then show ?thesis
    using el idx all off
    by (cases "write_element a (uint_wrap (elements a * ?s)) (replicate (uint_wrap ((idx - elements a) * ?s)) 0)")
      (auto simp: set_dynamic_def w dest!: keep)
qed

text \<open>When \<open>freeze_size\<close> cannot shrink the block it loses it, but keeps the number of elements.\<close>

lemma freeze_size_loses_buffer:
  assumes "buffer a = Some b" "\<not> buffer_is_static a" "max_element a \<noteq> max (elements a) 1" "0 < elements a"
  shows "get_dynamic (freeze_size a False junk) 0 = None"
  using assms by (simp add: freeze_size_def realloc_slots_def get_dynamic_def Let_def)

text \<open>A pointer right behind the last element is given an index.\<close>

lemma get_index_dynamic_behind:
  assumes a: "dyn_ok a" and small: "elements a < 2 ^ 31"
  shows "get_index_dynamic a (int (elements a * size_of_element a)) = Some (int (elements a))"
  using dyn_okD(1) [OF a] small
  by (simp add: get_index_dynamic_def int_wrap_id nat_mult_distrib del: of_nat_mult)


section \<open>Properties\<close>

text \<open>C13: A dynamic array is a list of elements. On a well formed array with sizes that fit in a \<open>uint\<close>,
  \<open>insert_dynamic\<close> appends, or changes nothing and reports the failure when the array is full and no
  memory is left; \<open>set_dynamic\<close> replaces an element, after filling the gap with zeros where the index is
  behind the end; \<open>get_dynamic\<close> reads an element, or zeros behind the end; \<open>pop_dynamic\<close> takes off the
  last element and points at it; \<open>delete_dynamic_element\<close> closes the gap; \<open>freeze_size\<close> changes nothing;
  \<open>delete_dynamic\<close> and \<open>reset_dynamic\<close> leave the empty list. No operation leaves the block.
\<close>

theorem dynamic_array_refines_list:
  assumes a: "dyn_ok a" and e: "length e = size_of_element a"
    and room: "(max (elements a) idx + alloc_increment a) * size_of_element a < 2 ^ 32"
  shows
   "(\<exists>a'. insert_dynamic a e True junk = Some (False, a') \<and> dyn_ok a' \<and> contents a' = contents a @ [e]) \<and>
    (elements a = max_element a \<longrightarrow> insert_dynamic a e False junk = Some (True, a)) \<and>
    (\<exists>a'. set_dynamic a e idx True junk = Some (False, a') \<and> dyn_ok a' \<and> contents a' =
       (contents a @ replicate (Suc idx - elements a) (replicate (size_of_element a) 0))[idx := e]) \<and>
    get_dynamic a i = Some (if i < elements a then contents a ! i else replicate (size_of_element a) 0) \<and>
    (elements a \<noteq> 0 \<longrightarrow> (\<exists>off a'. pop_dynamic a = (Some off, a') \<and> dyn_ok a' \<and>
       contents a' = butlast (contents a) \<and>
       read_block (block_of a') off (size_of_element a) = Some (last (contents a)))) \<and>
    (i < elements a \<longrightarrow> (\<exists>a'. delete_dynamic_element a i = Some a' \<and> dyn_ok a' \<and>
       contents a' = take i (contents a) @ drop (Suc i) (contents a))) \<and>
    dyn_ok (freeze_size a True junk) \<and> contents (freeze_size a True junk) = contents a \<and>
    dyn_ok (delete_dynamic a) \<and> contents (delete_dynamic a) = [] \<and>
    dyn_ok (reset_dynamic a) \<and> contents (reset_dynamic a) = []"
proof -
  have room': "(elements a + alloc_increment a) * size_of_element a < 2 ^ 32"
    "(idx + alloc_increment a) * size_of_element a < 2 ^ 32"
    by (rule le_less_trans [OF mult_le_mono1 room], simp)+
  have "1 * size_of_element a \<le> (idx + alloc_increment a) * size_of_element a"
    by (rule mult_le_mono1) (use dyn_okD(2) [OF a] in simp)
  then have s: "size_of_element a < 2 ^ 32" using room'(2) by linarith
  show ?thesis
    using insert_dynamic_ok [OF a e room'(1), of True junk] insert_dynamic_ok [OF a e room'(1), of False junk]
      set_dynamic_ok [OF a e room'(2), of True junk] get_dynamic_ok [OF a, of i] pop_dynamic_ok [OF a]
      delete_dynamic_element_ok [OF a, of i] freeze_size_ok [OF a s, of junk] emptied_ok [OF a]
    by (intro conjI impI) (simp, blast | simp | blast)+
qed

text \<open>A full array of two elements of two bytes in a static buffer.\<close>

definition sample_array :: dynamic_array where
  "sample_array = \<lparr>buffer = Some [1, 2, 3, 4], buffer_is_static = True, elements = 2, max_element = 2,
     alloc_increment = 2, size_of_element = 2\<rparr>"

theorem dynamic_array_refines_list_witness:
  "contents sample_array = [[1, 2], [3, 4]] \<and>
   (\<exists>a'. insert_dynamic sample_array [5, 6] True (\<lambda>_. 0) = Some (False, a') \<and> dyn_ok a' \<and>
      contents a' = [[1, 2], [3, 4], [5, 6]]) \<and>
   insert_dynamic sample_array [5, 6] False (\<lambda>_. 0) = Some (True, sample_array) \<and>
   (\<exists>a'. set_dynamic sample_array [5, 6] 3 True (\<lambda>_. 0) = Some (False, a') \<and> dyn_ok a' \<and>
      contents a' = [[1, 2], [3, 4], [0, 0], [5, 6]]) \<and>
   (\<exists>a'. delete_dynamic_element sample_array 0 = Some a' \<and> dyn_ok a' \<and> contents a' = [[3, 4]])"
proof -
  have c: "contents sample_array = [[1, 2], [3, 4]]"
    by (simp add: contents_def sample_array_def chunk_def block_of_def upt_rec)
  have h: "dyn_ok sample_array" "length [5, 6 :: u8] = size_of_element sample_array"
    "(max (elements sample_array) 3 + alloc_increment sample_array) * size_of_element sample_array < 2 ^ 32"
    by (simp_all add: sample_array_def dyn_ok_def)
  have m: "elements sample_array = max_element sample_array" "0 < elements sample_array"
    "elements sample_array = 2" "size_of_element sample_array = 2" by (simp_all add: sample_array_def)
  have l: "([[1, 2], [3, 4]] @ replicate (Suc 3 - 2) (replicate 2 0))[3 := [5, 6]] =
    [[1, 2], [3, 4], [0, 0], [5, 6 :: u8]]" by code_simp
  show ?thesis
    using dynamic_array_refines_list [OF h, of "\<lambda>_. 0" 0] m(1,2)
    unfolding c m(3,4) l by simp
qed

text \<open>C34: Elements are read back as they were inserted. A fresh array takes any number of elements up to
  its limit, and \<open>get_dynamic\<close> then returns each of them under its index and zeros behind the last,
  whatever the initial size, the increment and the contents of fresh memory are.
\<close>

theorem inserted_elements_are_read_back:
  assumes s: "0 < s" "s * init_alloc < 2 ^ 32" "s * incr < 2 ^ 32" "s * 16 < 2 ^ 32" "init_alloc * 2 < 2 ^ 32"
    and es: "\<forall>e\<in>set es. length e = s"
    and init: "init_dynamic_array2 s None init_alloc incr ok junk = Some a"
    and n: "length es \<le> dyn_limit s (alloc_increment a)"
  shows "\<exists>a'. push_all (dyn_push junk) a es = Some a' \<and> dyn_ok a' \<and>
    (\<forall>i. get_dynamic a' i = Some (if i < length es then es ! i else replicate s 0))"
proof -
  have a: "dyn_inv s (alloc_increment a) a" "contents a = []"
    using init_dynamic_array2_ok [OF s, of None ok junk] init by (auto simp: dyn_inv_def)
  show ?thesis using dyn.push_all_get [OF a es n, of junk] by (auto simp: dyn_inv_def)
qed

theorem inserted_elements_are_read_back_witness:
  "\<exists>a a'. init_dynamic_array2 2 None 1 1 True (\<lambda>_. 0) = Some a \<and>
     push_all (dyn_push (\<lambda>_. 0)) a [[1, 2], [3, 4], [5, 6]] = Some a' \<and>
     get_dynamic a' 1 = Some [3, 4] \<and> get_dynamic a' 7 = Some [0, 0]"
proof -
  let ?a = "\<lparr>buffer = Some [0, 0], buffer_is_static = False, elements = 0, max_element = 1,
    alloc_increment = 1, size_of_element = 2\<rparr>"
  have init: "init_dynamic_array2 2 None 1 1 True (\<lambda>_. 0) = Some ?a"
    by (simp add: init_dynamic_array2_def malloc_slots_def uint_wrap_def upt_rec)
  have es: "\<forall>e\<in>set [[1, 2], [3, 4], [5, 6 :: u8]]. length e = 2" by simp
  have n: "length [[1, 2], [3, 4], [5, 6 :: u8]] \<le> dyn_limit 2 (alloc_increment ?a)"
    by (simp add: dyn_limit_def)
  obtain a' where a': "push_all (dyn_push (\<lambda>_. 0)) ?a [[1, 2], [3, 4], [5, 6]] = Some a'"
    "\<forall>i. get_dynamic a' i = Some (if i < 3 then [[1, 2], [3, 4], [5, 6]] ! i else replicate 2 0)"
    using inserted_elements_are_read_back [OF _ _ _ _ _ es init n] by auto
  show ?thesis
    using init a'(1) a'(2) [THEN spec, of 1] a'(2) [THEN spec, of 7] by (auto simp: numeral_2_eq_2)
qed

text \<open>C35: A full array in a static buffer, an index behind it and no memory left: \<open>set_dynamic\<close> writes
  outside the block. \<open>allocate_dynamic\<close> answers a failed allocation there with 0, its value for success.
\<close>

theorem set_dynamic_behind_static_buffer:
  assumes "dyn_ok a" "buffer_is_static a" "max_element a \<le> idx"
    and "(idx + alloc_increment a) * size_of_element a < 2 ^ 32"
  shows "allocate_dynamic a idx False junk = Some (False, a) \<and> set_dynamic a e idx False junk = None"
  using set_dynamic_static_overrun [OF assms] assms(2,3) dyn_okD(2) [OF assms(1)]
  by (simp add: allocate_dynamic_def grow_buffer_def malloc_slots_def)

theorem set_dynamic_behind_static_buffer_witness:
  "allocate_dynamic sample_array 2 False (\<lambda>_. 0) = Some (False, sample_array) \<and>
   set_dynamic sample_array [5, 6] 2 False (\<lambda>_. 0) = None"
  by (rule set_dynamic_behind_static_buffer) (simp_all add: sample_array_def dyn_ok_def)

end
