(* ===== verification/My_Time.thy ===== *)
theory My_Time
  imports Mysys_Prelude "HOL-Library.Signed_Division"
begin

text \<open>
  Calendar arithmetic and numeric date conversions: the value functions of
  \<^verbatim>\<open>sql-common/my_time.c\<close> and the day number functions, interval addition and time
  difference of \<^verbatim>\<open>sql/sql_time.cc\<close>.

  The members of \<open>MYSQL_TIME\<close> are natural numbers, as their C types are unsigned. Signed
  arithmetic is on \<open>int\<close> with C's truncating division (\<open>sdiv\<close>, \<open>smod\<close>). Where unsigned or
  64 bit arithmetic can wrap around for the values a caller may pass, the reduction is written
  out. \<open>calc_daynr\<close> is proved to count the days of the proleptic Gregorian calendar, and
  \<open>get_date_from_daynr\<close> to be its inverse.
\<close>

unbundle bit_operations_syntax

section \<open>Types and constants\<close>

datatype timestamp_type =
    MYSQL_TIMESTAMP_NONE
  | MYSQL_TIMESTAMP_ERROR
  | MYSQL_TIMESTAMP_DATE
  | MYSQL_TIMESTAMP_DATETIME
  | MYSQL_TIMESTAMP_TIME

record mysql_time =
  t_year :: nat
  t_month :: nat
  t_day :: nat
  t_hour :: nat
  t_minute :: nat
  t_second :: nat
  t_second_part :: nat
  t_neg :: bool
  t_type :: timestamp_type

definition set_zero_time :: "timestamp_type \<Rightarrow> mysql_time" where
  "set_zero_time ty =
     \<lparr>t_year = 0, t_month = 0, t_day = 0, t_hour = 0, t_minute = 0, t_second = 0,
      t_second_part = 0, t_neg = False, t_type = ty\<rparr>"

definition days_in_month :: "nat list" where
  "days_in_month = [31, 28, 31, 30, 31, 30, 31, 31, 30, 31, 30, 31, 0]"

definition YY_PART_YEAR :: nat where
  "YY_PART_YEAR = 70"

definition TIME_FUZZY_DATE :: u64 where
  "TIME_FUZZY_DATE = 1"

definition TIME_DATETIME_ONLY :: u64 where
  "TIME_DATETIME_ONLY = 2"

definition TIME_NO_ZERO_IN_DATE :: u64 where
  "TIME_NO_ZERO_IN_DATE = 65536 * 2 * 2 * 2 * 2 * 2 * 2 * 2"

definition TIME_NO_ZERO_DATE :: u64 where
  "TIME_NO_ZERO_DATE = TIME_NO_ZERO_IN_DATE * 2"

definition TIME_INVALID_DATES :: u64 where
  "TIME_INVALID_DATES = TIME_NO_ZERO_DATE * 2"

definition flag_set :: "u64 \<Rightarrow> u64 \<Rightarrow> bool" where
  "flag_set flags f \<longleftrightarrow> (flags AND f) \<noteq> 0"

definition TIME_MAX_HOUR :: nat where
  "TIME_MAX_HOUR = 838"

definition TIME_MAX_MINUTE :: nat where
  "TIME_MAX_MINUTE = 59"

definition TIME_MAX_SECOND :: nat where
  "TIME_MAX_SECOND = 59"

definition MAX_DAY_NUMBER :: int where
  "MAX_DAY_NUMBER = 3652424"

section \<open>Years, days and checks\<close>

definition calc_days_in_year :: "nat \<Rightarrow> nat" where
  "calc_days_in_year year =
     (if year mod 4 = 0 \<and> (year mod 100 \<noteq> 0 \<or> (year mod 400 = 0 \<and> year \<noteq> 0)) then 366 else 365)"

definition year_2000_handling :: "nat \<Rightarrow> nat" where
  "year_2000_handling year =
     (let year = uint_wrap (year + 1900) in
      if year < 1900 + YY_PART_YEAR then year + 100 else year)"

text \<open>\<open>check_date\<close> yields the new value of \<open>*was_cut\<close> and the result.\<close>

definition check_date :: "mysql_time \<Rightarrow> bool \<Rightarrow> u64 \<Rightarrow> nat \<Rightarrow> (nat \<times> bool) option" where
  "check_date ltime not_zero_date flags was_cut =
     (if not_zero_date then
        if (flag_set flags TIME_NO_ZERO_IN_DATE \<or> \<not> flag_set flags TIME_FUZZY_DATE) \<and>
           (t_month ltime = 0 \<or> t_day ltime = 0)
        then Some (2, True)
        else if \<not> flag_set flags TIME_INVALID_DATES \<and> t_month ltime \<noteq> 0 then
          do { dim \<leftarrow> aget days_in_month (t_month ltime - 1);
               if t_day ltime > dim \<and>
                  (t_month ltime \<noteq> 2 \<or> calc_days_in_year (t_year ltime) \<noteq> 366 \<or> t_day ltime \<noteq> 29)
               then Some (2, True) else Some (was_cut, False) }
        else Some (was_cut, False)
      else if flag_set flags TIME_NO_ZERO_DATE then Some (was_cut, True)
      else Some (was_cut, False))"

definition validate_timestamp_range :: "mysql_time \<Rightarrow> bool" where
  "validate_timestamp_range t =
     (if (t_year t > 2038 \<or> t_year t < 1900 + YY_PART_YEAR - 1) \<or>
         (t_year t = 2038 \<and> (t_month t > 1 \<or> t_day t > 19)) \<or>
         (t_year t = 1900 + YY_PART_YEAR - 1 \<and> (t_month t < 12 \<or> t_day t < 31))
      then False else True)"

text \<open>The result, the changed value and whether \<open>MYSQL_TIME_WARN_OUT_OF_RANGE\<close> is set.\<close>

definition check_time_range :: "mysql_time \<Rightarrow> bool \<times> mysql_time \<times> bool" where
  "check_time_range t =
     (if t_minute t \<ge> 60 \<or> t_second t \<ge> 60 then (True, t, False)
      else
        let hour = uint_wrap (t_hour t + uint_wrap (24 * t_day t)) in
        if hour \<le> TIME_MAX_HOUR \<and>
           (hour \<noteq> TIME_MAX_HOUR \<or> t_minute t \<noteq> TIME_MAX_MINUTE \<or> t_second t \<noteq> TIME_MAX_SECOND \<or>
            t_second_part t = 0)
        then (False, t, False)
        else
          (False,
           t\<lparr>t_day := 0, t_hour := TIME_MAX_HOUR, t_minute := TIME_MAX_MINUTE,
             t_second := TIME_MAX_SECOND, t_second_part := 0\<rparr>, True))"

section \<open>Day numbers\<close>

definition calc_daynr :: "nat \<Rightarrow> nat \<Rightarrow> nat \<Rightarrow> int option" where
  "calc_daynr year month day =
     (let y = int_wrap (int year) in
      if y = 0 \<and> month = 0 then Some 0
      else do {
        days \<leftarrow> c_int (365 * y);
        months \<leftarrow> c_int (int_wrap (int month) - 1);
        months \<leftarrow> c_int (31 * months);
        delsum \<leftarrow> c_int (days + months);
        delsum \<leftarrow> c_int (delsum + int_wrap (int day));
        (y, delsum) \<leftarrow>
          (if month \<le> 2 then do { y \<leftarrow> c_int (y - 1); Some (y, delsum) }
           else do { m \<leftarrow> c_int (int_wrap (int month) * 4);
                     m \<leftarrow> c_int (m + 23);
                     Some (y, delsum - m sdiv 10) });
        let temp = ((y sdiv 100 + 1) * 3) sdiv 4;
        dbug_assert (delsum + y sdiv 4 - temp \<ge> 0);
        Some (delsum + y sdiv 4 - temp)
      })"

definition calc_weekday :: "int \<Rightarrow> bool \<Rightarrow> int" where
  "calc_weekday daynr sunday_first_day_of_week =
     (daynr + 5 + (if sunday_first_day_of_week then 1 else 0)) smod 7"

text \<open>The year loop of \<open>get_date_from_daynr\<close>; it returns the year, the day of that year and its
  length.\<close>

function year_loop :: "nat \<Rightarrow> nat \<Rightarrow> nat \<times> nat \<times> nat" where
  "year_loop year day_of_year =
     (let days_in_year = calc_days_in_year year in
      if day_of_year > days_in_year then year_loop (year + 1) (day_of_year - days_in_year)
      else (year, day_of_year, days_in_year))"
  by auto
termination
  by (relation "measure snd") (auto simp: calc_days_in_year_def)

text \<open>The month loop walks over \<open>days_in_month\<close> from \<open>month_pos\<close>.\<close>

fun month_loop :: "nat \<Rightarrow> nat list \<Rightarrow> nat \<Rightarrow> (nat \<times> nat) option" where
  "month_loop day_of_year [] ret_month = None"
| "month_loop day_of_year (dim # month_pos) ret_month =
     (if day_of_year > dim then month_loop (day_of_year - dim) month_pos (ret_month + 1)
      else Some (ret_month, day_of_year))"

definition get_date_from_daynr :: "int \<Rightarrow> (nat \<times> nat \<times> nat) option" where
  "get_date_from_daynr daynr =
     (if daynr \<le> 365 \<or> daynr \<ge> 3652500 then Some (0, 0, 0)
      else
        let year = nat (daynr * 100 sdiv 36525);
            temp = (((year - 1) div 100 + 1) * 3) div 4;
            day_of_year = nat ((daynr - int year * 365 - int ((year - 1) div 4) + int temp) mod 2 ^ 32);
            (year, day_of_year, days_in_year) = year_loop year day_of_year;
            (day_of_year, leap_day) =
              (if days_in_year = 366 \<and> day_of_year > 31 + 28
               then (day_of_year - 1, if day_of_year - 1 = 31 + 28 then 1 else 0)
               else (day_of_year, 0))
        in do { (ret_month, d) \<leftarrow> month_loop day_of_year days_in_month 1;
                Some (year, ret_month, d + leap_day) })"

definition convert_period_to_month :: "nat \<Rightarrow> nat" where
  "convert_period_to_month period =
     (if period = 0 then 0
      else
        let a = period div 100;
            a = (if a < YY_PART_YEAR then a + 2000 else if a < 100 then a + 1900 else a);
            b = period mod 100
        in (a * 12 + b + 2 ^ 64 - 1) mod 2 ^ 64)"

definition convert_month_to_period :: "nat \<Rightarrow> nat" where
  "convert_month_to_period month =
     (if month = 0 then 0
      else
        let year = month div 12;
            year = (if year < 100 then year + (if year < YY_PART_YEAR then 2000 else 1900) else year)
        in (year * 100 + month mod 12 + 1) mod 2 ^ 64)"

section \<open>Numeric conversions\<close>

definition ull :: "nat \<Rightarrow> nat" where
  "ull n = n mod 2 ^ 64"

definition TIME_to_ulonglong_date :: "mysql_time \<Rightarrow> nat" where
  "TIME_to_ulonglong_date t = ull (t_year t * 10000 + t_month t * 100 + t_day t)"

definition TIME_to_ulonglong_time :: "mysql_time \<Rightarrow> nat" where
  "TIME_to_ulonglong_time t = ull (t_hour t * 10000 + t_minute t * 100 + t_second t)"

definition TIME_to_ulonglong_datetime :: "mysql_time \<Rightarrow> nat" where
  "TIME_to_ulonglong_datetime t =
     ull ((t_year t * 10000 + t_month t * 100 + t_day t) * 1000000 +
          (t_hour t * 10000 + t_minute t * 100 + t_second t))"

definition TIME_to_ulonglong :: "mysql_time \<Rightarrow> nat" where
  "TIME_to_ulonglong t =
     (case t_type t of
        MYSQL_TIMESTAMP_DATETIME \<Rightarrow> TIME_to_ulonglong_datetime t
      | MYSQL_TIMESTAMP_DATE \<Rightarrow> TIME_to_ulonglong_date t
      | MYSQL_TIMESTAMP_TIME \<Rightarrow> TIME_to_ulonglong_time t
      | MYSQL_TIMESTAMP_NONE \<Rightarrow> 0
      | MYSQL_TIMESTAMP_ERROR \<Rightarrow> 0)"

definition my_time_compare :: "mysql_time \<Rightarrow> mysql_time \<Rightarrow> int" where
  "my_time_compare a b =
     (let a_t = TIME_to_ulonglong_datetime a; b_t = TIME_to_ulonglong_datetime b in
      if a_t < b_t then -1 else if a_t > b_t then 1
      else if t_second_part a < t_second_part b then -1
      else if t_second_part a > t_second_part b then 1
      else 0)"

text \<open>
  The first part of \<open>number_to_datetime\<close>: the number in the form YYYYMMDDHHMMSS and the
  type of the value, or \<^term>\<open>None\<close> for the jumps to \<open>err\<close>.
\<close>

definition normalize_nr :: "int \<Rightarrow> u64 \<Rightarrow> (int \<times> timestamp_type) option" where
  "normalize_nr nr flags =
     (if nr = 0 \<or> nr \<ge> 10000101000000 then Some (nr, MYSQL_TIMESTAMP_DATETIME)
      else if nr < 101 then None
      else if nr \<le> (int YY_PART_YEAR - 1) * 10000 + 1231 then
        Some ((nr + 20000000) * 1000000, MYSQL_TIMESTAMP_DATE)
      else if nr < int YY_PART_YEAR * 10000 + 101 then None
      else if nr \<le> 991231 then Some ((nr + 19000000) * 1000000, MYSQL_TIMESTAMP_DATE)
      else if nr < 10000101 \<and> \<not> flag_set flags TIME_FUZZY_DATE then None
      else if nr \<le> 99991231 then Some (nr * 1000000, MYSQL_TIMESTAMP_DATE)
      else if nr < 101000000 then None
      else if nr \<le> (int YY_PART_YEAR - 1) * 10000000000 + 1231235959 then
        Some (nr + 20000000000000, MYSQL_TIMESTAMP_DATETIME)
      else if nr < int YY_PART_YEAR * 10000000000 + 101000000 then None
      else if nr \<le> 991231235959 then Some (nr + 19000000000000, MYSQL_TIMESTAMP_DATETIME)
      else Some (nr, MYSQL_TIMESTAMP_DATETIME))"

text \<open>The result, the broken-down value and \<open>*was_cut\<close>. On the jumps from the first part to
  \<open>err\<close> the value is the cleared one.\<close>

definition number_to_datetime :: "int \<Rightarrow> u64 \<Rightarrow> (int \<times> mysql_time \<times> nat) option" where
  "number_to_datetime nr flags =
     (case normalize_nr nr flags of
        None \<Rightarrow>
          Some (- 1,
            set_zero_time
              (if 101000000 \<le> nr then MYSQL_TIMESTAMP_DATETIME else MYSQL_TIMESTAMP_DATE), 1)
      | Some (nr, ty) \<Rightarrow>
          let part1 = nr sdiv 1000000;
              part2 = nr - part1 * 1000000;
              t = \<lparr>t_year = nat (part1 sdiv 10000), t_month = nat (part1 smod 10000 sdiv 100),
                   t_day = nat (part1 smod 10000 smod 100), t_hour = nat (part2 sdiv 10000),
                   t_minute = nat (part2 smod 10000 sdiv 100),
                   t_second = nat (part2 smod 10000 smod 100),
                   t_second_part = 0, t_neg = False, t_type = ty\<rparr>
          in
          do { (was_cut, ok) \<leftarrow>
                 (if t_year t \<le> 9999 \<and> t_month t \<le> 12 \<and> t_day t \<le> 31 \<and> t_hour t \<le> 23 \<and>
                     t_minute t \<le> 59 \<and> t_second t \<le> 59
                  then do { (was_cut, bad) \<leftarrow> check_date t (nr \<noteq> 0) flags 0; Some (was_cut, \<not> bad) }
                  else Some (0, False));
               if ok then Some (nr, t, was_cut)
               else if nr = 0 \<and> flag_set flags TIME_NO_ZERO_DATE then Some (- 1, t, was_cut)
               else Some (- 1, t, 1) })"

text \<open>Conversion to \<open>longlong\<close>.\<close>

definition s64 :: "int \<Rightarrow> int" where
  "s64 n = (n + 2 ^ 63) mod 2 ^ 64 - 2 ^ 63"

definition calc_time_diff :: "mysql_time \<Rightarrow> mysql_time \<Rightarrow> int \<Rightarrow> (bool \<times> int \<times> int) option" where
  "calc_time_diff t1 t2 l_sign =
     do { days \<leftarrow>
            (if t_type t1 = MYSQL_TIMESTAMP_TIME then Some (int (t_day t1) - l_sign * int (t_day t2))
             else
               do { d1 \<leftarrow> calc_daynr (t_year t1) (t_month t1) (t_day t1);
                    if t_type t2 = MYSQL_TIMESTAMP_TIME then Some (d1 - l_sign * int (t_day t2))
                    else
                      do { d2 \<leftarrow> calc_daynr (t_year t2) (t_month t2) (t_day t2);
                           Some (d1 - l_sign * d2) } });
          microseconds \<leftarrow>
            c_long ((days * 86400 + int (t_hour t1 * 3600 + t_minute t1 * 60 + t_second t1)
              - l_sign * int (t_hour t2 * 3600 + t_minute t2 * 60 + t_second t2)) * 1000000);
          microseconds \<leftarrow> c_long (microseconds + s64 (int (t_second_part t1)));
          microseconds \<leftarrow> c_long (microseconds - l_sign * s64 (int (t_second_part t2)));
          (microseconds, neg) \<leftarrow>
            (if microseconds < 0 then do { m \<leftarrow> c_long (- microseconds); Some (m, True) }
             else Some (microseconds, False));
          Some (neg, microseconds sdiv 1000000, microseconds smod 1000000) }"

definition calc_time_from_sec :: "mysql_time \<Rightarrow> int \<Rightarrow> int \<Rightarrow> mysql_time" where
  "calc_time_from_sec to seconds microseconds =
     (let t_seconds = seconds smod 3600 in
      to\<lparr>t_type := MYSQL_TIMESTAMP_TIME, t_year := 0, t_month := 0, t_day := 0,
         t_hour := nat (seconds sdiv 3600 mod 2 ^ 32), t_minute := nat (t_seconds sdiv 60 mod 2 ^ 32),
         t_second := nat (t_seconds smod 60 mod 2 ^ 32),
         t_second_part := nat (microseconds mod 2 ^ 64)\<rparr>)"

section \<open>Adding intervals\<close>

datatype interval_type =
    INTERVAL_YEAR | INTERVAL_QUARTER | INTERVAL_MONTH | INTERVAL_WEEK | INTERVAL_DAY
  | INTERVAL_HOUR | INTERVAL_MINUTE | INTERVAL_SECOND | INTERVAL_MICROSECOND
  | INTERVAL_YEAR_MONTH | INTERVAL_DAY_HOUR | INTERVAL_DAY_MINUTE
  | INTERVAL_DAY_SECOND | INTERVAL_HOUR_MINUTE | INTERVAL_HOUR_SECOND
  | INTERVAL_MINUTE_SECOND | INTERVAL_DAY_MICROSECOND | INTERVAL_HOUR_MICROSECOND
  | INTERVAL_MINUTE_MICROSECOND | INTERVAL_SECOND_MICROSECOND | INTERVAL_LAST

record interval =
  i_year :: nat
  i_month :: nat
  i_day :: nat
  i_hour :: nat
  i_minute :: nat
  i_second :: nat
  i_second_part :: nat
  i_neg :: bool

text \<open>Reduction of \<open>uint\<close> arithmetic.\<close>

definition uw :: "int \<Rightarrow> int" where
  "uw n = n mod 2 ^ 32"

definition time_intervals :: "interval_type list" where
  "time_intervals =
     [INTERVAL_SECOND, INTERVAL_SECOND_MICROSECOND, INTERVAL_MICROSECOND, INTERVAL_MINUTE,
      INTERVAL_HOUR, INTERVAL_MINUTE_MICROSECOND, INTERVAL_MINUTE_SECOND,
      INTERVAL_HOUR_MICROSECOND, INTERVAL_HOUR_SECOND, INTERVAL_HOUR_MINUTE,
      INTERVAL_DAY_MICROSECOND, INTERVAL_DAY_SECOND, INTERVAL_DAY_MINUTE, INTERVAL_DAY_HOUR]"

definition add_time_interval :: "mysql_time \<Rightarrow> interval \<Rightarrow> int \<Rightarrow> (mysql_time \<times> bool) option" where
  "add_time_interval ltime iv sign =
     do {
      let microseconds = s64 (int (t_second_part ltime) + sign * int (i_second_part iv));
      let extra_sec = microseconds sdiv 1000000;
      let microseconds = microseconds smod 1000000;
      sec \<leftarrow> c_long (sign * s64 (int (i_day iv) * 3600 * 24 + int (i_hour iv) * 3600 + int (i_minute iv) * 60
                        + int (i_second iv)));
      sec \<leftarrow> c_long (uw ((int (t_day ltime) - 1) * 3600) * 24 + uw (int (t_hour ltime) * 3600) +
            uw (int (t_minute ltime) * 60) + int (t_second ltime) + sec);
      sec \<leftarrow> c_long (sec + extra_sec);
      (microseconds, sec) \<leftarrow>
        (if microseconds < 0 then do { sec \<leftarrow> c_long (sec - 1); Some (microseconds + 1000000, sec) }
         else Some (microseconds, sec));
      let days = sec sdiv (3600 * 24);
      let sec = sec - days * 3600 * 24;
      let (days, sec) = (if sec < 0 then (days - 1, sec + 3600 * 24) else (days, sec));
      let ltime = ltime\<lparr>t_type := MYSQL_TIMESTAMP_DATETIME, t_second_part := nat (uw microseconds),
        t_second := nat (uw (sec smod 60)), t_minute := nat (uw (sec sdiv 60 smod 60)),
        t_hour := nat (uw (sec sdiv 3600))\<rparr>;
      daynr1 \<leftarrow> calc_daynr (t_year ltime) (t_month ltime) 1;
      let daynr = daynr1 + days;
      if daynr < 0 \<or> daynr > MAX_DAY_NUMBER then Some (ltime, True)
      else
        do { (y, m, d) \<leftarrow> get_date_from_daynr daynr;
             Some (ltime\<lparr>t_year := y, t_month := m, t_day := d\<rparr>, False) }
     }"

definition add_day_interval :: "mysql_time \<Rightarrow> interval \<Rightarrow> int \<Rightarrow> (mysql_time \<times> bool) option" where
  "add_day_interval ltime iv sign =
     do { daynr \<leftarrow> calc_daynr (t_year ltime) (t_month ltime) (t_day ltime);
          period \<leftarrow> c_long (sign * s64 (int (i_day iv)));
          period \<leftarrow> c_long (daynr + period);
          if period < 0 \<or> period > MAX_DAY_NUMBER then Some (ltime, True)
          else
            do { (y, m, d) \<leftarrow> get_date_from_daynr period;
                 Some (ltime\<lparr>t_year := y, t_month := m, t_day := d\<rparr>, False) } }"

definition add_year_interval :: "mysql_time \<Rightarrow> interval \<Rightarrow> int \<Rightarrow> (mysql_time \<times> bool) option" where
  "add_year_interval ltime iv sign =
     do {
      years \<leftarrow> c_long (sign * s64 (int (i_year iv)));
      years \<leftarrow> c_long (int (t_year ltime) + years);
      let ltime = ltime\<lparr>t_year := nat (uw years)\<rparr>;
      if t_year ltime \<ge> 10000 then Some (ltime, True)
      else if t_month ltime = 2 \<and> t_day ltime = 29 \<and> calc_days_in_year (t_year ltime) \<noteq> 366
      then Some (ltime\<lparr>t_day := 28\<rparr>, False)
      else Some (ltime, False)
     }"

definition add_month_interval :: "mysql_time \<Rightarrow> interval \<Rightarrow> int \<Rightarrow> (mysql_time \<times> bool) option" where
  "add_month_interval ltime iv sign =
     do {
      years \<leftarrow> c_long (sign * s64 (int (i_year iv)));
      years \<leftarrow> c_long (years * 12);
      period \<leftarrow> c_long (uw (int (t_year ltime) * 12) + years);
      period \<leftarrow> c_long (period + int (t_month ltime));
      period \<leftarrow> c_long (period - 1);
      months \<leftarrow> c_long (sign * s64 (int (i_month iv)));
      period \<leftarrow> c_long (period + months);
      if period < 0 \<or> period \<ge> 120000 then Some (ltime, True)
      else
        let ltime = ltime\<lparr>t_year := nat (period sdiv 12), t_month := nat (period smod 12) + 1\<rparr> in
        do { dim \<leftarrow> aget days_in_month (t_month ltime - 1);
             if t_day ltime > dim then
               Some (ltime\<lparr>t_day := (if t_month ltime = 2 \<and> calc_days_in_year (t_year ltime) = 366
                                   then dim + 1 else dim)\<rparr>, False)
             else Some (ltime, False) }
     }"

text \<open>The changed value and the result, true for an error.\<close>

definition date_add_interval ::
  "mysql_time \<Rightarrow> interval_type \<Rightarrow> interval \<Rightarrow> (mysql_time \<times> bool) option" where
  "date_add_interval ltime int_type iv =
     (let ltime = ltime\<lparr>t_neg := False\<rparr>;
          sign = (if i_neg iv then - 1 else 1)
      in
      if int_type \<in> set time_intervals then add_time_interval ltime iv sign
      else if int_type = INTERVAL_DAY \<or> int_type = INTERVAL_WEEK then add_day_interval ltime iv sign
      else if int_type = INTERVAL_YEAR then add_year_interval ltime iv sign
      else if int_type = INTERVAL_YEAR_MONTH \<or> int_type = INTERVAL_QUARTER \<or> int_type = INTERVAL_MONTH
      then add_month_interval ltime iv sign
      else Some (ltime, True))"

section \<open>The calendar\<close>

text \<open>
  The reference: years are added up one by one, the months of a year one by one. The first day
  of year 0 has number 1.
\<close>

definition month_days :: "nat \<Rightarrow> nat \<Rightarrow> nat" where
  "month_days y m =
     (if m = 2 \<and> calc_days_in_year y = 366 then 29 else days_in_month ! (m - 1))"

definition valid_date :: "nat \<Rightarrow> nat \<Rightarrow> nat \<Rightarrow> bool" where
  "valid_date y m d \<longleftrightarrow> 1 \<le> m \<and> m \<le> 12 \<and> 1 \<le> d \<and> d \<le> month_days y m"

definition days_before_year :: "nat \<Rightarrow> nat" where
  "days_before_year y = (\<Sum>k<y. calc_days_in_year k)"

definition days_before_month :: "nat \<Rightarrow> nat \<Rightarrow> nat" where
  "days_before_month y m = (\<Sum>j<m - 1. month_days y (j + 1))"

definition day_number :: "nat \<Rightarrow> nat \<Rightarrow> nat \<Rightarrow> nat" where
  "day_number y m d = days_before_year y + days_before_month y m + d"

lemma calc_days_in_year_count:
  assumes "z \<noteq> 0"
  shows "calc_days_in_year z + (if z mod 100 = 0 then 1 else 0) =
    365 + (if z mod 4 = 0 then 1 else 0) + (if z mod 400 = 0 then 1 else 0)"
proof -
  have "z mod 400 = 0 \<longrightarrow> z mod 100 = 0" "z mod 100 = 0 \<longrightarrow> z mod 4 = 0"
    unfolding mod_eq_0_iff_dvd by (auto elim: dvd_trans [rotated])
  moreover obtain a b c where abc: "(z mod 4 = 0) = a" "(z mod 100 = 0) = b" "(z mod 400 = 0) = c"
    by blast
  ultimately have "c \<longrightarrow> b" "b \<longrightarrow> a" by simp_all
  moreover have "calc_days_in_year z = (if a \<and> (\<not> b \<or> c) then 366 else 365)"
    using assms by (simp only: calc_days_in_year_def abc simp_thms)
  ultimately show ?thesis unfolding abc by auto
qed

lemma year_step_arith:
  "D' = D + c \<Longrightarrow> c + b = 365 + a + e \<Longrightarrow> d4' = d4 + a \<Longrightarrow> d100' = d100 + b \<Longrightarrow> d400' = d400 + e \<Longrightarrow>
   D + d100 = 365 * s + d4 + d400 \<Longrightarrow> D' + d100' = 365 * Suc s + d4' + d400'"
  for D :: nat
  by simp

lemma days_before_year_Suc:
  "days_before_year (Suc y) + y div 100 = 365 * Suc y + y div 4 + y div 400"
proof (induction y)
  case 0
  then show ?case by (simp add: days_before_year_def calc_days_in_year_def)
next
  case (Suc y)
  have s: "days_before_year (Suc (Suc y)) = days_before_year (Suc y) + calc_days_in_year (Suc y)"
    by (simp add: days_before_year_def)
  have d: "Suc y div k = y div k + (if Suc y mod k = 0 then 1 else 0)" for k
    by (simp add: div_Suc)
  show ?case
    by (rule year_step_arith [OF s calc_days_in_year_count [OF Suc_not_Zero] d d d Suc])
qed

lemma century_term: "((c + 1) * 3) div 4 = c - c div 4" for c :: nat
  by presburger

lemma sdiv_nonneg: "0 \<le> a \<Longrightarrow> 0 < b \<Longrightarrow> a sdiv b = a div (b :: int)"
  by (simp add: signed_divide_int_def sgn_if)

text \<open>The leap day terms of \<open>calc_daynr\<close> for a year that has been completed.\<close>

lemma leap_terms:
  "int y sdiv 4 - ((int y sdiv 100 + 1) * 3) sdiv 4 = int (days_before_year (Suc y)) - 365 * (int y + 1)"
proof -
  have "((int y sdiv 100 + 1) * 3) sdiv 4 = int (((y div 100 + 1) * 3) div 4)"
    by (simp add: sdiv_nonneg zdiv_int)
  moreover have "((y div 100 + 1) * 3) div 4 = y div 100 - y div 400"
    using century_term [of "y div 100"] by (simp add: div_mult2_eq [symmetric])
  moreover have "y div 400 \<le> y div 100" by (intro div_le_mono2) auto
  moreover have "int y sdiv 4 = int (y div 4)" by (simp add: sdiv_nonneg zdiv_int)
  moreover have "int (days_before_year (Suc y) + y div 100) = int (365 * Suc y + y div 4 + y div 400)"
    by (simp only: days_before_year_Suc)
  ultimately show ?thesis by (simp add: of_nat_diff del: of_nat_div zdiv_int)
qed

lemma month_cases:
  "1 \<le> m \<Longrightarrow> m \<le> (12 :: nat) \<Longrightarrow>
     m = 1 \<or> m = 2 \<or> m = 3 \<or> m = 4 \<or> m = 5 \<or> m = 6 \<or> m = 7 \<or> m = 8 \<or> m = 9 \<or> m = 10 \<or> m = 11 \<or> m = 12"
  by presburger

lemma month_sum_simps:
  "sum f {..<0} = 0" "sum f {..<numeral k} = sum f {..<pred_numeral k} + f (pred_numeral k)"
  for f :: "nat \<Rightarrow> nat"
  by (simp_all add: numeral_eq_Suc lessThan_Suc)

lemma days_before_month_eq:
  assumes "1 \<le> m" "m \<le> 12"
  shows "days_before_month y m =
    (if m \<le> 2 then 31 * (m - 1)
     else 31 * (m - 1) - (m * 4 + 23) div 10 + (calc_days_in_year y - 365))"
proof -
  have ly: "calc_days_in_year y = 365 \<or> calc_days_in_year y = 366"
    by (simp add: calc_days_in_year_def)
  show ?thesis
    using ly month_cases [OF assms] unfolding days_before_month_def month_days_def days_in_month_def
    by (elim disjE) (simp_all add: month_sum_simps)
qed

lemma calc_daynr_in_range:
  assumes "1 \<le> m" "m \<le> 12" "365 * y + 31 * (m - 1) + d < 2 ^ 31"
  shows "calc_daynr y m d =
    (let delsum = 365 * int y + 31 * (int m - 1) + int d;
         (y, delsum) = (if m \<le> 2 then (int y - 1, delsum) else (int y, delsum - (int m * 4 + 23) sdiv 10));
         r = delsum + y sdiv 4 - ((y sdiv 100 + 1) * 3) sdiv 4
     in do { dbug_assert (r \<ge> 0); Some r })"
proof -
  have "int (365 * y + 31 * (m - 1) + d) < int (2 ^ 31)" using assms(3) by (simp only: of_nat_less_iff)
  then have b: "365 * int y + 31 * (int m - 1) + int d < 2 ^ 31" using assms(1) by (simp add: of_nat_diff)
  have w: "int_wrap (int y) = int y" "int_wrap (int m) = int m" "int_wrap (int d) = int d"
    using assms by (auto intro!: int_wrap_id)
  have c: "c_int (365 * int y) = Some (365 * int y)" "c_int (int m - 1) = Some (int m - 1)"
    "c_int (31 * (int m - 1)) = Some (31 * (int m - 1))"
    "c_int (365 * int y + 31 * (int m - 1)) = Some (365 * int y + 31 * (int m - 1))"
    "c_int (365 * int y + 31 * (int m - 1) + int d) = Some (365 * int y + 31 * (int m - 1) + int d)"
    "c_int (int y - 1) = Some (int y - 1)" "c_int (int m * 4) = Some (int m * 4)"
    "c_int (int m * 4 + 23) = Some (int m * 4 + 23)"
    using assms(1,2) b by (simp_all add: c_int_def)
  have nz: "\<not> (int y = 0 \<and> m = 0)" using assms(1) by simp
  show ?thesis
    unfolding calc_daynr_def w Let_def c bind.bind_lunit
    by (simp only: nz if_False c bind.bind_lunit split: if_split) simp
qed

lemma calc_daynr_eq:
  assumes "1 \<le> m" "m \<le> 12" "365 * y + 31 * (m - 1) + d < 2 ^ 31"
  shows "calc_daynr y m d = Some (int (day_number y m d))"
proof (cases "m \<le> 2")
  case True
  have "(int y - 1) sdiv 4 - (((int y - 1) sdiv 100 + 1) * 3) sdiv 4 = int (days_before_year y) - 365 * int y"
  proof (cases y)
    case 0
    then show ?thesis by (simp add: days_before_year_def signed_divide_int_def)
  next
    case (Suc k)
    then show ?thesis using leap_terms [of k] by simp
  qed
  then show ?thesis using True assms(1,2)
    by (simp add: calc_daynr_in_range [OF assms] Let_def day_number_def days_before_month_eq algebra_simps of_nat_diff)
next
  case False
  have "days_before_year (Suc y) = days_before_year y + calc_days_in_year y"
    by (simp add: days_before_year_def)
  moreover have "365 \<le> calc_days_in_year y" by (simp add: calc_days_in_year_def)
  moreover have "(int m * 4 + 23) sdiv 10 = int ((m * 4 + 23) div 10)"
    by (simp add: sdiv_nonneg zdiv_int)
  moreover have "(m * 4 + 23) div 10 \<le> 31 * (m - 1)" using False by linarith
  ultimately have R: "365 * int y + 31 * (int m - 1) + int d - (int m * 4 + 23) sdiv 10 + int y sdiv 4
      - ((int y sdiv 100 + 1) * 3) sdiv 4 = int (day_number y m d)" (is "?R = _")
    using False assms(1,2) leap_terms [of y]
    by (simp add: day_number_def days_before_month_eq of_nat_diff del: of_nat_div zdiv_int)
  have "calc_daynr y m d = do { dbug_assert (?R \<ge> 0); Some ?R }"
    using False by (simp add: calc_daynr_in_range [OF assms] Let_def)
  then show ?thesis unfolding R by simp
qed

lemma month_days_le: "1 \<le> m \<Longrightarrow> m \<le> 12 \<Longrightarrow> month_days y m \<le> 31"
  using month_cases [of m] by (auto simp: month_days_def days_in_month_def)

text \<open>The dates of the server's range are far inside the range of an \<open>int\<close>.\<close>

lemma calc_daynr_valid:
  assumes "valid_date y m d" "y \<le> 9999"
  shows "calc_daynr y m d = Some (int (day_number y m d))"
proof (rule calc_daynr_eq)
  show m: "1 \<le> m" "m \<le> 12" using assms by (auto simp: valid_date_def)
  then show "365 * y + 31 * (m - 1) + d < 2 ^ 31"
    using assms month_days_le [OF m, of y] by (auto simp: valid_date_def)
qed

section \<open>Inverting the day number\<close>

lemma days_before_year_step: "days_before_year (Suc y) = days_before_year y + calc_days_in_year y"
  by (simp add: days_before_year_def)

lemma days_before_year_mono: "y \<le> y' \<Longrightarrow> days_before_year y \<le> days_before_year y'"
  unfolding days_before_year_def by (intro sum_mono2) auto

lemma year_unique:
  assumes "days_before_year y + a = days_before_year y' + a'"
    and "1 \<le> a" "a \<le> calc_days_in_year y" "1 \<le> a'" "a' \<le> calc_days_in_year y'"
  shows "y = y' \<and> a = a'"
proof (rule linorder_cases [of y y'])
  assume "y < y'"
  then show ?thesis using days_before_year_mono [of "Suc y" y'] days_before_year_step [of y] assms by simp
next
  assume "y' < y"
  then show ?thesis using days_before_year_mono [of "Suc y'" y] days_before_year_step [of y'] assms by simp
qed (use assms in simp)

declare year_loop.simps [simp del]

lemma year_loop_ok:
  "1 \<le> doy \<Longrightarrow> year_loop year doy = (y', doy', L) \<Longrightarrow>
     days_before_year year + doy = days_before_year y' + doy' \<and> 1 \<le> doy' \<and> doy' \<le> L \<and>
     L = calc_days_in_year y'"
proof (induction year doy rule: year_loop.induct)
  case (1 year doy)
  show ?case
  proof (cases "calc_days_in_year year < doy")
    case True
    then have "1 \<le> doy - calc_days_in_year year"
      "year_loop (year + 1) (doy - calc_days_in_year year) = (y', doy', L)"
      using 1(3) by (simp_all add: year_loop.simps [of year doy] Let_def)
    from 1(1) [OF refl True this] show ?thesis using True by (simp add: days_before_year_step)
  next
    case False
    then show ?thesis using 1(2,3) by (auto simp: year_loop.simps [of year doy] Let_def)
  qed
qed

definition plain_days_before :: "nat \<Rightarrow> nat" where
  "plain_days_before m = (if m \<le> 2 then 31 * (m - 1) else 31 * (m - 1) - (m * 4 + 23) div 10)"

lemma month_loop_ok:
  assumes "1 \<le> m" "m \<le> 12" "1 \<le> d" "d \<le> days_in_month ! (m - 1)"
  shows "month_loop (plain_days_before m + d) days_in_month 1 = Some (m, d)"
  using month_cases [OF assms(1,2)] assms(3,4)
  by (elim disjE) (simp_all add: days_in_month_def plain_days_before_def)

lemma calc_days_cases: "calc_days_in_year y = 365 \<or> calc_days_in_year y = 366"
  by (simp add: calc_days_in_year_def)

lemma valid_date_day_of_year:
  assumes "valid_date y m d"
  shows "1 \<le> days_before_month y m + d" "days_before_month y m + d \<le> calc_days_in_year y"
proof -
  have m: "1 \<le> m" "m \<le> 12" and d: "1 \<le> d" "d \<le> month_days y m"
    using assms by (auto simp: valid_date_def)
  show "1 \<le> days_before_month y m + d" using d by simp
  show "days_before_month y m + d \<le> calc_days_in_year y"
    unfolding days_before_month_eq [OF m] using month_cases [OF m] calc_days_cases [of y] d(2)
    unfolding month_days_def by (elim disjE) (simp_all add: days_in_month_def)
qed

text \<open>The month and day that the last part of \<open>get_date_from_daynr\<close> finds in a year.\<close>

lemma month_part_ok:
  assumes "valid_date y m d" and L: "L = calc_days_in_year y" and doy: "doy = days_before_month y m + d"
  shows "(let (doy, leap_day) =
      (if L = 366 \<and> doy > 31 + 28 then (doy - 1, if doy - 1 = 31 + 28 then 1 else 0) else (doy, 0))
    in do { (ret_month, d) \<leftarrow> month_loop doy days_in_month 1; Some (y, ret_month, d + leap_day) }) =
    Some (y, m, d)"
proof -
  have m: "1 \<le> m" "m \<le> 12" and d: "1 \<le> d" "d \<le> month_days y m"
    using assms by (auto simp: valid_date_def)
  have dbm: "days_before_month y m =
      plain_days_before m + (if m \<le> 2 then 0 else calc_days_in_year y - 365)"
    unfolding days_before_month_eq [OF m] plain_days_before_def by simp
  consider "L = 365" | "L = 366" "m = 2" "d = 29" | "L = 366" "m \<le> 2" "\<not> (m = 2 \<and> d = 29)"
    | "L = 366" "m > 2"
    using calc_days_cases [of y] L by linarith
  then show ?thesis
  proof cases
    case 1
    then have "d \<le> days_in_month ! (m - 1)" using d L by (simp add: month_days_def)
    then show ?thesis using month_loop_ok [OF m d(1)] 1 doy dbm L by simp
  next
    case 2
    then show ?thesis using doy dbm month_loop_ok [of 2 28]
      by (simp add: plain_days_before_def days_in_month_def)
  next
    case 3
    then have "m = 1 \<or> m = 2 \<and> d \<le> 28" using m d L by (auto simp: month_days_def)
    then have "d \<le> days_in_month ! (m - 1)" using d by (auto simp: month_days_def days_in_month_def)
    moreover from this have "plain_days_before m + d \<le> 59"
      using 3 m by (cases "m = 1") (auto simp: plain_days_before_def days_in_month_def)
    ultimately show ?thesis using month_loop_ok [OF m d(1)] 3 doy dbm by simp
  next
    case 4
    then have dd: "d \<le> days_in_month ! (m - 1)" using d L by (auto simp: month_days_def)
    moreover have "59 < plain_days_before m + d"
      using month_cases [OF m] 4 d(1) by (elim disjE) (simp_all add: plain_days_before_def)
    ultimately show ?thesis using month_loop_ok [OF m d(1)] 4 doy dbm L by simp
  qed
qed

lemma year_estimate:
  assumes "365 < N"
  defines "Y \<equiv> N * 100 div 36525"
  shows "1 \<le> Y" "days_before_year Y < N"
    "int N - int Y * 365 - int ((Y - 1) div 4) + int ((((Y - 1) div 100 + 1) * 3) div 4) =
      int (N - days_before_year Y)"
proof -
  show Y1: "1 \<le> Y" using assms by (simp add: Y_def)
  then obtain k where k: "Y = Suc k" by (cases Y) auto
  have c: "k div 400 \<le> k div 100" by (intro div_le_mono2) auto
  note d = days_before_year_Suc [of k, folded k]
  have "100 * days_before_year Y \<le> 36500 * Y + 25 * k"
  proof -
    have "4 * (k div 4) \<le> k" by simp
    with c d show ?thesis by linarith
  qed
  also have "\<dots> < 36525 * Y" using k by simp
  also have "\<dots> \<le> N * 100" unfolding Y_def by (simp only: times_div_less_eq_dividend)
  finally show less: "days_before_year Y < N" by simp
  have t: "((k div 100 + 1) * 3) div 4 = k div 100 - k div 400"
    using century_term [of "k div 100"] by (simp only: div_mult2_eq [symmetric]) simp
  have "int (days_before_year Y + k div 100) = int (365 * Y + k div 4 + k div 400)"
    by (simp only: d)
  then have "int (days_before_year Y) + int (k div 100) = 365 * int Y + int (k div 4) + int (k div 400)"
    by (simp only: of_nat_add of_nat_mult of_nat_numeral)
  then show "int N - int Y * 365 - int ((Y - 1) div 4) + int ((((Y - 1) div 100 + 1) * 3) div 4) =
      int (N - days_before_year Y)"
    using less c unfolding k diff_Suc_1 t by (simp only: of_nat_diff less_imp_le)
qed

lemma get_date_from_daynr_eq:
  assumes v: "valid_date y m d" and N: "365 < day_number y m d" "day_number y m d < 3652500"
  shows "get_date_from_daynr (int (day_number y m d)) = Some (y, m, d)"
proof -
  let ?N = "day_number y m d"
  let ?Y = "?N * 100 div 36525"
  note e = year_estimate [OF N(1)]
  have Y: "nat (int ?N * 100 sdiv 36525) = ?Y"
    by (simp add: sdiv_nonneg nat_div_distrib nat_mult_distrib)
  have doy: "nat ((int ?N - int ?Y * 365 - int ((?Y - 1) div 4) + int ((((?Y - 1) div 100 + 1) * 3) div 4))
      mod 2 ^ 32) = ?N - days_before_year ?Y"
    unfolding e(3) using N by (simp add: nat_mod_distrib)
  obtain y' doy' L where l: "year_loop ?Y (?N - days_before_year ?Y) = (y', doy', L)"
    by (cases "year_loop ?Y (?N - days_before_year ?Y)") auto
  have pos: "1 \<le> ?N - days_before_year ?Y" using e(2) by linarith
  note yl = year_loop_ok [OF pos l]
  have "days_before_year y + (days_before_month y m + d) = days_before_year y' + doy'"
    using yl e(2) by (simp add: day_number_def)
  then have y: "y = y' \<and> days_before_month y m + d = doy'"
    using valid_date_day_of_year [OF v] yl e(2) by (intro year_unique) auto
  have L: "L = calc_days_in_year y" using yl e(2) y by simp
  have "get_date_from_daynr (int ?N) =
    (let (doy, leap_day) =
      (if L = 366 \<and> doy' > 31 + 28 then (doy' - 1, if doy' - 1 = 31 + 28 then 1 else 0) else (doy', 0))
    in do { (ret_month, d) \<leftarrow> month_loop doy days_in_month 1; Some (y', ret_month, d + leap_day) })"
    using N unfolding get_date_from_daynr_def Let_def Y doy l by (simp only: prod.case) simp
  moreover have y1: "y' = y" and y2: "doy' = days_before_month y m + d" using y by auto
  ultimately show ?thesis unfolding y1 month_part_ok [OF v L y2] by simp
qed

lemma find_segment:
  fixes f :: "nat \<Rightarrow> nat"
  assumes "f a < x" "x \<le> f b" "a \<le> b"
  shows "\<exists>m. a \<le> m \<and> m < b \<and> f m < x \<and> x \<le> f (Suc m)"
  using assms(3,2)
proof (induction b rule: dec_induct)
  case base
  then show ?case using assms(1) by simp
next
  case (step b)
  then show ?case
    by (cases "x \<le> f b") (auto intro: less_SucI exI [of _ b] simp: not_le)
qed

lemma days_before_month_Suc:
  "1 \<le> m \<Longrightarrow> days_before_month y (Suc m) = days_before_month y m + month_days y m"
  by (cases m) (auto simp: days_before_month_def)

lemma days_before_month_13: "days_before_month y 13 = calc_days_in_year y"
proof -
  have "days_before_month y 13 = days_before_month y 12 + month_days y 12"
    using days_before_month_Suc [of 12 y] by simp
  then show ?thesis using days_before_month_eq [of 12 y] calc_days_cases [of y]
    by (auto simp: month_days_def days_in_month_def)
qed

lemma day_number_surj:
  assumes "1 \<le> N"
  obtains y m d where "valid_date y m d" "day_number y m d = N"
proof -
  have "N div 100 \<le> N div 4" by (intro div_le_mono2) auto
  then have "N \<le> days_before_year (Suc N)" using days_before_year_Suc [of N] by simp
  then obtain y where y: "days_before_year y < N" "N \<le> days_before_year (Suc y)"
    using find_segment [of days_before_year 0 N "Suc N"] assms by (auto simp: days_before_year_def [of 0])
  let ?x = "N - days_before_year y"
  have "days_before_month y 1 < ?x" "?x \<le> days_before_month y 13"
    using y days_before_year_step [of y] by (auto simp: days_before_month_def [of _ "Suc 0"] days_before_month_13)
  then obtain m where m: "1 \<le> m" "m < 13" "days_before_month y m < ?x" "?x \<le> days_before_month y (Suc m)"
    using find_segment [of "days_before_month y" 1 ?x 13] by auto
  have "valid_date y m (?x - days_before_month y m)"
    using m days_before_month_Suc [of m y] by (auto simp: valid_date_def)
  moreover have "day_number y m (?x - days_before_month y m) = N" using m y by (simp add: day_number_def)
  ultimately show ?thesis using that by blast
qed

lemma days_before_year_10000: "days_before_year 10000 = 3652424"
  using days_before_year_Suc [of 9999] by simp

lemma day_number_less_iff:
  assumes "valid_date y m d"
  shows "days_before_year y < day_number y m d" "day_number y m d \<le> days_before_year (Suc y)"
  using valid_date_day_of_year [OF assms] by (auto simp: day_number_def days_before_year_step)

lemma day_number_bound:
  assumes "valid_date y m d" "y \<le> 9999"
  shows "day_number y m d < 3652500"
  using day_number_less_iff(2) [OF assms(1)] days_before_year_mono [of "Suc y" 10000] assms(2)
    days_before_year_10000 by simp

lemma day_number_le_year:
  assumes "valid_date y m d" "day_number y m d \<le> days_before_year k"
  shows "y < k"
proof (rule ccontr)
  assume "\<not> y < k"
  then have "days_before_year k \<le> days_before_year y" by (intro days_before_year_mono) simp
  then show False using day_number_less_iff(1) [OF assms(1)] assms(2) by simp
qed

text \<open>What \<open>get_date_from_daynr\<close> returns for every day number of the years 1 to 9999.\<close>

lemma get_date_ok:
  assumes "365 < n" "n \<le> MAX_DAY_NUMBER"
  obtains y m d where "get_date_from_daynr n = Some (y, m, d)" "valid_date y m d"
    "int (day_number y m d) = n" "1 \<le> y" "y \<le> 9999"
proof -
  have "1 \<le> nat n" using assms by simp
  then obtain y m d where v: "valid_date y m d" "day_number y m d = nat n"
    by (rule day_number_surj)
  then have n: "int (day_number y m d) = n" using assms by simp
  have "day_number y m d < 3652500" "365 < day_number y m d"
    using n assms by (auto simp: MAX_DAY_NUMBER_def)
  from get_date_from_daynr_eq [OF v(1) this(2,1)] have "get_date_from_daynr n = Some (y, m, d)"
    by (simp add: n)
  moreover have "y < 10000"
    using n assms by (intro day_number_le_year [OF v(1)]) (simp add: days_before_year_10000 MAX_DAY_NUMBER_def)
  moreover have "y \<noteq> 0"
  proof
    assume "y = 0"
    then show False
      using day_number_less_iff(2) [OF v(1)] n assms days_before_year_Suc [of 0] by simp
  qed
  ultimately show ?thesis using that v n by simp
qed

section \<open>Interval addition is exact\<close>

text \<open>A normalized value, and the microseconds from the day before 0000-01-01 to it.\<close>

definition valid_time :: "mysql_time \<Rightarrow> bool" where
  "valid_time t \<longleftrightarrow> valid_date (t_year t) (t_month t) (t_day t) \<and> t_year t \<le> 9999 \<and> t_hour t \<le> 23 \<and>
     t_minute t \<le> 59 \<and> t_second t \<le> 59 \<and> t_second_part t < 1000000"

definition time_usec :: "mysql_time \<Rightarrow> int" where
  "time_usec t =
     (int (day_number (t_year t) (t_month t) (t_day t)) * 86400 +
      int (t_hour t) * 3600 + int (t_minute t) * 60 + int (t_second t)) * 1000000 +
     int (t_second_part t)"

definition interval_usec :: "interval \<Rightarrow> int" where
  "interval_usec iv =
     (if i_neg iv then - 1 else 1) *
     ((int (i_day iv) * 86400 + int (i_hour iv) * 3600 + int (i_minute iv) * 60 + int (i_second iv)) *
        1000000 + int (i_second_part iv))"

definition interval_bounded :: "interval \<Rightarrow> bool" where
  "interval_bounded iv \<longleftrightarrow>
     i_year iv < 2 ^ 40 \<and> i_month iv < 2 ^ 40 \<and> i_day iv < 2 ^ 40 \<and> i_hour iv < 2 ^ 40 \<and>
     i_minute iv < 2 ^ 40 \<and> i_second iv < 2 ^ 40 \<and> i_second_part iv < 2 ^ 60"

lemma s64_id: "- (2 ^ 63) \<le> n \<Longrightarrow> n < 2 ^ 63 \<Longrightarrow> s64 n = n"
  by (simp add: s64_def)

lemma uw_id: "0 \<le> n \<Longrightarrow> n < 2 ^ 32 \<Longrightarrow> uw n = n"
  by (simp add: uw_def)

text \<open>Truncating division followed by the correction of a negative remainder is division that
  rounds down.\<close>

lemma trunc_to_floor:
  fixes a b s :: int
  assumes "0 < b"
  shows "(if a smod b < 0 then (a smod b + b, s + a sdiv b - 1) else (a smod b, s + a sdiv b)) =
    (a mod b, s + a div b)"
proof -
  have c: "(b \<noteq> 0 \<and> sgn a \<noteq> sgn b \<and> \<not> b dvd a) \<longleftrightarrow> a < 0 \<and> a mod b \<noteq> 0"
    using assms by (auto simp: sgn_if dvd_eq_mod_eq_0)
  have m: "0 \<le> a mod b" "a mod b < b" using assms by auto
  show ?thesis
  proof (cases "a < 0 \<and> a mod b \<noteq> 0")
    case True
    then show ?thesis using m c
      by (simp add: signed_divide_int_eq_divide_int signed_modulo_int_eq_modulo_int)
  next
    case False
    then show ?thesis using m c
      by (simp add: signed_divide_int_eq_divide_int signed_modulo_int_eq_modulo_int)
  qed
qed

lemma abs_sdiv_le:
  fixes a b :: int
  assumes "0 < b"
  shows "\<bar>a sdiv b\<bar> \<le> \<bar>a\<bar>"
proof -
  have le: "\<bar>a\<bar> div b \<le> \<bar>a\<bar>" using assms zdiv_mono2 [of "\<bar>a\<bar>" 1 b] by simp
  have nn: "0 \<le> \<bar>a\<bar> div b" using assms by (simp add: pos_imp_zdiv_nonneg_iff)
  have eq: "\<bar>a sdiv b\<bar> = \<bar>sgn a\<bar> * (\<bar>a\<bar> div b)"
    using assms nn by (simp add: signed_divide_int_def abs_mult)
  have "\<bar>sgn a\<bar> * (\<bar>a\<bar> div b) \<le> \<bar>a\<bar> div b"
    using mult_right_mono [OF _ nn, of "\<bar>sgn a\<bar>" 1] by (simp add: sgn_if)
  then show ?thesis unfolding eq using le by (rule order_trans)
qed

lemma c_long_sum:
  assumes "- (2 ^ 61) \<le> i" "i < 2 ^ 61" "0 \<le> k" "k < 2 ^ 40" "- (2 ^ 61) \<le> q" "q \<le> 2 ^ 61"
  shows "c_long i = Some i" "c_long (k + i) = Some (k + i)" "c_long (k + i + q) = Some (k + i + q)"
    "c_long (k + i + q - 1) = Some (k + i + q - 1)"
  using assms by (auto simp: c_long_def)

lemma floor_days:
  fixes sec :: int
  shows "(if sec - sec sdiv (3600 * 24) * 3600 * 24 < 0
      then (sec sdiv (3600 * 24) - 1, sec - sec sdiv (3600 * 24) * 3600 * 24 + 3600 * 24)
      else (sec sdiv (3600 * 24), sec - sec sdiv (3600 * 24) * 3600 * 24)) = (sec div 86400, sec mod 86400)"
proof -
  have "sec - sec sdiv (3600 * 24) * 3600 * 24 = sec smod 86400"
    using minus_sdiv_mult_eq_smod [of sec 86400] by simp
  moreover have "(3600 * 24 :: int) = 86400" by simp
  ultimately show ?thesis using trunc_to_floor [of 86400 sec 0] by (auto split: if_splits)
qed

lemma clamped_day_valid:
  assumes "1 \<le> m" "m \<le> 12" "1 \<le> d"
  shows "valid_date y m (min d (month_days y m))"
proof -
  have "1 \<le> month_days y m"
    using month_cases [OF assms(1,2)] by (auto simp: month_days_def days_in_month_def)
  then show ?thesis using assms by (simp add: valid_date_def)
qed

lemma radix_split: "V = X * k + M \<Longrightarrow> 0 < k \<Longrightarrow> V div k = X + M div k \<and> V mod k = M mod k" for k :: int
  by simp

lemma clock_fields:
  fixes x :: int
  assumes "0 \<le> x" "x < 86400"
  shows "uw (x smod 60) = x mod 60" "uw (x sdiv 60 smod 60) = x div 60 mod 60" "uw (x sdiv 3600) = x div 3600"
proof -
  have "x smod 60 = x mod 60" "x sdiv 60 smod 60 = x div 60 mod 60" "x sdiv 3600 = x div 3600"
    using assms by (simp_all add: sdiv_nonneg smod_mod_positive pos_imp_zdiv_nonneg_iff)
  moreover have "x div 3600 \<le> 86399 div 3600" using assms by (intro zdiv_mono1) auto
  then have "x div 3600 < 2 ^ 32" by simp
  moreover have "x mod 60 < 60" "x div 60 mod 60 < 60" by simp_all
  moreover have "0 \<le> x div 3600" using assms by (simp only: pos_imp_zdiv_nonneg_iff zero_less_numeral)
  moreover have "uw z = z" if "0 \<le> z" "z < 60" for z using that by (simp add: uw_id)
  ultimately show "uw (x smod 60) = x mod 60" "uw (x sdiv 60 smod 60) = x div 60 mod 60"
    "uw (x sdiv 3600) = x div 3600"
    by (simp_all only: pos_mod_sign zero_less_numeral uw_id)
qed

lemma add_time_interval_eq:
  assumes v: "valid_time t" and b: "interval_bounded iv" and sign: "sign = 1 \<or> sign = - 1"
  defines "V \<equiv> time_usec t + sign * ((int (i_day iv) * 86400 + int (i_hour iv) * 3600 +
    int (i_minute iv) * 60 + int (i_second iv)) * 1000000 + int (i_second_part iv))"
  defines "S \<equiv> V div 1000000"
  defines "r \<equiv> t\<lparr>t_type := MYSQL_TIMESTAMP_DATETIME, t_second_part := nat (V mod 1000000),
    t_second := nat (S mod 86400 mod 60), t_minute := nat (S mod 86400 div 60 mod 60),
    t_hour := nat (S mod 86400 div 3600)\<rparr>"
  shows "add_time_interval t iv sign =
    (if S div 86400 < 0 \<or> S div 86400 > MAX_DAY_NUMBER then Some (r, True)
     else do { (y, m, d) \<leftarrow> get_date_from_daynr (S div 86400);
               Some (r\<lparr>t_year := y, t_month := m, t_day := d\<rparr>, False) })"
proof -
  let ?M = "int (t_second_part t) + sign * int (i_second_part iv)"
  let ?I = "int (i_day iv) * 3600 * 24 + int (i_hour iv) * 3600 + int (i_minute iv) * 60 + int (i_second iv)"
  let ?T = "(int (t_day t) - 1) * 3600 * 24 + int (t_hour t) * 3600 + int (t_minute t) * 60 + int (t_second t)"
  let ?D = "int (day_number (t_year t) (t_month t) 1)"
  have md: "month_days (t_year t) (t_month t) \<le> 31" "1 \<le> t_month t" "t_month t \<le> 12"
    using v month_cases [of "t_month t"]
    by (auto simp: valid_time_def valid_date_def month_days_def days_in_month_def)
  have d: "1 \<le> t_day t" "t_day t \<le> 31" using v md(1) by (auto simp: valid_time_def valid_date_def)
  have ti: "t_hour t \<le> 23" "t_minute t \<le> 59" "t_second t \<le> 59" "t_second_part t < 1000000"
    using v by (auto simp: valid_time_def)
  have ib: "int (i_day iv) < 2 ^ 40" "int (i_hour iv) < 2 ^ 40" "int (i_minute iv) < 2 ^ 40"
    "int (i_second iv) < 2 ^ 40" "int (i_second_part iv) < 2 ^ 60"
    using b by (simp_all add: interval_bounded_def)
  let ?X = "?T + sign * ?I + ?M div 1000000"
  have M: "s64 ?M = ?M" using sign ib(5) ti(4) by (intro s64_id) auto
  have I: "s64 ?I = ?I" using ib by (intro s64_id) auto
  have u: "uw ((int (t_day t) - 1) * 3600) * 24 = (int (t_day t) - 1) * 3600 * 24"
    "uw (int (t_hour t) * 3600) = int (t_hour t) * 3600" "uw (int (t_minute t) * 60) = int (t_minute t) * 60"
    using d ti by (simp_all add: uw_id)
  have "V = (?D * 86400 + ?T + sign * ?I) * 1000000 + ?M"
    using d by (simp add: V_def time_usec_def day_number_def algebra_simps)
  from radix_split [OF this] have SV: "S = ?D * 86400 + (?T + sign * ?I + ?M div 1000000)"
    "V mod 1000000 = ?M mod 1000000"
    by (simp_all only: S_def)
  have SX: "S div 86400 = ?D + ?X div 86400" "S mod 86400 = ?X mod 86400"
    using radix_split [OF SV(1)] by simp_all
  have uM: "uw (?M mod 1000000) = ?M mod 1000000"
    by (rule uw_id) (auto intro: less_trans [OF pos_mod_bound])
  have X: "0 \<le> ?X mod 86400" "?X mod 86400 < 86400" by simp_all
  have r: "t\<lparr>t_type := MYSQL_TIMESTAMP_DATETIME, t_second_part := nat (?M mod 1000000),
    t_second := nat (?X mod 86400 mod 60), t_minute := nat (?X mod 86400 div 60 mod 60),
    t_hour := nat (?X mod 86400 div 3600)\<rparr> = r"
    by (simp only: r_def SX(2) SV(2))
  have "365 * t_year t + 31 * (t_month t - 1) + 1 < 2 ^ 31" using v md(3) by (auto simp: valid_time_def)
  note cd0 = calc_daynr_eq [OF md(2,3) this]
  have "t_year r = t_year t" "t_month r = t_month t" by (simp_all add: r_def)
  then have cd: "calc_daynr (t_year r) (t_month r) 1 = Some ?D" using cd0 by (simp only:)
  have sI: "- (2 ^ 61) \<le> sign * ?I" "sign * ?I < 2 ^ 61" using sign ib by auto
  have T: "0 \<le> ?T" "?T < 2 ^ 40" using d ti by auto
  have Mb: "- (2 ^ 61) \<le> ?M" "?M < 2 ^ 61" using sign ib(5) ti(4) by auto
  have "\<bar>?M sdiv 1000000\<bar> \<le> \<bar>?M\<bar>" by (rule abs_sdiv_le) simp
  then have Mq: "- (2 ^ 61) \<le> ?M sdiv 1000000" "?M sdiv 1000000 \<le> 2 ^ 61" using Mb by linarith+
  note c = c_long_sum [OF sI T Mq]
  have fl: "(if ?M smod 1000000 < 0
      then c_long (?T + sign * ?I + ?M sdiv 1000000 - 1) \<bind> (\<lambda>sec. Some (?M smod 1000000 + 1000000, sec))
      else Some (?M smod 1000000, ?T + sign * ?I + ?M sdiv 1000000)) = Some (?M mod 1000000, ?X)"
    using trunc_to_floor [of 1000000 ?M "?T + sign * ?I", OF zero_less_numeral]
    unfolding c(4) by (auto split: if_splits)
  show ?thesis
    unfolding add_time_interval_def Let_def M I u c(1-3) bind.bind_lunit fl prod.case floor_days
      clock_fields [OF X] uM r cd SX(1) ..
qed

lemma time_usec_div:
  assumes "t_hour t \<le> 23" "t_minute t \<le> 59" "t_second t \<le> 59" "t_second_part t < 1000000"
  shows "time_usec t div 1000000 div 86400 = int (day_number (t_year t) (t_month t) (t_day t))"
proof -
  let ?c = "int (t_hour t) * 3600 + int (t_minute t) * 60 + int (t_second t)"
  let ?n = "int (day_number (t_year t) (t_month t) (t_day t))"
  have "time_usec t = (?n * 86400 + ?c) * 1000000 + int (t_second_part t)"
    by (simp add: time_usec_def)
  moreover have "0 \<le> ?c" "?c < 86400" using assms by linarith+
  ultimately show ?thesis using assms(4) by simp
qed

lemma clock_rebuild: "(x div 3600) * 3600 + (x div 60 mod 60) * 60 + x mod 60 = x" for x :: int
proof -
  have "x div 60 div 60 = x div 3600" by (simp add: zdiv_zmult2_eq [symmetric])
  then show ?thesis
    using div_mult_mod_eq [of x 60] div_mult_mod_eq [of "x div 60" 60] by linarith
qed

lemma time_of_day_result:
  fixes V :: int
  defines "S \<equiv> V div 1000000"
  shows "nat (S mod 86400 div 3600) \<le> 23" "nat (S mod 86400 div 60 mod 60) \<le> 59"
    "nat (S mod 86400 mod 60) \<le> 59" "nat (V mod 1000000) < 1000000"
    "(int (nat (S mod 86400 div 3600)) * 3600 + int (nat (S mod 86400 div 60 mod 60)) * 60 +
       int (nat (S mod 86400 mod 60))) * 1000000 + int (nat (V mod 1000000)) = V mod 86400000000"
proof -
  let ?x = "S mod 86400"
  have x: "0 \<le> ?x" "?x < 86400" by simp_all
  have "?x div 3600 \<le> 86399 div 3600" using x by (intro zdiv_mono1) auto
  then show "nat (?x div 3600) \<le> 23" by simp
  have b: "nat z \<le> 59" if "z < 60" for z :: int using that by simp
  show "nat (?x div 60 mod 60) \<le> 59" "nat (?x mod 60) \<le> 59"
    by (rule b, rule pos_mod_bound, rule zero_less_numeral)+
  have c: "nat z < 1000000" if "z < 1000000" for z :: int using that by simp
  show "nat (V mod 1000000) < 1000000"
    by (rule c, rule pos_mod_bound, rule zero_less_numeral)
  have nn: "0 \<le> ?x div 3600" using x by (simp only: pos_imp_zdiv_nonneg_iff zero_less_numeral)
  have "V mod (1000000 * 86400) = 1000000 * (V div 1000000 mod 86400) + V mod 1000000"
    by (rule zmod_zmult2_eq) simp
  moreover have "(1000000 * 86400 :: int) = 86400000000" by simp
  ultimately have e: "V mod 86400000000 = ?x * 1000000 + V mod 1000000"
    by (simp only: S_def mult.commute)
  have h: "int (nat (?x div 3600)) = ?x div 3600" "int (nat (?x div 60 mod 60)) = ?x div 60 mod 60"
    "int (nat (?x mod 60)) = ?x mod 60" "int (nat (V mod 1000000)) = V mod 1000000"
    by (rule nat_0_le, (rule nn | simp only: pos_mod_sign zero_less_numeral))+
  show "(int (nat (?x div 3600)) * 3600 + int (nat (?x div 60 mod 60)) * 60 +
       int (nat (?x mod 60))) * 1000000 + int (nat (V mod 1000000)) = V mod 86400000000"
    unfolding h clock_rebuild e ..
qed

lemma add_time_result:
  fixes V :: int and t :: mysql_time
  defines "S \<equiv> V div 1000000"
  assumes vd: "valid_date y m d" "y \<le> 9999" "int (day_number y m d) = S div 86400"
    and r: "r = t\<lparr>t_second_part := nat (V mod 1000000),
      t_second := nat (S mod 86400 mod 60), t_minute := nat (S mod 86400 div 60 mod 60),
      t_hour := nat (S mod 86400 div 3600), t_year := y, t_month := m, t_day := d\<rparr>"
  shows "valid_time r" "time_usec r = V"
proof -
  let ?x = "S mod 86400"
  have x: "0 \<le> ?x" "?x < 86400" by simp_all
  have "?x div 3600 \<le> 86399 div 3600" using x by (intro zdiv_mono1) auto
  then have h: "?x div 3600 \<le> 23" by simp
  have nn: "0 \<le> ?x div 3600" using x by (simp only: pos_imp_zdiv_nonneg_iff zero_less_numeral)
  have f: "int (t_hour r) = ?x div 3600" "int (t_minute r) = ?x div 60 mod 60" "int (t_second r) = ?x mod 60"
    "int (t_second_part r) = V mod 1000000" "t_year r = y" "t_month r = m" "t_day r = d"
    using nn by (simp_all add: r)
  have "int (t_hour r) \<le> 23" "int (t_minute r) < 60" "int (t_second r) < 60" "int (t_second_part r) < 1000000"
    unfolding f(1-4) using h by (simp_all only: pos_mod_bound zero_less_numeral)
  then show "valid_time r" unfolding valid_time_def f(5-7) using vd by linarith
  have "time_usec r = (S div 86400 * 86400 + (?x div 3600 * 3600 + ?x div 60 mod 60 * 60 + ?x mod 60)) * 1000000
      + V mod 1000000"
    unfolding time_usec_def f vd(3) by simp
  also have "\<dots> = V" unfolding clock_rebuild by (simp add: S_def)
  finally show "time_usec r = V" .
qed

lemma set_time_of_day:
  "r = t\<lparr>t_second_part := p, t_second := sec, t_minute := mi, t_hour := h, t_year := y, t_month := m,
     t_day := d\<rparr> \<Longrightarrow>
   t_hour r = h \<and> t_minute r = mi \<and> t_second r = sec \<and> t_second_part r = p \<and> t_year r = y \<and>
   t_month r = m \<and> t_day r = d"
  by simp

lemma add_time_year0:
  fixes V :: int and t :: mysql_time
  defines "S \<equiv> V div 1000000"
  assumes r: "r = t\<lparr>t_second_part := nat (V mod 1000000),
      t_second := nat (S mod 86400 mod 60), t_minute := nat (S mod 86400 div 60 mod 60),
      t_hour := nat (S mod 86400 div 3600), t_year := 0, t_month := 0, t_day := 0\<rparr>"
  shows "t_year r = 0 \<and> t_month r = 0 \<and> t_day r = 0 \<and>
    t_hour r \<le> 23 \<and> t_minute r \<le> 59 \<and> t_second r \<le> 59 \<and> t_second_part r < 1000000 \<and>
    (int (t_hour r) * 3600 + int (t_minute r) * 60 + int (t_second r)) * 1000000 +
      int (t_second_part r) = V mod 86400000000"
proof -
  have f: "t_hour r = nat (S mod 86400 div 3600)" "t_minute r = nat (S mod 86400 div 60 mod 60)"
    "t_second r = nat (S mod 86400 mod 60)" "t_second_part r = nat (V mod 1000000)"
    "t_year r = 0" "t_month r = 0" "t_day r = 0"
    using set_time_of_day [OF r] by blast+
  show ?thesis unfolding f S_def by (intro conjI refl time_of_day_result)
qed

section \<open>Numeric conversions are exact\<close>

lemma check_date_valid:
  assumes "valid_date (t_year t) (t_month t) (t_day t)"
  shows "check_date t True flags w = Some (w, False)"
proof -
  have m: "1 \<le> t_month t" "t_month t \<le> 12" and d: "1 \<le> t_day t" "t_day t \<le> month_days (t_year t) (t_month t)"
    using assms by (auto simp: valid_date_def)
  have "aget days_in_month (t_month t - 1) = Some (days_in_month ! (t_month t - 1))"
    using m by (simp add: days_in_month_def)
  moreover have "\<not> (t_day t > days_in_month ! (t_month t - 1) \<and>
      (t_month t \<noteq> 2 \<or> calc_days_in_year (t_year t) \<noteq> 366 \<or> t_day t \<noteq> 29))"
    using d by (auto simp: month_days_def days_in_month_def split: if_splits)
  ultimately show ?thesis using m d by (auto simp: check_date_def)
qed

lemma check_date_total:
  assumes "t_month t \<le> 12"
  obtains w' bad where "check_date t nz flags w = Some (w', bad)" "\<not> bad \<longrightarrow> w' = w"
proof -
  have "aget days_in_month (t_month t - 1) = Some (days_in_month ! (t_month t - 1))"
    using assms by (simp add: days_in_month_def)
  then have "\<exists>w' bad. check_date t nz flags w = Some (w', bad) \<and> (\<not> bad \<longrightarrow> w' = w)"
    by (auto simp: check_date_def)
  then show ?thesis using that by blast
qed

lemma smod_nonneg: "0 \<le> a \<Longrightarrow> 0 < b \<Longrightarrow> a smod b = a mod (b :: int)"
  by (simp add: smod_mod_positive)

text \<open>The broken-down value of a number in the form YYYYMMDDHHMMSS.\<close>

definition broken_down :: "nat \<Rightarrow> timestamp_type \<Rightarrow> mysql_time" where
  "broken_down n ty =
     \<lparr>t_year = n div 1000000 div 10000, t_month = n div 1000000 mod 10000 div 100,
      t_day = n div 1000000 mod 10000 mod 100, t_hour = n mod 1000000 div 10000,
      t_minute = n mod 1000000 mod 10000 div 100, t_second = n mod 1000000 mod 10000 mod 100,
      t_second_part = 0, t_neg = False, t_type = ty\<rparr>"

lemma radix_rebuild: "(n div k) * k + n mod k = n" for n :: nat
  by (rule div_mult_mod_eq)

lemma datetime_broken_down:
  assumes "n < 2 ^ 64"
  shows "TIME_to_ulonglong_datetime (broken_down n ty) = n"
proof -
  have hms: "(p div 10000) * 10000 + (p mod 10000 div 100) * 100 + p mod 10000 mod 100 = p" for p :: nat
    using radix_rebuild [of p 10000] radix_rebuild [of "p mod 10000" 100] by linarith
  show ?thesis
    unfolding TIME_to_ulonglong_datetime_def broken_down_def mysql_time.simps hms radix_rebuild ull_def
    using assms by simp
qed

lemma number_to_datetime_eq:
  assumes "normalize_nr nr flags = Some (int n, ty)"
  shows "number_to_datetime nr flags =
    (let t = broken_down n ty in
     do { (was_cut, ok) \<leftarrow>
            (if t_year t \<le> 9999 \<and> t_month t \<le> 12 \<and> t_day t \<le> 31 \<and> t_hour t \<le> 23 \<and>
                t_minute t \<le> 59 \<and> t_second t \<le> 59
             then do { (was_cut, bad) \<leftarrow> check_date t (n \<noteq> 0) flags 0; Some (was_cut, \<not> bad) }
             else Some (0, False));
          if ok then Some (int n, t, was_cut)
          else if n = 0 \<and> flag_set flags TIME_NO_ZERO_DATE then Some (- 1, t, was_cut)
          else Some (- 1, t, 1) })"
proof -
  have p1: "int n sdiv 1000000 = int (n div 1000000)" by (simp add: sdiv_nonneg zdiv_int)
  have p2: "int n - int (n div 1000000) * 1000000 = int (n mod 1000000)"
    using radix_rebuild [of n 1000000] by linarith
  have d: "nat (int a sdiv numeral k) = a div numeral k" "int a smod numeral k = int (a mod numeral k)" for a k
    by (simp_all add: sdiv_nonneg smod_nonneg zdiv_int zmod_int nat_div_distrib)
  show ?thesis
    unfolding number_to_datetime_def assms option.case prod.case p1 p2 d nat_int Let_def
      broken_down_def [symmetric] of_nat_eq_0_iff ..
qed

lemma normalize_nr_bounds:
  assumes "normalize_nr nr flags = Some (n, ty)" "nr < 2 ^ 63"
  shows "0 \<le> n" "n < 2 ^ 63" "n \<noteq> 0 \<Longrightarrow> 1000000 \<le> n" "ty \<in> {MYSQL_TIMESTAMP_DATE, MYSQL_TIMESTAMP_DATETIME}"
  using assms by (auto simp: normalize_nr_def YY_PART_YEAR_def split: if_splits)

section \<open>Order of dates\<close>

lemma days_before_month_mono:
  assumes "1 \<le> m" "m \<le> m'"
  shows "days_before_month y m \<le> days_before_month y m'"
  using assms unfolding days_before_month_def by (intro sum_mono2) auto

lemma day_number_less:
  assumes "valid_date y m d" "valid_date y' m' d'"
    and "y < y' \<or> y = y' \<and> (m < m' \<or> m = m' \<and> d < d')"
  shows "day_number y m d < day_number y' m' d'"
proof -
  consider "y < y'" | "y = y'" "m < m'" | "y = y'" "m = m'" "d < d'" using assms(3) by blast
  then show ?thesis
  proof cases
    case 1
    then have "days_before_year (Suc y) \<le> days_before_year y'" by (intro days_before_year_mono) simp
    then show ?thesis
      using day_number_less_iff(2) [OF assms(1)] day_number_less_iff(1) [OF assms(2)] by linarith
  next
    case 2
    have m: "1 \<le> m" "d \<le> month_days y m" "1 \<le> d'" using assms by (auto simp: valid_date_def)
    have "days_before_month y (Suc m) \<le> days_before_month y m'"
      using 2 by (intro days_before_month_mono) auto
    then show ?thesis using m 2 by (simp add: day_number_def days_before_month_Suc)
  qed (simp add: day_number_def)
qed

lemma lex_radix:
  fixes a b r s k :: nat
  assumes "a * k + r < b * k + s" "r < k" "s < k"
  shows "a < b \<or> a = b \<and> r < s"
proof (cases "a < b")
  case False
  then have "a = b \<or> Suc b \<le> a" by linarith
  then show ?thesis
  proof
    assume "Suc b \<le> a"
    then have "Suc b * k \<le> a * k" by (rule mult_le_mono1)
    then show ?thesis using assms by simp
  qed (use assms in simp)
qed simp

lemma radix_div_mod: "r < k \<Longrightarrow> (a * k + r) div k = a \<and> (a * k + r) mod k = r" for r k a :: nat
  by simp

lemma digits_parts:
  fixes a b c :: nat
  assumes "b < 100" "c < 100"
  shows "(a * 10000 + b * 100 + c) div 10000 = a" "(a * 10000 + b * 100 + c) mod 10000 div 100 = b"
    "(a * 10000 + b * 100 + c) mod 10000 mod 100 = c"
proof -
  have "b * 100 + c < 10000" using assms by simp
  from radix_div_mod [OF this, of a] radix_div_mod [OF assms(2), of b]
  show "(a * 10000 + b * 100 + c) div 10000 = a" "(a * 10000 + b * 100 + c) mod 10000 div 100 = b"
    "(a * 10000 + b * 100 + c) mod 10000 mod 100 = c"
    unfolding add.assoc [of "a * 10000"] by simp_all
qed

lemma radix_eq:
  fixes a b r s k :: nat
  assumes "a * k + r = b * k + s" "r < k" "s < k"
  shows "a = b \<and> r = s"
proof -
  have "a = (a * k + r) div k" using assms(2) by simp
  also have "\<dots> = b" using assms by simp
  finally show ?thesis using assms by simp
qed

lemma lex_radix_then:
  fixes a b r s k :: nat
  assumes "a * k + r < b * k + s \<or> a * k + r = b * k + s \<and> P" "r < k" "s < k"
  shows "a < b \<or> a = b \<and> (r < s \<or> r = s \<and> P)"
  using assms(1) lex_radix [OF _ assms(2,3)] radix_eq [OF _ assms(2,3)] by blast

lemma usec_less:
  fixes n n' c c' s s' :: nat
  assumes "n < n' \<or> n = n' \<and> (c < c' \<or> c = c' \<and> s < s')" "c < 86400" "s < 1000000"
  shows "(n * 86400 + c) * 1000000 + s < (n' * 86400 + c') * 1000000 + s'"
proof -
  from assms(1) consider "n < n'" | "n = n'" "c < c'" | "n = n'" "c = c'" "s < s'" by blast
  then show ?thesis unfolding add_mult_distrib mult.assoc using assms(2,3) by cases simp_all
qed

lemma valid_date_bounds:
  assumes "valid_date y m d"
  shows "1 \<le> m" "m \<le> 12" "1 \<le> d" "d \<le> 31"
  using assms month_cases [of m] by (auto simp: valid_date_def month_days_def days_in_month_def split: if_splits)

abbreviation date_digits :: "mysql_time \<Rightarrow> nat" where
  "date_digits t \<equiv> t_year t * 10000 + t_month t * 100 + t_day t"

abbreviation time_digits :: "mysql_time \<Rightarrow> nat" where
  "time_digits t \<equiv> t_hour t * 10000 + t_minute t * 100 + t_second t"

abbreviation clock_seconds :: "mysql_time \<Rightarrow> nat" where
  "clock_seconds t \<equiv> t_hour t * 3600 + t_minute t * 60 + t_second t"

abbreviation time_daynr :: "mysql_time \<Rightarrow> nat" where
  "time_daynr t \<equiv> day_number (t_year t) (t_month t) (t_day t)"

lemma valid_time_bounds:
  assumes "valid_time t"
  shows "t_month t \<le> 12" "t_day t \<le> 31" "t_year t \<le> 9999" "t_hour t \<le> 23" "t_minute t \<le> 59"
    "t_second t \<le> 59" "t_second_part t < 1000000" "valid_date (t_year t) (t_month t) (t_day t)"
  using assms valid_date_bounds by (auto simp: valid_time_def)

lemma packed_digits:
  assumes "valid_time t"
  shows "TIME_to_ulonglong_datetime t = date_digits t * 1000000 + time_digits t" "time_digits t < 1000000"
    "clock_seconds t < 86400"
  using valid_time_bounds [OF assms] unfolding TIME_to_ulonglong_datetime_def ull_def by simp_all

lemma digits_less:
  assumes v: "valid_time a" "valid_time b"
  shows "time_digits a < time_digits b \<Longrightarrow> clock_seconds a < clock_seconds b"
    "date_digits a < date_digits b \<Longrightarrow> time_daynr a < time_daynr b"
proof -
  note bd = valid_time_bounds [OF v(1)] valid_time_bounds [OF v(2)]
  assume "time_digits a < time_digits b"
  then have "(t_hour a * 100 + t_minute a) * 100 + t_second a < (t_hour b * 100 + t_minute b) * 100 + t_second b"
    by simp
  from lex_radix [OF this] have "t_hour a * 100 + t_minute a < t_hour b * 100 + t_minute b \<or>
    t_hour a * 100 + t_minute a = t_hour b * 100 + t_minute b \<and> t_second a < t_second b"
    using bd by simp
  then have "t_hour a < t_hour b \<or> t_hour a = t_hour b \<and> (t_minute a < t_minute b \<or>
    t_minute a = t_minute b \<and> t_second a < t_second b)"
    using bd(4,5,12,13) by linarith
  then show "clock_seconds a < clock_seconds b" using bd(4-6) bd(12-14) by linarith
next
  note bd = valid_time_bounds [OF v(1)] valid_time_bounds [OF v(2)]
  assume "date_digits a < date_digits b"
  then have "(t_year a * 100 + t_month a) * 100 + t_day a < (t_year b * 100 + t_month b) * 100 + t_day b"
    by simp
  from lex_radix [OF this]
  have "t_year a * 100 + t_month a < t_year b * 100 + t_month b \<or>
    t_year a * 100 + t_month a = t_year b * 100 + t_month b \<and> t_day a < t_day b"
    using bd by simp
  then have "t_year a < t_year b \<or> t_year a = t_year b \<and> (t_month a < t_month b \<or> t_month a = t_month b \<and> t_day a < t_day b)"
    using bd(1,9) by linarith
  then show "time_daynr a < time_daynr b" by (rule day_number_less [OF bd(8,16)])
qed

lemma digits_eq:
  assumes v: "valid_time a" "valid_time b"
  shows "time_digits a = time_digits b \<Longrightarrow> clock_seconds a = clock_seconds b"
    "date_digits a = date_digits b \<Longrightarrow> time_daynr a = time_daynr b"
proof -
  note bd = valid_time_bounds [OF v(1)] valid_time_bounds [OF v(2)]
  assume e: "time_digits a = time_digits b"
  have y: "t_hour a = t_hour b" using e bd(5,6,13,14) by linarith
  moreover have "t_minute a = t_minute b" using e y bd(6,14) by linarith
  ultimately show "clock_seconds a = clock_seconds b" using e by simp
next
  note bd = valid_time_bounds [OF v(1)] valid_time_bounds [OF v(2)]
  assume e: "date_digits a = date_digits b"
  have y: "t_year a = t_year b" using e bd(1,2,9,10) by linarith
  moreover have "t_month a = t_month b" using e y bd(2,10) by linarith
  ultimately show "time_daynr a = time_daynr b" using e by simp
qed

lemma time_usec_digits: "time_usec t = int ((time_daynr t * 86400 + clock_seconds t) * 1000000 + t_second_part t)"
  by (simp add: time_usec_def)

lemma packed_less_usec:
  assumes v: "valid_time a" "valid_time b"
    and le: "TIME_to_ulonglong_datetime a < TIME_to_ulonglong_datetime b \<or>
      TIME_to_ulonglong_datetime a = TIME_to_ulonglong_datetime b \<and> t_second_part a < t_second_part b"
  shows "time_usec a < time_usec b"
proof -
  from le have "date_digits a < date_digits b \<or> date_digits a = date_digits b \<and>
      (time_digits a < time_digits b \<or> time_digits a = time_digits b \<and> t_second_part a < t_second_part b)"
    unfolding packed_digits(1) [OF v(1)] packed_digits(1) [OF v(2)]
    by (rule lex_radix_then) (intro packed_digits(2) v)+
  then have "time_daynr a < time_daynr b \<or> time_daynr a = time_daynr b \<and>
      (clock_seconds a < clock_seconds b \<or> clock_seconds a = clock_seconds b \<and> t_second_part a < t_second_part b)"
    using digits_less [OF v] digits_eq [OF v] by blast
  then have "(time_daynr a * 86400 + clock_seconds a) * 1000000 + t_second_part a
      < (time_daynr b * 86400 + clock_seconds b) * 1000000 + t_second_part b"
    by (rule usec_less) (intro packed_digits(3) valid_time_bounds(7) v)+
  then show ?thesis unfolding time_usec_digits by (simp only: of_nat_less_iff)
qed

lemma packed_eq_usec:
  assumes v: "valid_time a" "valid_time b"
    and e: "TIME_to_ulonglong_datetime a = TIME_to_ulonglong_datetime b" "t_second_part a = t_second_part b"
  shows "time_usec a = time_usec b"
proof -
  have "date_digits a = date_digits b \<and> time_digits a = time_digits b"
    using e(1) unfolding packed_digits(1) [OF v(1)] packed_digits(1) [OF v(2)]
    by (rule radix_eq) (intro packed_digits(2) v)+
  then show ?thesis using digits_eq [OF v] e(2) unfolding time_usec_digits by simp
qed

lemma check_time_range_cases:
  assumes "t_minute t < 60" "t_second t < 60" "24 * t_day t + t_hour t < 2 ^ 32"
  shows "check_time_range t =
    (if 24 * t_day t + t_hour t \<le> 838 \<and>
        (24 * t_day t + t_hour t \<noteq> 838 \<or> t_minute t \<noteq> 59 \<or> t_second t \<noteq> 59 \<or> t_second_part t = 0)
     then (False, t, False)
     else (False, t\<lparr>t_day := 0, t_hour := 838, t_minute := 59, t_second := 59, t_second_part := 0\<rparr>, True))"
proof -
  have "uint_wrap (t_hour t + uint_wrap (24 * t_day t)) = 24 * t_day t + t_hour t"
    using assms(3) by (simp add: uint_wrap_def)
  then show ?thesis using assms
    by (simp add: check_time_range_def Let_def TIME_MAX_HOUR_def TIME_MAX_MINUTE_def TIME_MAX_SECOND_def)
qed

text \<open>The microseconds of a time of day, days included.\<close>

definition hms_usec :: "mysql_time \<Rightarrow> nat" where
  "hms_usec t =
     ((24 * t_day t + t_hour t) * 3600 + t_minute t * 60 + t_second t) * 1000000 + t_second_part t"

text \<open>The distance of two datetimes fits in 64 bits.\<close>

lemma distance_fits:
  fixes d e c f p q :: int
  assumes "0 \<le> d" "d < 3652500" "0 \<le> c" "c < 86400" "0 \<le> e" "e < 3652500" "0 \<le> f" "f < 86400"
    and "0 \<le> p" "p < 1000000" "0 \<le> q" "q < 1000000"
  defines "S \<equiv> ((d - e) * 86400 + c - f) * 1000000"
  shows "c_long S = Some S" "c_long (S + p) = Some (S + p)" "c_long (S + p - q) = Some (S + p - q)"
    "c_long (- (S + p - q)) = Some (- (S + p - q))"
proof -
  have "- (2 ^ 62) \<le> S" "S \<le> 2 ^ 62" using assms(1-8) by (simp_all add: S_def)
  then show "c_long S = Some S" "c_long (S + p) = Some (S + p)" "c_long (S + p - q) = Some (S + p - q)"
    "c_long (- (S + p - q)) = Some (- (S + p - q))"
    using assms(9-12) by (simp_all add: c_long_def)
qed

lemma within_max_time:
  fixes h m s p :: nat
  assumes "m < 60" "s < 60" "p < 1000000"
  shows "(h \<le> 838 \<and> (h \<noteq> 838 \<or> m \<noteq> 59 \<or> s \<noteq> 59 \<or> p = 0)) \<longleftrightarrow>
    (h * 3600 + m * 60 + s) * 1000000 + p \<le> (838 * 3600 + 59 * 60 + 59) * 1000000"
proof -
  consider "h < 838" | "838 < h" | "h = 838" "m < 59" | "h = 838" "m = 59" "s < 59" | "h = 838" "m = 59" "s = 59"
    using assms by linarith
  then show ?thesis unfolding add_mult_distrib mult.assoc using assms by cases simp_all
qed

section \<open>Properties\<close>

text \<open>A date and an interval for the instances below.\<close>

definition sample_time :: mysql_time where
  "sample_time = \<lparr>t_year = 2011, t_month = 12, t_day = 31, t_hour = 23, t_minute = 59, t_second = 30,
     t_second_part = 0, t_neg = False, t_type = MYSQL_TIMESTAMP_DATETIME\<rparr>"

definition sample_interval :: interval where
  "sample_interval = \<lparr>i_year = 0, i_month = 2, i_day = 60, i_hour = 0, i_minute = 0, i_second = 45,
     i_second_part = 0, i_neg = False\<rparr>"

lemma sample_valid: "valid_time sample_time" "valid_date (t_year sample_time) (t_month sample_time) (t_day sample_time)"
  "t_year sample_time = 2011" "t_second_part sample_time = 0" "t_type sample_time = MYSQL_TIMESTAMP_DATETIME"
  "interval_bounded sample_interval"
  by (simp_all add: sample_time_def sample_interval_def interval_bounded_def valid_time_def valid_date_def
      month_days_def days_in_month_def)

lemma sample_daynr:
  "day_number 2011 3 2 = 734563" "day_number 2011 12 31 = 734867" "day_number 2012 2 29 = 734927"
proof -
  have "calc_daynr 2011 3 2 = Some 734563" "calc_daynr 2011 12 31 = Some 734867" "calc_daynr 2012 2 29 = Some 734927"
    by (simp_all add: calc_daynr_in_range Let_def signed_divide_int_def)
  then show "day_number 2011 3 2 = 734563" "day_number 2011 12 31 = 734867" "day_number 2012 2 29 = 734927"
    by (simp_all add: calc_daynr_eq)
qed

lemma sample_usec:
  "time_usec sample_time = (734867 * 86400 + 86370) * 1000000"
  "interval_usec sample_interval = (60 * 86400 + 45) * 1000000"
  by (simp_all add: time_usec_def interval_usec_def sample_time_def sample_interval_def sample_daynr)

text \<open>C9: \<open>calc_daynr\<close> is the number of days of the proleptic Gregorian calendar up to the date:
  all days of the earlier years, all days of the earlier months of the year, and the day. This
  holds for every year, month and day whose 32 bit sum \<open>365 * y + 31 * (month - 1) + day\<close> does not
  overflow, all years up to 5,883,000 among them.\<close>

theorem calc_daynr_counts_days:
  assumes "1 \<le> m" "m \<le> 12" "365 * y + 31 * (m - 1) + d < 2 ^ 31"
  shows "calc_daynr y m d = Some (int ((\<Sum>k<y. calc_days_in_year k) + (\<Sum>j<m - 1. month_days y (j + 1)) + d))"
  using calc_daynr_eq [OF assms] by (simp add: day_number_def days_before_year_def days_before_month_def)

theorem calc_daynr_counts_days_witness:
  "calc_daynr 2011 3 2 = Some 734563 \<and>
   int ((\<Sum>k<2011. calc_days_in_year k) + (\<Sum>j<3 - 1. month_days 2011 (j + 1)) + 2) = 734563"
proof -
  have "calc_daynr 2011 3 2 = Some 734563"
    by (simp add: calc_daynr_in_range Let_def signed_divide_int_def)
  moreover have "calc_daynr 2011 3 2 =
    Some (int ((\<Sum>k<2011. calc_days_in_year k) + (\<Sum>j<3 - 1. month_days 2011 (j + 1)) + 2))"
    by (rule calc_daynr_counts_days) simp_all
  ultimately show ?thesis by (metis option.inject)
qed

text \<open>C24: \<open>get_date_from_daynr\<close> gives back every existing date of the years 1 to 9999 from its day
  number.\<close>

theorem get_date_from_daynr_inverse:
  assumes "valid_date y m d" "1 \<le> y" "y \<le> 9999"
  shows "\<exists>n. calc_daynr y m d = Some n \<and> get_date_from_daynr n = Some (y, m, d)"
proof -
  have "days_before_year 1 \<le> days_before_year y" using assms by (intro days_before_year_mono)
  moreover have "days_before_year 1 = 365" using days_before_year_Suc [of 0] by simp
  moreover have "days_before_year (Suc y) \<le> days_before_year 10000"
    using assms by (intro days_before_year_mono) simp
  ultimately have "365 < day_number y m d" "day_number y m d < 3652500"
    using day_number_less_iff [OF assms(1)] days_before_year_10000 by linarith+
  then show ?thesis
    using get_date_from_daynr_eq [OF assms(1)] calc_daynr_valid [OF assms(1,3)] by simp
qed

theorem get_date_from_daynr_inverse_witness:
  "\<exists>n. calc_daynr 2012 2 29 = Some n \<and> get_date_from_daynr n = Some (2012, 2, 29)"
  by (rule get_date_from_daynr_inverse)
    (simp_all add: valid_date_def month_days_def calc_days_in_year_def)

text \<open>C15: Adding an interval of days, hours, minutes, seconds and microseconds, each below
  \<open>2 ^ 40\<close> (\<open>2 ^ 60\<close> microseconds), to an existing date and time of day. For a result in the years 1 to
  9999 it moves the date by exactly that many microseconds and gives an existing date and time of
  day. For a result in year 0 (day numbers 0 to 365) it succeeds with the date 0000-00-00 and the
  time of day of the result. Results after 9999-12-31 and before day 0 are errors.\<close>

theorem date_add_interval_time_exact:
  assumes "valid_time t" "interval_bounded iv" "ty \<in> set time_intervals"
  defines "V \<equiv> time_usec t + interval_usec iv"
  defines "N \<equiv> V div 1000000 div 86400"
  shows "\<exists>t' err. date_add_interval t ty iv = Some (t', err) \<and>
    (err \<longleftrightarrow> N < 0 \<or> N > MAX_DAY_NUMBER) \<and>
    (\<not> err \<longrightarrow> 365 < N \<longrightarrow> valid_time t' \<and> time_usec t' = V) \<and>
    (\<not> err \<longrightarrow> N \<le> 365 \<longrightarrow> t_year t' = 0 \<and> t_month t' = 0 \<and> t_day t' = 0 \<and>
       t_hour t' \<le> 23 \<and> t_minute t' \<le> 59 \<and> t_second t' \<le> 59 \<and> t_second_part t' < 1000000 \<and>
       ((int (t_hour t') * 3600 + int (t_minute t') * 60 + int (t_second t')) * 1000000 +
         int (t_second_part t') = V mod 86400000000))"
proof -
  let ?t = "t\<lparr>t_neg := False\<rparr>" and ?s = "if i_neg iv then - 1 else 1 :: int"
  let ?S = "V div 1000000"
  let ?r = "?t\<lparr>t_type := MYSQL_TIMESTAMP_DATETIME, t_second_part := nat (V mod 1000000),
    t_second := nat (?S mod 86400 mod 60), t_minute := nat (?S mod 86400 div 60 mod 60),
    t_hour := nat (?S mod 86400 div 3600)\<rparr>"
  have v: "valid_time ?t" using assms(1) by (simp add: valid_time_def)
  have V: "V = time_usec ?t + ?s * ((int (i_day iv) * 86400 + int (i_hour iv) * 3600 +
    int (i_minute iv) * 60 + int (i_second iv)) * 1000000 + int (i_second_part iv))"
    by (simp add: V_def interval_usec_def time_usec_def)
  have "date_add_interval t ty iv = add_time_interval ?t iv ?s"
    using assms(3) by (simp add: date_add_interval_def Let_def)
  then have eq: "date_add_interval t ty iv =
    (if N < 0 \<or> N > MAX_DAY_NUMBER then Some (?r, True)
     else do { (y, m, d) \<leftarrow> get_date_from_daynr N;
               Some (?r\<lparr>t_year := y, t_month := m, t_day := d\<rparr>, False) })"
    using add_time_interval_eq [OF v assms(2), of ?s] unfolding V [symmetric] N_def by simp
  consider "N < 0 \<or> N > MAX_DAY_NUMBER" | "0 \<le> N" "N \<le> 365" | "365 < N" "N \<le> MAX_DAY_NUMBER"
    by linarith
  then show ?thesis
  proof cases
    case 2
    then have g: "get_date_from_daynr N = Some (0, 0, 0)" by (simp add: get_date_from_daynr_def)
    have nb: "\<not> (N < 0 \<or> N > MAX_DAY_NUMBER)" "\<not> 365 < N" using 2 by (simp_all add: MAX_DAY_NUMBER_def)
    obtain q where q: "q = ?r\<lparr>t_year := 0, t_month := 0, t_day := 0\<rparr>" by blast
    have "date_add_interval t ty iv = Some (q, False)"
      unfolding eq g q by (simp only: nb if_False bind.bind_lunit prod.case)
    then show ?thesis using nb add_time_year0 [OF q] by blast
  next
    case 3
    obtain y m d where g: "get_date_from_daynr N = Some (y, m, d)" "valid_date y m d"
      "int (day_number y m d) = N" "1 \<le> y" "y \<le> 9999" by (rule get_date_ok [OF 3])
    have dn: "int (day_number y m d) = V div 1000000 div 86400" using g(3) by (simp only: N_def)
    obtain q where q: "q = ?r\<lparr>t_year := y, t_month := m, t_day := d\<rparr>" by blast
    note res = add_time_result [OF g(2,5) dn q]
    have "date_add_interval t ty iv = Some (q, False)"
      unfolding eq g(1) using 3 q by simp
    moreover have "\<not> (N < 0 \<or> N > MAX_DAY_NUMBER)" "\<not> N \<le> 365" using 3 by linarith+
    ultimately show ?thesis using res by blast
  next
    case 1
    then have "date_add_interval t ty iv = Some (?r, True)" unfolding eq by simp
    then show ?thesis using 1 by blast
  qed
qed

theorem date_add_interval_time_exact_witness:
  "\<exists>t'. date_add_interval sample_time INTERVAL_DAY_SECOND sample_interval = Some (t', False) \<and>
     valid_time t' \<and> time_usec t' = time_usec sample_time + (60 * 86400 + 45) * 1000000"
proof -
  have "INTERVAL_DAY_SECOND \<in> set time_intervals" by (simp add: time_intervals_def)
  from date_add_interval_time_exact [OF sample_valid(1,6) this]
  show ?thesis unfolding sample_usec by (auto simp: MAX_DAY_NUMBER_def)
qed

text \<open>Adding days or weeks moves the date by exactly that many days and keeps the time of day,
  for every result in the years 1 to 9999; results outside the range of day numbers are errors.\<close>

lemma date_add_interval_day_exact:
  assumes "valid_date (t_year t) (t_month t) (t_day t)" "t_year t \<le> 9999" "i_day iv < 2 ^ 62"
    and "ty = INTERVAL_DAY \<or> ty = INTERVAL_WEEK"
  defines "N \<equiv> int (day_number (t_year t) (t_month t) (t_day t)) +
    (if i_neg iv then - int (i_day iv) else int (i_day iv))"
  shows "\<exists>t' err. date_add_interval t ty iv = Some (t', err) \<and>
    (err \<longleftrightarrow> N < 0 \<or> N > MAX_DAY_NUMBER) \<and>
    (\<not> err \<longrightarrow> 365 < N \<longrightarrow> valid_date (t_year t') (t_month t') (t_day t') \<and>
       int (day_number (t_year t') (t_month t') (t_day t')) = N \<and>
       t_hour t' = t_hour t \<and> t_minute t' = t_minute t \<and> t_second t' = t_second t \<and>
       t_second_part t' = t_second_part t)"
proof -
  let ?t = "t\<lparr>t_neg := False\<rparr>"
  have s: "s64 (int (i_day iv)) = int (i_day iv)" using assms(3) by (intro s64_id) simp_all
  have n: "int (day_number (t_year t) (t_month t) (t_day t)) < 2 ^ 40"
    using day_number_bound [OF assms(1,2)] by simp
  have c: "c_long (int (i_day iv)) = Some (int (i_day iv))" "c_long (- int (i_day iv)) = Some (- int (i_day iv))"
    "c_long N = Some N"
    using assms(3) n by (auto simp: N_def intro!: c_long_in)
  have eq: "date_add_interval t ty iv =
    (if N < 0 \<or> N > MAX_DAY_NUMBER then Some (?t, True)
     else do { (y, m, d) \<leftarrow> get_date_from_daynr N;
               Some (?t\<lparr>t_year := y, t_month := m, t_day := d\<rparr>, False) })"
    using assms(4) calc_daynr_valid [OF assms(1,2)] s c
    by (auto simp: date_add_interval_def time_intervals_def add_day_interval_def N_def Let_def)
  consider "N < 0 \<or> N > MAX_DAY_NUMBER" | "0 \<le> N" "N \<le> 365" | "365 < N" "N \<le> MAX_DAY_NUMBER"
    by linarith
  then show ?thesis
  proof cases
    case 2
    then have "get_date_from_daynr N = Some (0, 0, 0)" by (simp add: get_date_from_daynr_def)
    then show ?thesis using 2 eq by (auto simp: MAX_DAY_NUMBER_def)
  next
    case 3
    obtain y m d where g: "get_date_from_daynr N = Some (y, m, d)" "valid_date y m d"
      "int (day_number y m d) = N" "1 \<le> y" "y \<le> 9999" by (rule get_date_ok [OF 3])
    then show ?thesis using eq 3 by auto
  next
    case 1
    then have "date_add_interval t ty iv = Some (?t, True)" unfolding eq by simp
    then show ?thesis using 1 by blast
  qed
qed

lemma date_add_interval_day_exact_sample:
  "\<exists>t'. date_add_interval sample_time INTERVAL_DAY sample_interval = Some (t', False) \<and>
     valid_date (t_year t') (t_month t') (t_day t') \<and>
     int (day_number (t_year t') (t_month t') (t_day t')) = 734927"
proof -
  have "t_year sample_time \<le> 9999"
    "i_day sample_interval < 2 ^ 62" "i_day sample_interval = 60" "\<not> i_neg sample_interval"
    "int (day_number (t_year sample_time) (t_month sample_time) (t_day sample_time)) = 734867"
    by (simp_all add: sample_interval_def sample_time_def sample_daynr)
  with date_add_interval_day_exact [OF sample_valid(2), of sample_interval INTERVAL_DAY]
  show ?thesis by (auto simp: MAX_DAY_NUMBER_def)
qed

text \<open>C25: Adding months, quarters or years and months, fewer than \<open>2 ^ 62\<close> months in all so that the
  64 bit arithmetic does not overflow, moves the date by exactly that many months. The day stays the same, or becomes the last day of the new month if that month is too short,
  and the result exists; months outside the years 0 to 9999 are errors.\<close>

theorem date_add_interval_month_exact:
  assumes v: "valid_date (t_year t) (t_month t) (t_day t)" "t_year t \<le> 9999"
    and b: "i_year iv * 12 + i_month iv < 2 ^ 62"
    and ty: "ty = INTERVAL_YEAR_MONTH \<or> ty = INTERVAL_QUARTER \<or> ty = INTERVAL_MONTH"
  defines "P \<equiv> int (t_year t) * 12 + int (t_month t) - 1 +
    (if i_neg iv then - 1 else 1) * (int (i_year iv) * 12 + int (i_month iv))"
  shows "\<exists>t' err. date_add_interval t ty iv = Some (t', err) \<and> (err \<longleftrightarrow> P < 0 \<or> P \<ge> 120000) \<and>
    (\<not> err \<longrightarrow> int (t_year t') * 12 + int (t_month t') - 1 = P \<and>
       valid_date (t_year t') (t_month t') (t_day t') \<and>
       t_day t' = min (t_day t) (month_days (t_year t') (t_month t')))"
proof -
  let ?t = "t\<lparr>t_neg := False\<rparr>" and ?s = "if i_neg iv then - 1 else 1 :: int"
  have s: "s64 (int (i_year iv)) = int (i_year iv)" "s64 (int (i_month iv)) = int (i_month iv)"
    using b by (auto intro!: s64_id)
  have u: "uw (int (t_year t) * 12) = int (t_year t) * 12" using v(2) by (simp add: uw_id)
  have m: "t_month t \<le> 12" using v by (simp add: valid_date_def)
  have b': "int (i_year iv) * 12 + int (i_month iv) < 2 ^ 62" using b by simp
  let ?A = "int (t_year t) * 12"
  have c: "c_long (?s * int (i_year iv)) = Some (?s * int (i_year iv))"
    "c_long (?s * int (i_year iv) * 12) = Some (?s * int (i_year iv) * 12)"
    "c_long (?A + ?s * int (i_year iv) * 12) = Some (?A + ?s * int (i_year iv) * 12)"
    "c_long (?A + ?s * int (i_year iv) * 12 + int (t_month t)) =
       Some (?A + ?s * int (i_year iv) * 12 + int (t_month t))"
    "c_long (?A + ?s * int (i_year iv) * 12 + int (t_month t) - 1) =
       Some (?A + ?s * int (i_year iv) * 12 + int (t_month t) - 1)"
    "c_long (?s * int (i_month iv)) = Some (?s * int (i_month iv))"
    using b' v(2) m by (auto intro!: c_long_in)
  have pe: "?A + ?s * int (i_year iv) * 12 + int (t_month t) - 1 + ?s * int (i_month iv) = P"
    by (simp add: P_def algebra_simps)
  have cP: "c_long P = Some P" using b' v(2) m by (auto simp: P_def intro!: c_long_in)
  have t: "t_year ?t = t_year t" "t_month ?t = t_month t" by simp_all
  let ?r = "?t\<lparr>t_year := nat (P sdiv 12), t_month := nat (P smod 12) + 1\<rparr>"
  have "date_add_interval t ty iv = add_month_interval ?t iv ?s"
    using ty by (auto simp: date_add_interval_def time_intervals_def Let_def)
  also have "\<dots> =
    (if P < 0 \<or> P \<ge> 120000 then Some (?t, True)
     else
       do { dim \<leftarrow> aget days_in_month (t_month ?r - 1);
            if t_day ?r > dim then
              Some (?r\<lparr>t_day := (if t_month ?r = 2 \<and> calc_days_in_year (t_year ?r) = 366
                                then dim + 1 else dim)\<rparr>, False)
            else Some (?r, False) })"
    unfolding add_month_interval_def Let_def s t u c bind.bind_lunit pe cP ..
  finally have eq: "date_add_interval t ty iv = \<dots>" .
  show ?thesis
  proof (cases "P < 0 \<or> P \<ge> 120000")
    case False
    let ?y = "nat (P div 12)" and ?m = "nat (P mod 12) + 1"
    have y: "P sdiv 12 = P div 12" "P smod 12 = P mod 12"
      using False by (simp_all add: sdiv_nonneg smod_mod_positive)
    have m: "1 \<le> ?m" "?m \<le> 12" "0 \<le> P div 12" "P mod 12 < 12" using False by (auto simp: pos_imp_zdiv_nonneg_iff)
    have dim: "aget days_in_month (?m - 1) = Some (days_in_month ! (?m - 1))"
      using m by (simp add: days_in_month_def)
    have P: "int ?y * 12 + int ?m - 1 = P" using m False by simp
    have md: "28 \<le> days_in_month ! (?m - 1)" "?m = 2 \<Longrightarrow> days_in_month ! (?m - 1) = 28"
      using month_cases [OF m(1,2)] by (auto simp: days_in_month_def)
    have dd: "1 \<le> t_day t" using v by (simp add: valid_date_def)
    obtain r where r: "r = ?t\<lparr>t_year := ?y, t_month := ?m,
      t_day := min (t_day t) (month_days ?y ?m)\<rparr>" by blast
    have "date_add_interval t ty iv = Some (r, False)"
    proof (cases "t_day t > days_in_month ! (?m - 1)")
      case long: True
      then show ?thesis unfolding eq using False r y dim md v
        by (auto simp: Let_def month_days_def)
    next
      case short: False
      then have "t_day t \<le> month_days ?y ?m" using md by (auto simp: month_days_def)
      then have "r = ?r" unfolding r y by (intro mysql_time.equality) simp_all
      then show ?thesis unfolding eq using False short y dim by simp
    qed
    moreover have "t_day r = min (t_day t) (month_days (t_year r) (t_month r))"
      "int (t_year r) * 12 + int (t_month r) - 1 = P" "t_year r = ?y" "t_month r = ?m"
      using P by (simp_all add: r)
    moreover have "valid_date (t_year r) (t_month r) (t_day r)"
      using clamped_day_valid [OF m(1,2) dd] by (simp add: r)
    ultimately show ?thesis using False by blast
  next
    case True
    then have "date_add_interval t ty iv = Some (?t, True)" unfolding eq by simp
    then show ?thesis using True by blast
  qed
qed

theorem date_add_interval_month_exact_witness:
  "\<exists>t'. date_add_interval sample_time INTERVAL_MONTH sample_interval = Some (t', False) \<and>
     int (t_year t') * 12 + int (t_month t') - 1 = 2012 * 12 + 2 - 1 \<and>
     t_day t' = min 31 (month_days (t_year t') (t_month t'))"
proof -
  have i: "i_year sample_interval * 12 + i_month sample_interval < 2 ^ 62"
    and "t_year sample_time \<le> 9999" "i_year sample_interval = 0" "i_month sample_interval = 2"
    "\<not> i_neg sample_interval" "t_month sample_time = 12" "t_day sample_time = 31"
    by (simp_all add: sample_interval_def sample_time_def)
  with date_add_interval_month_exact [OF sample_valid(2) _ i, of INTERVAL_MONTH]
  show ?thesis by (auto simp: sample_valid(3))
qed

text \<open>An interval of more than \<open>2 ^ 63 / 12\<close> years overflows the 64 bit product, which is undefined,
  instead of being reported as out of range.\<close>

lemma date_add_interval_month_overflow:
  assumes "i_year iv < 2 ^ 63" "2 ^ 63 \<le> i_year iv * 12" "\<not> i_neg iv"
  shows "date_add_interval t INTERVAL_YEAR_MONTH iv = None"
proof -
  have "s64 (int (i_year iv)) = int (i_year iv)" "c_long (int (i_year iv)) = Some (int (i_year iv))"
    using assms(1) by (auto intro!: s64_id c_long_in)
  moreover have "c_long (int (i_year iv) * 12) = None" using assms(2) by (simp add: c_long_def)
  ultimately show ?thesis
    using assms(3) by (simp add: date_add_interval_def time_intervals_def add_month_interval_def Let_def)
qed

text \<open>C26: Every number gets a result: the error value, or a number that is the value again in the
  form YYYYMMDDHHMMSS, with all parts in their ranges. The cut indicator is never 2.\<close>

theorem number_to_datetime_result:
  assumes "nr < 2 ^ 63"
  shows "\<exists>res t w. number_to_datetime nr flags = Some (res, t, w) \<and> w \<le> 1 \<and>
    (res = - 1 \<or>
     w = 0 \<and> res = int (TIME_to_ulonglong_datetime t) \<and> t_year t \<le> 9999 \<and> t_month t \<le> 12 \<and>
     t_day t \<le> 31 \<and> t_hour t \<le> 23 \<and> t_minute t \<le> 59 \<and> t_second t \<le> 59 \<and> t_second_part t = 0)"
proof (cases "normalize_nr nr flags")
  case None
  then show ?thesis by (simp add: number_to_datetime_def)
next
  case (Some p)
  obtain k ty where p: "p = (k, ty)" by (cases p)
  obtain n where n: "k = int n" "n < 2 ^ 63"
    using normalize_nr_bounds [OF Some [unfolded p] assms] by (auto elim: nonneg_int_cases)
  let ?t = "broken_down n ty"
  let ?ok = "t_year ?t \<le> 9999 \<and> t_month ?t \<le> 12 \<and> t_day ?t \<le> 31 \<and> t_hour ?t \<le> 23 \<and>
    t_minute ?t \<le> 59 \<and> t_second ?t \<le> 59"
  have id: "TIME_to_ulonglong_datetime ?t = n" using n by (intro datetime_broken_down) simp
  have sp: "t_second_part ?t = 0" by (simp add: broken_down_def)
  note eq = number_to_datetime_eq [OF Some [unfolded p n(1)], unfolded Let_def]
  show ?thesis
  proof (cases ?ok)
    case True
    then have "t_month ?t \<le> 12" by blast
    then obtain w bad where c: "check_date ?t (n \<noteq> 0) flags 0 = Some (w, bad)" "\<not> bad \<longrightarrow> w = 0"
      by (rule check_date_total [of ?t "n \<noteq> 0" flags 0])
    show ?thesis
    proof (cases bad)
      case bad: True
      then show ?thesis unfolding eq using True c
        by (cases "n = 0 \<and> flag_set flags TIME_NO_ZERO_DATE") (auto simp: check_date_def split: if_splits)
    next
      case False
      then show ?thesis unfolding eq using True c id sp by simp
    qed
  next
    case False
    then show ?thesis unfolding eq by (simp only: if_False) simp
  qed
qed

theorem number_to_datetime_result_witness:
  "\<exists>res t w. number_to_datetime 111231 TIME_FUZZY_DATE = Some (res, t, w) \<and> w \<le> 1 \<and>
    (res = - 1 \<or>
     w = 0 \<and> res = int (TIME_to_ulonglong_datetime t) \<and> t_year t \<le> 9999 \<and> t_month t \<le> 12 \<and>
     t_day t \<le> 31 \<and> t_hour t \<le> 23 \<and> t_minute t \<le> 59 \<and> t_second t \<le> 59 \<and> t_second_part t = 0)"
  by (rule number_to_datetime_result) simp

text \<open>C27: A datetime from the year 1000 on is read back from its number unchanged.\<close>

theorem number_to_datetime_roundtrip:
  assumes v: "valid_time t" "1000 \<le> t_year t" "t_second_part t = 0"
  shows "number_to_datetime (int (TIME_to_ulonglong_datetime t)) flags =
    Some (int (TIME_to_ulonglong_datetime t), t\<lparr>t_neg := False, t_type := MYSQL_TIMESTAMP_DATETIME\<rparr>, 0)"
proof -
  let ?n = "TIME_to_ulonglong_datetime t" and ?t = "t\<lparr>t_neg := False, t_type := MYSQL_TIMESTAMP_DATETIME\<rparr>"
  let ?D = "t_year t * 10000 + t_month t * 100 + t_day t"
  let ?H = "t_hour t * 10000 + t_minute t * 100 + t_second t"
  have vd: "valid_date (t_year t) (t_month t) (t_day t)" and
    h: "t_year t \<le> 9999" "t_hour t \<le> 23" "t_minute t \<le> 59" "t_second t \<le> 59"
    using v by (auto simp: valid_time_def)
  note d = valid_date_bounds [OF vd]
  have n: "?n = ?D * 1000000 + ?H" "?n \<ge> 10000101000000"
    using h d v(2) unfolding TIME_to_ulonglong_datetime_def ull_def by simp_all
  have DH: "?n div 1000000 = ?D" "?n mod 1000000 = ?H"
    unfolding n(1) by (rule radix_div_mod [OF packed_digits(2) [OF v(1)], THEN conjunct1]
        radix_div_mod [OF packed_digits(2) [OF v(1)], THEN conjunct2])+
  have b: "t_month t < 100" "t_day t < 100" "t_minute t < 100" "t_second t < 100" using h d by simp_all
  have "broken_down ?n MYSQL_TIMESTAMP_DATETIME = ?t"
    unfolding broken_down_def DH digits_parts [OF b(1,2)] digits_parts [OF b(3,4)]
    using v(3) by (intro mysql_time.equality) simp_all
  moreover have "normalize_nr (int ?n) flags = Some (int ?n, MYSQL_TIMESTAMP_DATETIME)"
    using n(2) by (simp add: normalize_nr_def)
  ultimately show ?thesis
    using number_to_datetime_eq [of "int ?n" flags ?n] n(2) h d check_date_valid [of ?t flags 0] vd by simp
qed

theorem number_to_datetime_roundtrip_witness:
  "number_to_datetime 20111231235930 0 = Some (20111231235930, sample_time, 0)"
proof -
  have n: "TIME_to_ulonglong_datetime sample_time = 20111231235930"
    "sample_time\<lparr>t_neg := False, t_type := MYSQL_TIMESTAMP_DATETIME\<rparr> = sample_time"
    by (simp_all add: TIME_to_ulonglong_datetime_def ull_def sample_time_def)
  show ?thesis using number_to_datetime_roundtrip [of sample_time 0] sample_valid
    unfolding n by simp
qed

text \<open>C28: Comparing two datetimes compares the moments they stand for.\<close>

theorem my_time_compare_chronological:
  assumes "valid_time a" "valid_time b"
  shows "my_time_compare a b = sgn (time_usec a - time_usec b)"
proof -
  consider "TIME_to_ulonglong_datetime a < TIME_to_ulonglong_datetime b \<or>
      TIME_to_ulonglong_datetime a = TIME_to_ulonglong_datetime b \<and> t_second_part a < t_second_part b"
    | "TIME_to_ulonglong_datetime b < TIME_to_ulonglong_datetime a \<or>
      TIME_to_ulonglong_datetime b = TIME_to_ulonglong_datetime a \<and> t_second_part b < t_second_part a"
    | "TIME_to_ulonglong_datetime a = TIME_to_ulonglong_datetime b" "t_second_part a = t_second_part b"
    by linarith
  then show ?thesis
  proof cases
    case 1
    then show ?thesis using packed_less_usec [OF assms 1] by (auto simp: my_time_compare_def Let_def)
  next
    case 2
    then show ?thesis using packed_less_usec [OF assms(2,1) 2] by (auto simp: my_time_compare_def Let_def)
  next
    case 3
    then show ?thesis using packed_eq_usec [OF assms 3] by (simp add: my_time_compare_def)
  qed
qed

theorem my_time_compare_chronological_witness:
  "my_time_compare sample_time (sample_time\<lparr>t_second_part := 1\<rparr>) = - 1"
proof -
  let ?u = "sample_time\<lparr>t_second_part := 1\<rparr>"
  have "valid_time ?u" using sample_valid(1) by (simp add: valid_time_def)
  moreover have "time_usec sample_time - time_usec ?u = - 1" by (simp add: time_usec_def sample_time_def)
  ultimately show ?thesis using my_time_compare_chronological [OF sample_valid(1), of ?u] by simp
qed

text \<open>C29: \<open>calc_time_diff\<close> is the distance of two datetimes in microseconds, and its sign.\<close>

theorem calc_time_diff_exact:
  assumes "valid_time a" "valid_time b" "t_type a \<noteq> MYSQL_TIMESTAMP_TIME" "t_type b \<noteq> MYSQL_TIMESTAMP_TIME"
  shows "\<exists>neg sec usec. calc_time_diff a b 1 = Some (neg, sec, usec) \<and>
    (neg \<longleftrightarrow> time_usec a < time_usec b) \<and> 0 \<le> usec \<and> usec < 1000000 \<and>
    sec * 1000000 + usec = \<bar>time_usec a - time_usec b\<bar>"
proof -
  let ?d = "time_usec a - time_usec b"
  let ?D = "\<lambda>t. int (day_number (t_year t) (t_month t) (t_day t))"
    and ?C = "\<lambda>t. int (t_hour t * 3600 + t_minute t * 60 + t_second t)"
  have dn: "calc_daynr (t_year t) (t_month t) (t_day t) = Some (?D t)" "0 \<le> ?D t" "?D t < 3652500"
      "0 \<le> ?C t" "?C t < 86400" "t_second_part t < 1000000"
    if "valid_time t" for t
    using that calc_daynr_valid [of "t_year t" "t_month t" "t_day t"]
      day_number_bound [of "t_year t" "t_month t" "t_day t"] by (auto simp: valid_time_def)
  note A = dn [OF assms(1)] and B = dn [OF assms(2)]
  let ?S = "(?D a - ?D b) * 86400 + ?C a - ?C b"
  have s: "s64 (int (t_second_part a)) = int (t_second_part a)" "s64 (int (t_second_part b)) = int (t_second_part b)"
    using A(6) B(6) by (auto intro!: s64_id)
  have d: "?S * 1000000 + int (t_second_part a) - int (t_second_part b) = ?d"
    by (simp add: time_usec_def algebra_simps)
  have "int (t_second_part a) < 1000000" "int (t_second_part b) < 1000000" using A(6) B(6) by simp_all
  note c = distance_fits [OF A(2-5) B(2-5) of_nat_0_le_iff this(1) of_nat_0_le_iff this(2), unfolded d]
  have e: "\<bar>?d\<bar> sdiv 1000000 = \<bar>?d\<bar> div 1000000" "\<bar>?d\<bar> smod 1000000 = \<bar>?d\<bar> mod 1000000"
    by (simp_all add: sdiv_nonneg smod_nonneg)
  have "calc_time_diff a b 1 = Some (?d < 0, \<bar>?d\<bar> sdiv 1000000, \<bar>?d\<bar> smod 1000000)"
    unfolding calc_time_diff_def A(1) B(1) s
    using assms(3,4) by (simp only: if_False bind.bind_lunit Let_def mult_1 c d) simp
  then show ?thesis unfolding e by simp
qed

theorem calc_time_diff_exact_witness:
  "\<exists>sec usec. calc_time_diff sample_time (sample_time\<lparr>t_second_part := 1\<rparr>) 1 = Some (True, sec, usec) \<and>
     sec * 1000000 + usec = 1"
proof -
  let ?u = "sample_time\<lparr>t_second_part := 1\<rparr>"
  have "valid_time ?u" "t_type ?u \<noteq> MYSQL_TIMESTAMP_TIME" "t_type sample_time \<noteq> MYSQL_TIMESTAMP_TIME"
    using sample_valid(1,5) by (simp_all add: valid_time_def)
  moreover have "time_usec ?u = time_usec sample_time + 1" by (simp add: time_usec_def sample_time_def)
  ultimately show ?thesis using calc_time_diff_exact [OF sample_valid(1), of ?u] by auto
qed

text \<open>A time of day is clamped to 838:59:59, with a warning exactly if it is longer.\<close>

lemma check_time_range_clamps:
  assumes "t_minute t < 60" "t_second t < 60" "t_second_part t < 1000000" "24 * t_day t + t_hour t < 2 ^ 32"
  shows "\<exists>t' warn. check_time_range t = (False, t', warn) \<and>
    hms_usec t' = min (hms_usec t) ((838 * 3600 + 59 * 60 + 59) * 1000000) \<and>
    (warn \<longleftrightarrow> hms_usec t > (838 * 3600 + 59 * 60 + 59) * 1000000) \<and> (\<not> warn \<longrightarrow> t' = t)"
proof -
  let ?h = "24 * t_day t + t_hour t"
  let ?ok = "?h \<le> 838 \<and> (?h \<noteq> 838 \<or> t_minute t \<noteq> 59 \<or> t_second t \<noteq> 59 \<or> t_second_part t = 0)"
  obtain M :: nat where M: "M = (838 * 3600 + 59 * 60 + 59) * 1000000" by blast
  have ok: "?ok \<longleftrightarrow> hms_usec t \<le> M"
    unfolding hms_usec_def M by (rule within_max_time [OF assms(1-3)])
  let ?t' = "t\<lparr>t_day := 0, t_hour := 838, t_minute := 59, t_second := 59, t_second_part := 0\<rparr>"
  have t': "hms_usec ?t' = M" by (simp add: hms_usec_def M)
  have "check_time_range t = (if hms_usec t \<le> M then (False, t, False) else (False, ?t', True))"
    unfolding check_time_range_cases [OF assms(1,2,4)] ok ..
  then show ?thesis unfolding M [symmetric] using t' by (cases "hms_usec t \<le> M") auto
qed

lemma check_time_range_clamps_sample:
  "\<exists>t'. check_time_range (sample_time\<lparr>t_day := 35\<rparr>) = (False, t', True) \<and>
     hms_usec t' = (838 * 3600 + 59 * 60 + 59) * 1000000"
proof -
  have "hms_usec (sample_time\<lparr>t_day := 35\<rparr>) = 3110370000000" by (simp add: hms_usec_def sample_time_def)
  with check_time_range_clamps [of "sample_time\<lparr>t_day := 35\<rparr>"] show ?thesis
    by (auto simp: sample_time_def)
qed

text \<open>The sum of days and hours is computed in 32 bits: a time of 178956971 days is taken for 8 hours
  and accepted without a warning.\<close>

lemma check_time_range_wraps:
  "check_time_range ((set_zero_time MYSQL_TIMESTAMP_TIME)\<lparr>t_day := 178956971\<rparr>) =
     (False, (set_zero_time MYSQL_TIMESTAMP_TIME)\<lparr>t_day := 178956971\<rparr>, False)"
  by (simp add: check_time_range_def set_zero_time_def uint_wrap_def TIME_MAX_HOUR_def)

end
