(* ===== verification/Time_Parse.thy ===== *)
theory Time_Parse
  imports My_Time
begin

text \<open>
  Text form of dates and times: the model of \<open>str_to_datetime\<close>, \<open>str_to_time\<close> and of the
  printing functions \<open>my_time_to_str\<close>, \<open>my_date_to_str\<close>, \<open>my_datetime_to_str\<close> and
  \<open>my_TIME_to_str\<close> of \<^verbatim>\<open>sql-common/my_time.c\<close>, with the character classes of
  \<^verbatim>\<open>strings/ctype-latin1.c\<close> they use.

  A pointer \<open>str\<close> into the text is the list of the bytes from \<open>str\<close> up to \<open>end\<close>: \<open>str == end\<close> is
  the empty list, \<open>str++\<close> its tail, and a difference of two pointers a difference of lengths. The
  local arrays hold \<^term>\<open>None\<close> in a slot that was not written; reading such a slot, or one
  outside the array, is an undefined behaviour.
\<close>

unbundle bit_operations_syntax

section \<open>Character classes\<close>

definition ctype_latin1 :: "u8 list" where
  "ctype_latin1 =
     [0,
      32, 32, 32, 32, 32, 32, 32, 32, 32, 40, 40, 40, 40, 40, 32, 32,
      32, 32, 32, 32, 32, 32, 32, 32, 32, 32, 32, 32, 32, 32, 32, 32,
      72, 16, 16, 16, 16, 16, 16, 16, 16, 16, 16, 16, 16, 16, 16, 16,
      132, 132, 132, 132, 132, 132, 132, 132, 132, 132, 16, 16, 16, 16, 16, 16,
      16, 129, 129, 129, 129, 129, 129, 1, 1, 1, 1, 1, 1, 1, 1, 1,
      1, 1, 1, 1, 1, 1, 1, 1, 1, 1, 1, 16, 16, 16, 16, 16,
      16, 130, 130, 130, 130, 130, 130, 2, 2, 2, 2, 2, 2, 2, 2, 2,
      2, 2, 2, 2, 2, 2, 2, 2, 2, 2, 2, 16, 16, 16, 16, 32,
      16, 0, 16, 2, 16, 16, 16, 16, 16, 16, 1, 16, 1, 0, 1, 0,
      0, 16, 16, 16, 16, 16, 16, 16, 16, 16, 2, 16, 2, 0, 2, 1,
      72, 16, 16, 16, 16, 16, 16, 16, 16, 16, 16, 16, 16, 16, 16, 16,
      16, 16, 16, 16, 16, 16, 16, 16, 16, 16, 16, 16, 16, 16, 16, 16,
      1, 1, 1, 1, 1, 1, 1, 1, 1, 1, 1, 1, 1, 1, 1, 1,
      1, 1, 1, 1, 1, 1, 1, 16, 1, 1, 1, 1, 1, 1, 1, 2,
      2, 2, 2, 2, 2, 2, 2, 2, 2, 2, 2, 2, 2, 2, 2, 2,
      2, 2, 2, 2, 2, 2, 2, 16, 2, 2, 2, 2, 2, 2, 2, 2]"

definition MY_NMR :: u8 where
  "MY_NMR = 4"

definition MY_SPC :: u8 where
  "MY_SPC = 8"

definition MY_PNT :: u8 where
  "MY_PNT = 16"

definition my_isdigit :: "u8 \<Rightarrow> bool" where
  "my_isdigit c \<longleftrightarrow> (ctype_latin1 ! (unat c + 1)) AND MY_NMR \<noteq> 0"

definition my_isspace :: "u8 \<Rightarrow> bool" where
  "my_isspace c \<longleftrightarrow> (ctype_latin1 ! (unat c + 1)) AND MY_SPC \<noteq> 0"

definition my_ispunct :: "u8 \<Rightarrow> bool" where
  "my_ispunct c \<longleftrightarrow> (ctype_latin1 ! (unat c + 1)) AND MY_PNT \<noteq> 0"

text \<open>The loops \<open>for (; str != end && cond(*str); str++)\<close>.\<close>

fun skip :: "(u8 \<Rightarrow> bool) \<Rightarrow> u8 list \<Rightarrow> u8 list" where
  "skip p [] = []"
| "skip p (c # str) = (if p c then skip p str else c # str)"

section \<open>Tables and constants\<close>

definition log_10_int :: "u64 list" where
  "log_10_int =
     [1, 10, 100, 1000, 10000, 100000, 1000000, 10000000, 100000000, 1000000000, 10000000000,
      100000000000, 1000000000000, 10000000000000, 100000000000000, 1000000000000000,
      10000000000000000, 100000000000000000, 1000000000000000000, 10000000000000000000]"

definition internal_format_positions :: "nat list" where
  "internal_format_positions = [0, 1, 2, 3, 4, 5, 6, 255]"

definition time_separator :: u8 where
  "time_separator = 58"

definition MAX_DATE_PARTS :: nat where
  "MAX_DATE_PARTS = 8"

definition MYSQL_TIME_WARN_TRUNCATED :: nat where
  "MYSQL_TIME_WARN_TRUNCATED = 1"

definition MYSQL_TIME_WARN_OUT_OF_RANGE :: nat where
  "MYSQL_TIME_WARN_OUT_OF_RANGE = 2"

text \<open>A read of a local array.\<close>

definition read_slot :: "'a option list \<Rightarrow> nat \<Rightarrow> 'a option" where
  "read_slot xs i = aget xs i \<bind> (\<lambda>x. x)"

section \<open>Reading a datetime\<close>

text \<open>The variables of the scan loop of \<open>str_to_datetime\<close>.\<close>

record scan_state =
  sc_i :: nat
  sc_str :: "u8 list"
  sc_date :: "nat option list"
  sc_date_len :: "nat option list"
  sc_field_length :: nat
  sc_not_zero_date :: u64
  sc_found_delimitier :: bool
  sc_found_space :: bool
  sc_last_field_pos :: "u8 list option"
  sc_add_hours :: nat

text \<open>The digits of a field. \<open>tmp_value\<close> is an \<open>ulong\<close>, so it wraps around.\<close>

fun scan_digits :: "bool \<Rightarrow> nat \<Rightarrow> u64 \<Rightarrow> u8 list \<Rightarrow> u64 \<times> u8 list" where
  "scan_digits scan_until_delim field_length tmp_value [] = (tmp_value, [])"
| "scan_digits scan_until_delim field_length tmp_value (c # str) =
     (if my_isdigit c \<and> (scan_until_delim \<or> uint_dec field_length \<noteq> 0)
      then scan_digits scan_until_delim
             (if scan_until_delim then field_length else uint_dec field_length)
             (tmp_value * 10 + ucast (c - 48)) str
      else (tmp_value, c # str))"

text \<open>The delimiters behind a field; \<^term>\<open>None\<close> if a space is not allowed there.\<close>

fun skip_delimiters :: "bool \<Rightarrow> u8 list \<Rightarrow> bool \<Rightarrow> bool \<Rightarrow> (u8 list \<times> bool \<times> bool) option" where
  "skip_delimiters space_ok [] found_delimitier found_space =
     Some ([], found_delimitier, found_space)"
| "skip_delimiters space_ok (c # str) found_delimitier found_space =
     (if my_ispunct c \<or> my_isspace c then
        if my_isspace c then
          if \<not> space_ok then None else skip_delimiters space_ok str True True
        else skip_delimiters space_ok str True found_space
      else Some (c # str, found_delimitier, found_space))"

text \<open>
  How an iteration of the scan loop ends: with a return of \<open>MYSQL_TIMESTAMP_NONE\<close>, with
  \<open>break\<close>, or with the next iteration (\<open>continue\<close> or the end of the body).
\<close>

datatype scan_exit = ScanReject | ScanBreak scan_state | ScanNext scan_state

text \<open>The check for AM or PM behind the fraction of a second (only if the format has it).\<close>

definition scan_am_pm :: "scan_state \<Rightarrow> scan_state" where
  "scan_am_pm s =
     (let s = s\<lparr>sc_i := sc_i s + 1\<rparr> in
      if internal_format_positions ! 7 \<noteq> 255 \<and> length (sc_str s) \<ge> 2 \<and>
         (sc_str s ! 1 = 77 \<or> sc_str s ! 1 = 109)
      then
        if sc_str s ! 0 = 112 \<or> sc_str s ! 0 = 80
        then let str = skip my_isspace (drop 2 (sc_str s))
             in s\<lparr>sc_add_hours := 12, sc_str := str, sc_last_field_pos := Some str\<rparr>
        else if sc_str s ! 0 \<noteq> 97 \<or> sc_str s ! 0 \<noteq> 65 then s
        else let str = skip my_isspace (drop 2 (sc_str s))
             in s\<lparr>sc_str := str, sc_last_field_pos := Some str\<rparr>
      else s\<lparr>sc_last_field_pos := Some (sc_str s)\<rparr>)"

text \<open>The body of the loop behind the digits of a field.\<close>

definition scan_behind_field :: "u64 \<Rightarrow> scan_state \<Rightarrow> scan_exit" where
  "scan_behind_field allow_space s =
     (let i = sc_i s; str = sc_str s in
      if str = [] then ScanBreak (s\<lparr>sc_i := i + 1\<rparr>)
      else if i = internal_format_positions ! 2 \<and> hd str = 84 then ScanNext (s\<lparr>sc_str := tl str\<rparr>)
      else if i = internal_format_positions ! 5 then
        if hd str = 46 then ScanNext (s\<lparr>sc_str := tl str, sc_field_length := 6\<rparr>) else ScanNext s
      else
        case skip_delimiters (allow_space AND push_bit i 1 \<noteq> 0) str
               (sc_found_delimitier s) (sc_found_space s) of
          None \<Rightarrow> ScanReject
        | Some (str, found_delimitier, found_space) \<Rightarrow>
            let s = s\<lparr>sc_str := str, sc_found_delimitier := found_delimitier,
                      sc_found_space := found_space\<rparr>
            in ScanNext (if i = internal_format_positions ! 6 then scan_am_pm s
                         else s\<lparr>sc_last_field_pos := Some str\<rparr>))"

definition scan_field :: "bool \<Rightarrow> u64 \<Rightarrow> scan_state \<Rightarrow> scan_exit option" where
  "scan_field is_internal_format allow_space s =
     (let i = sc_i s;
          start = sc_str s;
          scan_until_delim = (\<not> is_internal_format \<and> i \<noteq> internal_format_positions ! 6);
          (tmp_value, str) =
            scan_digits scan_until_delim (sc_field_length s) (ucast (hd start - 48)) (tl start)
      in do {
        date_len \<leftarrow> aset (sc_date_len s) i (Some (length start - length str));
        if tmp_value > 999999 then Some ScanReject
        else do {
          date \<leftarrow> aset (sc_date s) i (Some (unat tmp_value));
          next_position \<leftarrow> aget internal_format_positions (i + 1);
          Some (scan_behind_field allow_space
            (s\<lparr>sc_str := str, sc_date := date, sc_date_len := date_len,
               sc_not_zero_date := sc_not_zero_date s OR tmp_value,
               sc_field_length := (if next_position = 0 then 4 else 2),
               sc_last_field_pos := Some str\<rparr>))
        }
      })"

text \<open>
  The scan loop; \<^term>\<open>Inl ()\<close> is the return of \<open>MYSQL_TIMESTAMP_NONE\<close>. Every iteration counts
  \<open>i\<close> up, so \<open>fuel\<close> need not exceed \<open>MAX_DATE_PARTS\<close>; running out of it is undefined.
\<close>

fun scan_loop :: "nat \<Rightarrow> bool \<Rightarrow> u64 \<Rightarrow> scan_state \<Rightarrow> (unit + scan_state) option" where
  "scan_loop 0 is_internal_format allow_space s = None"
| "scan_loop (Suc fuel) is_internal_format allow_space s =
     (if sc_i s < MAX_DATE_PARTS - 1 \<and> sc_str s \<noteq> [] \<and> my_isdigit (hd (sc_str s)) then
        case scan_field is_internal_format allow_space s of
          None \<Rightarrow> None
        | Some ScanReject \<Rightarrow> Some (Inl ())
        | Some (ScanBreak s) \<Rightarrow> Some (Inr s)
        | Some (ScanNext s) \<Rightarrow>
            scan_loop fuel is_internal_format allow_space (s\<lparr>sc_i := sc_i s + 1\<rparr>)
      else Some (Inr s))"

text \<open>The slots of the fields that were not found are set to zero.\<close>

fun zero_from :: "nat \<Rightarrow> nat \<Rightarrow> nat option list \<Rightarrow> nat option list option" where
  "zero_from 0 i xs = Some xs"
| "zero_from (Suc n) i xs = aset xs i (Some 0) \<bind> zero_from n (i + 1)"

text \<open>Garbage behind the value: a byte that is not a space.\<close>

fun has_garbage :: "u8 list \<Rightarrow> bool" where
  "has_garbage [] = False"
| "has_garbage (c # str) = (if \<not> my_isspace c then True else has_garbage str)"

text \<open>
  The value with the fields of \<open>date\<close> at the positions \<open>pos\<close>; the fraction is scaled to
  microseconds. With an AM/PM format an hour above 12 is an error (\<^term>\<open>Inl ()\<close>).
\<close>

definition assign_fields ::
  "bool \<Rightarrow> nat \<Rightarrow> nat list \<Rightarrow> nat option list \<Rightarrow> nat option list \<Rightarrow> mysql_time \<Rightarrow>
   (unit + mysql_time) option" where
  "assign_fields is_internal_format add_hours pos date date_len l_time =
     do {
       year \<leftarrow> read_slot date (pos ! 0);
       month \<leftarrow> read_slot date (pos ! 1);
       day \<leftarrow> read_slot date (pos ! 2);
       hour \<leftarrow> read_slot date (pos ! 3);
       minute \<leftarrow> read_slot date (pos ! 4);
       second \<leftarrow> read_slot date (pos ! 5);
       frac_len \<leftarrow> read_slot date_len (pos ! 6);
       frac \<leftarrow> read_slot date (pos ! 6);
       frac \<leftarrow> (if frac_len < 6
                then do { scale \<leftarrow> aget log_10_int (6 - frac_len);
                          Some (uint_wrap (frac * uint_wrap (unat scale))) }
                else Some frac);
       let l_time = l_time\<lparr>t_year := year, t_month := month, t_day := day, t_hour := hour,
                           t_minute := minute, t_second := second, t_second_part := frac\<rparr>;
       if \<not> is_internal_format \<and> internal_format_positions ! 7 \<noteq> 255 then
         if hour > 12 then Some (Inl ())
         else Some (Inr (l_time\<lparr>t_hour := hour mod 12 + add_hours\<rparr>))
       else Some (Inr l_time)
     }"

text \<open>The part of \<open>str_to_datetime\<close> that checks the fields and sets the result.\<close>

definition finish_datetime ::
  "mysql_time \<Rightarrow> nat \<Rightarrow> bool \<Rightarrow> u64 \<Rightarrow> u8 list \<Rightarrow> (timestamp_type \<times> mysql_time \<times> nat) option" where
  "finish_datetime l_time number_of_fields not_zero_date flags str =
     (let err = (MYSQL_TIMESTAMP_ERROR, set_zero_time MYSQL_TIMESTAMP_DATE) in
      if number_of_fields < 3 \<or> t_year l_time > 9999 \<or> t_month l_time > 12 \<or> t_day l_time > 31 \<or>
         t_hour l_time > 23 \<or> t_minute l_time > 59 \<or> t_second l_time > 59
      then Some (fst err, snd err, if not_zero_date \<or> has_garbage str then 1 else 0)
      else do {
        (was_cut, bad) \<leftarrow> check_date l_time not_zero_date flags 0;
        if bad then Some (fst err, snd err, was_cut)
        else
          let ty = (if number_of_fields \<le> 3 then MYSQL_TIMESTAMP_DATE
                    else MYSQL_TIMESTAMP_DATETIME)
          in Some (ty, l_time\<lparr>t_type := ty\<rparr>, if has_garbage str then 1 else was_cut)
      })"

text \<open>
  The variables before the scan loop, for the text \<open>str\<close> that starts with a digit: whether all
  digits come without delimiters, the length of the year in that case, and the state at the start
  of the loop; \<^term>\<open>Inl ()\<close> is the return of \<open>MYSQL_TIMESTAMP_NONE\<close>.
\<close>

definition scan_start :: "u8 list \<Rightarrow> u64 \<Rightarrow> unit + (bool \<times> nat \<times> scan_state)" where
  "scan_start str flags =
     (let pos = skip (\<lambda>c. my_isdigit c \<or> c = 84) str;
          digits = length str - length pos;
          date = replicate MAX_DATE_PARTS None;
          date_len = (replicate MAX_DATE_PARTS None)[internal_format_positions ! 0 := Some 0];
          s = \<lparr>sc_i = 0, sc_str = str, sc_date = date, sc_date_len = date_len,
               sc_field_length = 0, sc_not_zero_date = 0, sc_found_delimitier = False,
               sc_found_space = False, sc_last_field_pos = None, sc_add_hours = 0\<rparr>
      in
      if pos = [] \<or> hd pos = 46 then
        let year_length = (if digits = 4 \<or> digits = 8 \<or> digits \<ge> 14 then 4 else 2)
        in Inr (True, year_length, s\<lparr>sc_field_length := year_length\<rparr>)
      else
        let fl = (if internal_format_positions ! 0 = 0 then 4 else 2) in
        if internal_format_positions ! 0 \<ge> 3 \<and>
           skip (\<lambda>c. \<not> my_isdigit c) (skip (\<lambda>c. \<not> my_isspace c) pos) = []
        then
          if flag_set flags TIME_DATETIME_ONLY then Inl ()
          else Inr (False, 0, s\<lparr>sc_date := replicate 5 (Some 0) @ drop 5 date, sc_i := 5,
                                sc_field_length := fl\<rparr>)
        else Inr (False, 0, s\<lparr>sc_field_length := fl\<rparr>))"

definition allow_space :: u64 where
  "allow_space =
     (let i = max (internal_format_positions ! 0) (internal_format_positions ! 1);
          i = max i (internal_format_positions ! 2)
      in (push_bit i 1 OR push_bit (internal_format_positions ! 6) 1) AND (1 OR 2 OR 4 OR 8))"

text \<open>The part of \<open>str_to_datetime\<close> behind the scan loop.\<close>

definition scan_result ::
  "bool \<Rightarrow> nat \<Rightarrow> nat \<Rightarrow> u64 \<Rightarrow> mysql_time \<Rightarrow> scan_state \<Rightarrow>
   (timestamp_type \<times> mysql_time \<times> nat) option" where
  "scan_result is_internal_format year_length start_loop flags l_time s =
     (if sc_found_delimitier s \<and> \<not> sc_found_space s \<and> flag_set flags TIME_DATETIME_ONLY
      then Some (MYSQL_TIMESTAMP_NONE, l_time, 1)
      else do {
        str \<leftarrow> sc_last_field_pos s;
        let number_of_fields = sc_i s - start_loop;
        date_len \<leftarrow> zero_from (MAX_DATE_PARTS - sc_i s) (sc_i s) (sc_date_len s);
        date \<leftarrow> zero_from (MAX_DATE_PARTS - sc_i s) (sc_i s) (sc_date s);
        year_length \<leftarrow> (if is_internal_format then Some year_length
                       else read_slot date_len (internal_format_positions ! 0));
        if \<not> is_internal_format \<and> year_length = 0 then Some (MYSQL_TIMESTAMP_NONE, l_time, 1)
        else do {
          fields \<leftarrow> assign_fields is_internal_format (sc_add_hours s)
                     (if is_internal_format then [0, 1, 2, 3, 4, 5, 6]
                      else internal_format_positions) date date_len l_time;
          case fields of
            Inl _ \<Rightarrow> Some (MYSQL_TIMESTAMP_ERROR, set_zero_time MYSQL_TIMESTAMP_DATE, 1)
          | Inr l_time \<Rightarrow>
              let not_zero_date = (sc_not_zero_date s \<noteq> 0);
                  year = (if year_length = 2 \<and> not_zero_date
                          then t_year l_time + (if t_year l_time < YY_PART_YEAR then 2000 else 1900)
                          else t_year l_time)
              in finish_datetime (l_time\<lparr>t_neg := False, t_year := year\<rparr>) number_of_fields
                   not_zero_date flags str
        }
      })"

text \<open>The result, the value of \<open>*l_time\<close> and that of \<open>*was_cut\<close>.\<close>

definition str_to_datetime ::
  "u8 list \<Rightarrow> mysql_time \<Rightarrow> u64 \<Rightarrow> (timestamp_type \<times> mysql_time \<times> nat) option" where
  "str_to_datetime str l_time flags =
     (let str = skip my_isspace str in
      if str = [] \<or> \<not> my_isdigit (hd str) then Some (MYSQL_TIMESTAMP_NONE, l_time, 1)
      else
        case scan_start str flags of
          Inl _ \<Rightarrow> Some (MYSQL_TIMESTAMP_NONE, l_time, 1)
        | Inr (is_internal_format, year_length, s) \<Rightarrow>
            do {
              r \<leftarrow> scan_loop (MAX_DATE_PARTS + 1) is_internal_format allow_space s;
              case r of
                Inl _ \<Rightarrow> Some (MYSQL_TIMESTAMP_NONE, l_time, 1)
              | Inr s' \<Rightarrow> scan_result is_internal_format year_length (sc_i s) flags l_time s'
            })"

section \<open>Reading a time\<close>

text \<open>A number; \<open>value\<close> is an \<open>ulonglong\<close>, so it wraps around.\<close>

fun read_number :: "u64 \<Rightarrow> u8 list \<Rightarrow> u64 \<times> u8 list" where
  "read_number val [] = (val, [])"
| "read_number val (c # str) =
     (if my_isdigit c then read_number (val * 10 + ucast (c - 48)) str else (val, c # str))"

text \<open>\<open>bmove_upp\<close> copies \<open>n\<close> elements that end at \<open>src\<close> to the place that ends at \<open>dst\<close>.\<close>

definition bmove_upp :: "'a list \<Rightarrow> nat \<Rightarrow> nat \<Rightarrow> nat \<Rightarrow> 'a list option" where
  "bmove_upp xs dst src n =
     (if n \<le> src \<and> n \<le> dst \<and> src \<le> length xs \<and> dst \<le> length xs
      then Some (take (dst - n) xs @ take n (drop (src - n) xs) @ drop dst xs) else None)"

definition bzero_slots :: "u64 option list \<Rightarrow> nat \<Rightarrow> nat \<Rightarrow> u64 option list option" where
  "bzero_slots xs i n =
     (if i + n \<le> length xs
      then Some (take i xs @ replicate n (Some 0) @ drop (i + n) xs) else None)"

text \<open>The loop over hours, minutes and seconds; it returns \<open>date\<close>, \<open>state\<close> and \<open>str\<close>.\<close>

fun read_hms :: "nat \<Rightarrow> u64 option list \<Rightarrow> nat \<Rightarrow> u8 list \<Rightarrow>
                 (u64 option list \<times> nat \<times> u8 list) option" where
  "read_hms 0 date state str = None"
| "read_hms (Suc fuel) date state str =
     (let (val, str) = read_number 0 str in
      do {
        date \<leftarrow> aset date state (Some val);
        let state = state + 1;
        if state = 4 \<or> length str < 2 \<or> hd str \<noteq> time_separator \<or> \<not> my_isdigit (str ! 1)
        then Some (date, state, str)
        else read_hms fuel date state (tl str)
      })"

text \<open>The digits of the fraction; the count of digits still to read goes below zero.\<close>

fun read_fraction :: "int \<Rightarrow> u64 \<Rightarrow> u8 list \<Rightarrow> int \<times> u64 \<times> u8 list" where
  "read_fraction field_length val [] = (field_length, val, [])"
| "read_fraction field_length val (c # str) =
     (if my_isdigit c
      then read_fraction (field_length - 1)
             (if field_length > 0 then val * 10 + ucast (c - 48) else val) str
      else (field_length, val, c # str))"

text \<open>The days, hours, minutes and seconds: \<open>date\<close> and \<open>str\<close> at the label \<open>fractional\<close>.\<close>

definition read_days_to_seconds :: "u8 list \<Rightarrow> (u64 option list \<times> u8 list) option" where
  "read_days_to_seconds str =
     (let (val, end_of_days) = read_number 0 str;
          str = skip my_isspace end_of_days;
          date = replicate 5 None;
          found_days =
            (length str > 1 \<and> length str \<noteq> length end_of_days \<and> my_isdigit (hd str));
          found_hours =
            (\<not> found_days \<and> length str > 1 \<and> hd str = time_separator \<and> my_isdigit (str ! 1))
      in
      if found_days \<or> found_hours then do {
        (date, state, str) \<leftarrow>
          (if found_days then Some (date[0 := Some val], 1, str)
           else Some (date[0 := Some 0, 1 := Some val], 2, tl str));
        (date, state, str) \<leftarrow> read_hms 4 date state str;
        date \<leftarrow>
          (if state \<noteq> 4 then
             if \<not> found_hours \<and> \<not> found_days then do {
               date \<leftarrow> bmove_upp date 4 state (state - 1);
               bzero_slots date 0 (4 - state)
             }
             else bzero_slots date state (4 - state)
           else Some date);
        Some (date, str)
      }
      else Some (date[0 := Some 0, 1 := Some (val div 10000), 2 := Some (val div 100 mod 100),
                      3 := Some (val mod 100)], str))"

text \<open>The fraction of a second: \<open>date\<close>, \<open>*warning\<close> and \<open>str\<close>.\<close>

definition read_second_part ::
  "u64 option list \<Rightarrow> nat \<Rightarrow> u8 list \<Rightarrow> (u64 option list \<times> nat \<times> u8 list) option" where
  "read_second_part date warning str =
     (if length str \<ge> 2 \<and> hd str = 46 \<and> my_isdigit (str ! 1) then
        let (field_length, val, str') = read_fraction 5 (ucast (str ! 1 - 48)) (drop 2 str) in
        do {
          val \<leftarrow> (if field_length > 0
                   then do { scale \<leftarrow> aget log_10_int (nat field_length);
                             Some (val * scale) }
                   else Some val);
          date \<leftarrow> aset date 4 (Some val);
          Some (date, if field_length < 0 then warning OR MYSQL_TIME_WARN_TRUNCATED else warning,
                str')
        }
      else do { date \<leftarrow> aset date 4 (Some 0); Some (date, warning, str) })"

definition has_exponent :: "u8 list \<Rightarrow> bool" where
  "has_exponent str \<longleftrightarrow>
     length str > 1 \<and> (hd str = 101 \<or> hd str = 69) \<and>
     (my_isdigit (str ! 1) \<or>
      ((str ! 1 = 45 \<or> str ! 1 = 43) \<and> length str > 2 \<and> my_isdigit (str ! 2)))"

text \<open>A possible AM or PM (only if the format has it).\<close>

definition read_am_pm :: "u64 option list \<Rightarrow> u8 list \<Rightarrow> (u64 option list \<times> u8 list) option" where
  "read_am_pm date str =
     (if internal_format_positions ! 7 \<noteq> 255 then
        let str = skip my_isspace str in
        if length str \<ge> 2 \<and> (str ! 1 = 77 \<or> str ! 1 = 109) then
          if hd str = 112 \<or> hd str = 80 then do {
            hour \<leftarrow> read_slot date 1;
            Some (date[1 := Some (hour mod 12 + 12)], drop 2 str)
          }
          else if hd str = 97 \<or> hd str = 65 then Some (date, drop 2 str)
          else Some (date, str)
        else Some (date, str)
      else Some (date, str))"

definition UINT_MAX :: u64 where
  "UINT_MAX = 4294967295"

text \<open>The last part of \<open>str_to_time\<close>, behind the exponent check.\<close>

definition finish_time ::
  "u64 option list \<Rightarrow> u8 list \<Rightarrow> mysql_time \<Rightarrow> nat \<Rightarrow> (bool \<times> mysql_time \<times> nat) option" where
  "finish_time date str l_time warning =
     do {
       d0 \<leftarrow> read_slot date 0;
       d1 \<leftarrow> read_slot date 1;
       d2 \<leftarrow> read_slot date 2;
       d3 \<leftarrow> read_slot date 3;
       d4 \<leftarrow> read_slot date 4;
       if d0 > UINT_MAX \<or> d1 > UINT_MAX \<or> d2 > UINT_MAX \<or> d3 > UINT_MAX \<or> d4 > UINT_MAX
       then Some (True, l_time, warning)
       else
         let (bad, l_time, out_of_range) =
               check_time_range
                 (l_time\<lparr>t_year := 0, t_month := 0, t_day := unat d0, t_hour := unat d1,
                         t_minute := unat d2, t_second := unat d3, t_second_part := unat d4,
                         t_type := MYSQL_TIMESTAMP_TIME\<rparr>);
             warning = (if out_of_range then warning OR MYSQL_TIME_WARN_OUT_OF_RANGE else warning)
         in if bad then Some (True, l_time, warning)
            else Some (False, l_time,
                       if has_garbage str then warning OR MYSQL_TIME_WARN_TRUNCATED else warning)
     }"

text \<open>The result, the value of \<open>*l_time\<close> and that of \<open>*warning\<close>.\<close>

definition str_to_time :: "u8 list \<Rightarrow> mysql_time \<Rightarrow> (bool \<times> mysql_time \<times> nat) option" where
  "str_to_time str l_time =
     (let l_time = l_time\<lparr>t_neg := False\<rparr>;
          str = skip my_isspace str;
          (l_time, str) =
            (if str \<noteq> [] \<and> hd str = 45 then (l_time\<lparr>t_neg := True\<rparr>, tl str) else (l_time, str))
      in
      if str = [] then Some (True, l_time, 0)
      else do {
        (res, l_time, was_cut) \<leftarrow>
          (if length str \<ge> 12
           then str_to_datetime str l_time (TIME_FUZZY_DATE OR TIME_DATETIME_ONLY)
           else Some (MYSQL_TIMESTAMP_NONE, l_time, 0));
        if res \<noteq> MYSQL_TIMESTAMP_NONE
        then Some (res = MYSQL_TIMESTAMP_ERROR, l_time,
                   if was_cut \<noteq> 0 then MYSQL_TIME_WARN_TRUNCATED else 0)
        else do {
          (date, str) \<leftarrow> read_days_to_seconds str;
          (date, warning, str) \<leftarrow> read_second_part date 0 str;
          if has_exponent str then Some (True, l_time, warning)
          else do {
            (date, str) \<leftarrow> read_am_pm date str;
            finish_time date str l_time warning
          }
        }
      })"

section \<open>Printing\<close>

text \<open>The conversions \<open>%02u\<close> and \<open>%04u\<close> of \<open>sprintf\<close>: decimal digits, padded with zeros.\<close>

fun decimal_digits :: "nat \<Rightarrow> u8 list" where
  "decimal_digits n =
     (if n < 10 then [word_of_nat (48 + n)]
      else decimal_digits (n div 10) @ [word_of_nat (48 + n mod 10)])"

definition sprintf_u :: "nat \<Rightarrow> nat \<Rightarrow> u8 list" where
  "sprintf_u width n =
     (let ds = decimal_digits n in replicate (width - length ds) 48 @ ds)"

definition my_time_to_str :: "mysql_time \<Rightarrow> u8 list" where
  "my_time_to_str l_time =
     (let extra_hours = 0 in
      (if t_neg l_time then [45] else []) @ sprintf_u 2 (extra_hours + t_hour l_time) @ [58] @
      sprintf_u 2 (t_minute l_time) @ [58] @ sprintf_u 2 (t_second l_time))"

definition my_date_to_str :: "mysql_time \<Rightarrow> u8 list" where
  "my_date_to_str l_time =
     sprintf_u 4 (t_year l_time) @ [45] @ sprintf_u 2 (t_month l_time) @ [45] @
     sprintf_u 2 (t_day l_time)"

definition my_datetime_to_str :: "mysql_time \<Rightarrow> u8 list" where
  "my_datetime_to_str l_time =
     sprintf_u 4 (t_year l_time) @ [45] @ sprintf_u 2 (t_month l_time) @ [45] @
     sprintf_u 2 (t_day l_time) @ [32] @ sprintf_u 2 (t_hour l_time) @ [58] @
     sprintf_u 2 (t_minute l_time) @ [58] @ sprintf_u 2 (t_second l_time)"

text \<open>The bytes before the terminating zero that the functions write to \<open>to\<close>.\<close>

definition my_TIME_to_str :: "mysql_time \<Rightarrow> u8 list" where
  "my_TIME_to_str l_time =
     (case t_type l_time of
        MYSQL_TIMESTAMP_DATETIME \<Rightarrow> my_datetime_to_str l_time
      | MYSQL_TIMESTAMP_DATE \<Rightarrow> my_date_to_str l_time
      | MYSQL_TIMESTAMP_TIME \<Rightarrow> my_time_to_str l_time
      | MYSQL_TIMESTAMP_NONE \<Rightarrow> []
      | MYSQL_TIMESTAMP_ERROR \<Rightarrow> [])"

end
