(* ===== verification/Time_Text.thy ===== *)
theory Time_Text
  imports Time_Parse
begin

text \<open>
  Correctness of the text form of dates and times. \<open>str_to_datetime\<close> and \<open>str_to_time\<close> are
  defined for every text: they read no array slot that was not written, stop, and give a value with
  all parts in their ranges or report an error. What \<open>my_TIME_to_str\<close> prints is read back. Two
  lemmas show inputs on which the code does not do what its comments say: a number that wraps
  around is accepted, and a space behind the fraction of a second is not.
\<close>

unbundle bit_operations_syntax


lemmas time_text_tables = internal_format_positions_def MAX_DATE_PARTS_def

declare decimal_digits.simps [simp del]

section \<open>Character classes\<close>

lemma ctype_classes:
  "map (\<lambda>x. x AND MY_NMR \<noteq> 0) (tl ctype_latin1) =
     replicate 48 False @ replicate 10 True @ replicate 198 False"
  "map (\<lambda>x. x AND MY_SPC \<noteq> 0) (tl ctype_latin1) =
     replicate 9 False @ replicate 5 True @ replicate 18 False @ [True] @ replicate 127 False @
     [True] @ replicate 95 False"
  "map (\<lambda>x. x AND MY_PNT \<noteq> 0) (take 16 (drop 49 ctype_latin1)) =
     replicate 10 False @ replicate 6 True"
  "ctype_latin1 ! 46 AND MY_PNT \<noteq> 0"
  "length ctype_latin1 = 257"
  by code_simp+

lemma ctype_nth: "(ctype_latin1 ! (unat c + 1) AND m \<noteq> 0) = map (\<lambda>x. x AND m \<noteq> 0) (tl ctype_latin1) ! unat c"
  for c :: u8
proof -
  have "unat c < 256" using unsigned_less [of c] by simp
  then show ?thesis by (simp add: ctype_classes(5) nth_tl)
qed

lemma byte_classes:
  "my_isdigit c \<longleftrightarrow> 48 \<le> unat c \<and> unat c \<le> 57"
  "my_isspace c \<longleftrightarrow> unat c \<in> {9, 10, 11, 12, 13, 32, 160}"
proof -
  have c: "unat c < 256" using unsigned_less [of c] by simp
  show "my_isdigit c \<longleftrightarrow> 48 \<le> unat c \<and> unat c \<le> 57"
    unfolding my_isdigit_def ctype_nth ctype_classes using c by (auto simp: nth_append)
  show "my_isspace c \<longleftrightarrow> unat c \<in> {9, 10, 11, 12, 13, 32, 160}"
    unfolding my_isspace_def ctype_nth ctype_classes using c by (auto simp: nth_append nth_Cons')
qed

lemma delimiter_classes [simp]:
  "\<not> my_isdigit 32" "\<not> my_isdigit 45" "\<not> my_isdigit 46" "\<not> my_isdigit 58"
  "my_isspace 32" "\<not> my_isspace 45" "\<not> my_isspace 58"
  by (simp_all add: byte_classes)

lemma my_ispunct_delimiter [simp]: "my_ispunct 45" "my_ispunct 58"
  using ctype_classes(4) arg_cong [OF ctype_classes(3), of "\<lambda>xs. xs ! 10"]
  by (simp_all add: my_ispunct_def nth_append ctype_classes(5))

lemma digit_not_space [simp]: "my_isdigit c \<Longrightarrow> \<not> my_isspace c"
  by (auto simp: byte_classes)

lemma digit_not_punct [simp]:
  assumes "my_isdigit c"
  shows "\<not> my_ispunct c"
proof -
  have "48 \<le> unat c" "unat c - 48 < 10" using assms by (auto simp: byte_classes)
  then show ?thesis
    using arg_cong [OF ctype_classes(3), of "\<lambda>xs. xs ! (unat c - 48)"]
    by (simp add: my_ispunct_def nth_append ctype_classes(5))
qed

lemma skip_append: "\<forall>c\<in>set xs. p c \<Longrightarrow> skip p (xs @ ys) = skip p ys"
  by (induction xs) auto

lemma skip_stop [simp]: "ys \<noteq> [] \<Longrightarrow> \<not> p (hd ys) \<Longrightarrow> skip p ys = ys"
  by (cases ys) auto

lemma length_skip: "length (skip p xs) \<le> length xs"
  by (induction xs) auto

section \<open>Digits\<close>

definition digit_of :: "u8 \<Rightarrow> nat" where
  "digit_of c = unat (c - 48)"

definition dec_val :: "nat \<Rightarrow> u8 list \<Rightarrow> nat" where
  "dec_val = foldl (\<lambda>v c. v * 10 + digit_of c)"

lemma dec_val_simps [simp]:
  "dec_val v [] = v"
  "dec_val v (c # ds) = dec_val (v * 10 + digit_of c) ds"
  "dec_val v (ds @ ds') = dec_val (dec_val v ds) ds'"
  by (simp_all add: dec_val_def)

lemma digit_of_less: "my_isdigit c \<Longrightarrow> digit_of c < 10"
  by (auto simp: byte_classes digit_of_def unat_sub_if' word_le_nat_alt)

lemma dec_val_less:
  "\<forall>c\<in>set ds. my_isdigit c \<Longrightarrow> v < 10 ^ n \<Longrightarrow> dec_val v ds < 10 ^ (n + length ds)"
proof (induction ds arbitrary: v n)
  case (Cons c ds)
  have "v * 10 + digit_of c < 10 ^ (n + 1)"
    using Cons.prems digit_of_less [of c] by simp
  from Cons.IH [OF _ this] Cons.prems show ?case by simp
qed simp

lemma ucast_digit: "(ucast (c - 48) :: u64) = word_of_nat (digit_of c)" for c :: u8
  by (simp add: digit_of_def of_nat_unat)

lemma of_nat_step:
  "(word_of_nat v :: u64) * 10 + ucast (c - 48) = word_of_nat (v * 10 + digit_of c)"
  by (simp add: ucast_digit)

lemma scan_digits_until:
  "\<forall>c\<in>set ds. my_isdigit c \<Longrightarrow> rest = [] \<or> \<not> my_isdigit (hd rest) \<Longrightarrow>
   scan_digits True fl (word_of_nat v) (ds @ rest) = (word_of_nat (dec_val v ds), rest)"
proof (induction ds arbitrary: v)
  case Nil
  then show ?case by (cases rest) auto
next
  case (Cons c ds)
  then show ?case by (simp add: of_nat_step del: of_nat_add of_nat_mult)
qed

lemma scan_digits_split:
  "scan_digits sd fl (word_of_nat v) str = (v', str') \<Longrightarrow>
   \<exists>ds. str = ds @ str' \<and> (\<forall>c\<in>set ds. my_isdigit c) \<and> v' = word_of_nat (dec_val v ds) \<and>
     (sd \<or> fl = 0 \<or> length ds < fl)"
proof (induction str arbitrary: v fl)
  case (Cons c str)
  show ?case
  proof (cases "my_isdigit c \<and> (sd \<or> uint_dec fl \<noteq> 0)")
    case True
    let ?fl = "if sd then fl else uint_dec fl"
    from True Cons.prems have "scan_digits sd ?fl (word_of_nat (v * 10 + digit_of c)) str = (v', str')"
      by (simp add: of_nat_step del: of_nat_add of_nat_mult split: if_splits)
    from Cons.IH [OF this] obtain ds where ds: "str = ds @ str'" "\<forall>c\<in>set ds. my_isdigit c"
      "v' = word_of_nat (dec_val (v * 10 + digit_of c) ds)" "sd \<or> ?fl = 0 \<or> length ds < ?fl"
      by blast
    then have "c # str = (c # ds) @ str'" "\<forall>c\<in>set (c # ds). my_isdigit c"
      "v' = word_of_nat (dec_val v (c # ds))" "sd \<or> fl = 0 \<or> length (c # ds) < fl"
      using True by (auto simp: uint_dec_def split: if_splits)
    then show ?thesis by blast
  next
    case False
    with Cons.prems have "v' = word_of_nat v" "str' = c # str" by auto
    then show ?thesis by (intro exI [of _ "[]"]) auto
  qed
qed auto

lemma read_number_eq:
  "\<forall>c\<in>set ds. my_isdigit c \<Longrightarrow> rest = [] \<or> \<not> my_isdigit (hd rest) \<Longrightarrow>
   read_number (word_of_nat v) (ds @ rest) = (word_of_nat (dec_val v ds), rest)"
proof (induction ds arbitrary: v)
  case Nil
  then show ?case by (cases rest) auto
next
  case (Cons c ds)
  then show ?case by (simp add: of_nat_step del: of_nat_add of_nat_mult)
qed

section \<open>The scan loop\<close>

text \<open>The state when the first \<open>n\<close> fields have been read.\<close>

definition scanned :: "nat \<Rightarrow> scan_state \<Rightarrow> bool" where
  "scanned n s \<longleftrightarrow> length (sc_date s) = 8 \<and> length (sc_date_len s) = 8 \<and> n \<le> 8 \<and>
     (\<forall>k<min n 7. \<exists>v l. sc_date s ! k = Some v \<and> sc_date_len s ! k = Some l) \<and>
     (n = 0 \<or> sc_last_field_pos s \<noteq> None) \<and>
     (n \<le> 6 \<or> (\<exists>v l. sc_date s ! 6 = Some v \<and> sc_date_len s ! 6 = Some l \<and> v < 10 ^ l \<and> l \<le> 6)) \<and>
     (sc_not_zero_date s \<noteq> 0 \<or> (\<forall>k<8. sc_date s ! k = None \<or> sc_date s ! k = Some 0))"

definition field_length_ok :: "scan_state \<Rightarrow> bool" where
  "field_length_ok s \<longleftrightarrow> sc_i s \<noteq> 6 \<or> (1 \<le> sc_field_length s \<and> sc_field_length s \<le> 6)"

definition at_digit :: "scan_state \<Rightarrow> bool" where
  "at_digit s \<longleftrightarrow> sc_str s \<noteq> [] \<and> my_isdigit (hd (sc_str s))"

lemma word_or_zero_iff: "a OR b = 0 \<longleftrightarrow> a = 0 \<and> b = 0" for a b :: "'a::len word"
  by (auto simp: bit_eq_iff bit_or_iff)

lemma scanned_cong:
  "sc_date s' = sc_date s \<Longrightarrow> sc_date_len s' = sc_date_len s \<Longrightarrow>
   sc_not_zero_date s' = sc_not_zero_date s \<Longrightarrow> sc_last_field_pos s' \<noteq> None \<Longrightarrow>
   scanned n s \<Longrightarrow> scanned n s'"
  by (auto simp: scanned_def)

lemma scanned_8: "scanned 7 s \<Longrightarrow> scanned 8 s"
  by (auto simp: scanned_def)

lemma scan_am_pm_eq:
  "scan_am_pm s = s\<lparr>sc_i := sc_i s + 1, sc_last_field_pos := Some (sc_str s)\<rparr>"
  by (simp add: scan_am_pm_def time_text_tables)

lemma field_value:
  assumes "scan_digits sd fl (ucast (hd start - 48)) (tl start) = (v, str)"
    and "start \<noteq> []" "my_isdigit (hd start)"
  obtains ds where "start = ds @ str" "ds \<noteq> []" "\<forall>c\<in>set ds. my_isdigit c"
    "v = word_of_nat (dec_val 0 ds)" "sd \<or> fl = 0 \<or> length ds \<le> fl"
proof -
  obtain ds where ds: "tl start = ds @ str" "\<forall>c\<in>set ds. my_isdigit c"
    "v = word_of_nat (dec_val (digit_of (hd start)) ds)" "sd \<or> fl = 0 \<or> length ds < fl"
    using scan_digits_split [of sd fl "digit_of (hd start)" "tl start" v str] assms(1)
    by (auto simp: ucast_digit)
  show ?thesis
    by (rule that [of "hd start # ds"]) (use ds assms in \<open>auto simp: neq_Nil_conv\<close>)
qed

definition field_read :: "u64 \<Rightarrow> nat \<Rightarrow> u8 list \<Rightarrow> scan_state \<Rightarrow> scan_state" where
  "field_read v len str s =
     s\<lparr>sc_str := str, sc_date := (sc_date s)[sc_i s := Some (unat v)],
       sc_date_len := (sc_date_len s)[sc_i s := Some len],
       sc_not_zero_date := sc_not_zero_date s OR v, sc_field_length := 2,
       sc_last_field_pos := Some str\<rparr>"

lemma scan_field_eq:
  assumes "scan_digits (\<not> int_format \<and> sc_i s \<noteq> 6) (sc_field_length s)
      (ucast (hd (sc_str s) - 48)) (tl (sc_str s)) = (v, str)"
    and "sc_i s < 7" "length (sc_date s) = 8" "length (sc_date_len s) = 8"
  shows "scan_field int_format sp s =
    Some (if v > 999999 then ScanReject
          else scan_behind_field sp (field_read v (length (sc_str s) - length str) str s))"
proof -
  have pos: "internal_format_positions ! 6 = 6" by (simp add: internal_format_positions_def)
  have np: "aget internal_format_positions (sc_i s + 1) = Some (internal_format_positions ! (sc_i s + 1))"
    "internal_format_positions ! (sc_i s + 1) \<noteq> 0"
    using assms(2) by (auto simp: internal_format_positions_def nth_Cons' numeral_eq_Suc less_Suc_eq)
  show ?thesis
    unfolding scan_field_def Let_def pos assms(1) prod.case np
    using assms np(2) by (simp add: field_read_def)
qed

lemma scan_field_step:
  assumes s: "scanned (sc_i s) s" "field_length_ok s" "at_digit s" and i: "sc_i s < 7"
  shows "scan_field int_format sp s = Some ScanReject \<or>
    (\<exists>s'. scan_field int_format sp s = Some (scan_behind_field sp s') \<and> scanned (sc_i s + 1) s' \<and>
       sc_i s' = sc_i s \<and> sc_field_length s' = 2)"
proof -
  let ?sd = "\<not> int_format \<and> sc_i s \<noteq> 6"
  obtain v str where sc: "scan_digits ?sd (sc_field_length s)
      (ucast (hd (sc_str s) - 48)) (tl (sc_str s)) = (v, str)" by fastforce
  obtain ds where ds: "sc_str s = ds @ str" "ds \<noteq> []" "\<forall>c\<in>set ds. my_isdigit c"
    "v = word_of_nat (dec_val 0 ds)" "?sd \<or> sc_field_length s = 0 \<or> length ds \<le> sc_field_length s"
    using s(3) field_value [OF sc] unfolding at_digit_def by blast
  have len: "length (sc_date s) = 8" "length (sc_date_len s) = 8"
    using s by (auto simp: scanned_def)
  let ?s = "field_read v (length ds) str s"
  have frac: "unat v < 10 ^ length ds \<and> length ds \<le> 6" if "sc_i s = 6"
  proof -
    have "length ds \<le> 6" using that s(2) ds(5) by (auto simp: field_length_ok_def)
    moreover have "dec_val 0 ds < 10 ^ length ds" using dec_val_less [OF ds(3), of 0 0] by simp
    moreover have "unat v \<le> dec_val 0 ds" by (simp add: ds(4) unat_of_nat)
    ultimately show ?thesis by linarith
  qed
  have "scanned (sc_i s + 1) ?s"
    using s(1) i frac len by (auto simp: scanned_def field_read_def nth_list_update less_Suc_eq word_or_zero_iff)
  moreover have "scan_field int_format sp s =
      Some (if v > 999999 then ScanReject else scan_behind_field sp ?s)"
    using scan_field_eq [OF sc i len] ds(1) by simp
  ultimately show ?thesis by (auto simp: field_read_def)
qed

lemma scan_behind_field_step:
  assumes s: "scanned (sc_i s + 1) s" "sc_i s < 7" "sc_field_length s = 2"
  shows "case scan_behind_field sp s of
      ScanReject \<Rightarrow> True
    | ScanBreak s' \<Rightarrow> sc_i s' = sc_i s + 1 \<and> scanned (sc_i s') s'
    | ScanNext s' \<Rightarrow> sc_i s \<le> sc_i s' \<and> scanned (sc_i s' + 1) s' \<and> field_length_ok (s'\<lparr>sc_i := sc_i s' + 1\<rparr>)"
proof -
  have last: "sc_last_field_pos s \<noteq> None" using s by (auto simp: scanned_def)
  have keep: "scanned n s'" if "scanned n s" "sc_date s' = sc_date s" "sc_date_len s' = sc_date_len s"
    "sc_not_zero_date s' = sc_not_zero_date s" "sc_last_field_pos s' \<noteq> None" for s' n
    using scanned_cong that by blast
  have pos: "internal_format_positions ! 2 = 2" "internal_format_positions ! 5 = 5"
    "internal_format_positions ! 6 = 6" by (simp_all add: internal_format_positions_def)
  show ?thesis
    using s last
    by (auto simp: scan_behind_field_def Let_def scan_am_pm_eq pos field_length_ok_def
        split: option.splits intro!: scanned_8 elim!: keep)
qed

lemma scan_loop_ok:
  "scanned (sc_i s) s \<Longrightarrow> field_length_ok s \<Longrightarrow> 8 < sc_i s + fuel \<Longrightarrow>
   scan_loop fuel int_format sp s = Some (Inl ()) \<or>
   (\<exists>s'. scan_loop fuel int_format sp s = Some (Inr s') \<and> scanned (sc_i s') s' \<and>
      sc_i s \<le> sc_i s' \<and> (\<not> (at_digit s \<and> sc_i s < 7) \<or> 0 < sc_i s'))"
proof (induction fuel arbitrary: s)
  case (Suc fuel)
  show ?case
  proof (cases "sc_i s < 7 \<and> at_digit s")
    case False
    then show ?thesis using Suc.prems by (auto simp: MAX_DATE_PARTS_def at_digit_def)
  next
    case True
    then have unf: "scan_loop (Suc fuel) int_format sp s =
      (case scan_field int_format sp s of
          None \<Rightarrow> None
        | Some ScanReject \<Rightarrow> Some (Inl ())
        | Some (ScanBreak s) \<Rightarrow> Some (Inr s)
        | Some (ScanNext s) \<Rightarrow> scan_loop fuel int_format sp (s\<lparr>sc_i := sc_i s + 1\<rparr>))"
      by (simp add: MAX_DATE_PARTS_def at_digit_def)
    from scan_field_step [OF Suc.prems(1,2), of int_format sp] True
    consider "scan_field int_format sp s = Some ScanReject"
      | s' where "scan_field int_format sp s = Some (scan_behind_field sp s')"
        "scanned (sc_i s' + 1) s'" "sc_i s' = sc_i s" "sc_field_length s' = 2" by auto
    then show ?thesis
    proof cases
      case 1
      then show ?thesis by (simp add: unf del: scan_loop.simps)
    next
      case 2
      have st: "case scan_behind_field sp s' of
          ScanReject \<Rightarrow> True
        | ScanBreak s' \<Rightarrow> sc_i s' = sc_i s + 1 \<and> scanned (sc_i s') s'
        | ScanNext s' \<Rightarrow> sc_i s \<le> sc_i s' \<and> scanned (sc_i s' + 1) s' \<and>
            field_length_ok (s'\<lparr>sc_i := sc_i s' + 1\<rparr>)"
        using scan_behind_field_step [OF 2(2), of sp] 2(3,4) True unfolding 2(3) by blast
      show ?thesis
      proof (cases "scan_behind_field sp s'")
        case (ScanNext s2)
        let ?s = "s2\<lparr>sc_i := sc_i s2 + 1\<rparr>"
        have "scanned (sc_i ?s) ?s" "field_length_ok ?s" "8 < sc_i ?s + fuel" "sc_i s \<le> sc_i ?s" "0 < sc_i ?s"
          using st ScanNext Suc.prems(3) by (auto simp: scanned_def)
        with Suc.IH [of ?s] show ?thesis using 2(1) ScanNext unf by (auto simp del: scan_loop.simps)
      qed (use st 2(1) unf in \<open>auto simp del: scan_loop.simps\<close>)
    qed
  qed
qed (simp add: scanned_def)

section \<open>The result of the scan\<close>

lemma zero_from_eq:
  "i + n \<le> length xs \<Longrightarrow> zero_from n i xs = Some (take i xs @ replicate n (Some 0) @ drop (i + n) xs)"
proof (induction n arbitrary: i xs)
  case (Suc n)
  have "take (i + 1) (xs[i := Some 0]) = take i xs @ [Some 0]"
    using Suc.prems by (simp add: take_Suc_conv_app_nth)
  with Suc show ?case by simp
qed simp

lemma log_10_int_nth: "k \<le> 9 \<Longrightarrow> aget log_10_int k = Some (10 ^ k)"
  by (auto simp: log_10_int_def nth_Cons' numeral_eq_Suc le_Suc_eq)

lemma scanned_zero_from:
  assumes "scanned n s"
  obtains date date_len where
    "zero_from (8 - n) n (sc_date s) = Some date" "zero_from (8 - n) n (sc_date_len s) = Some date_len"
    "length date = 8" "length date_len = 8"
    "\<forall>k<7. \<exists>v. date ! k = Some v" "\<forall>k<7. \<exists>l. date_len ! k = Some l"
    "\<exists>v l. date ! 6 = Some v \<and> date_len ! 6 = Some l \<and> v < 10 ^ l \<and> l \<le> 6"
    "sc_not_zero_date s \<noteq> 0 \<or> (\<forall>k<7. date ! k = Some 0)"
proof -
  let ?z = "\<lambda>xs :: nat option list. take n xs @ replicate (8 - n) (Some 0)"
  have n: "n \<le> 8" and len: "length (sc_date s) = 8" "length (sc_date_len s) = 8"
    using assms by (auto simp: scanned_def)
  have z: "zero_from (8 - n) n (sc_date s) = Some (?z (sc_date s))"
    "zero_from (8 - n) n (sc_date_len s) = Some (?z (sc_date_len s))"
    using n len by (simp_all add: zero_from_eq)
  have nth: "?z xs ! k = (if k < n then xs ! k else Some 0)" if "length xs = 8" "k < 8" for xs k
    using that n by (auto simp: nth_append)
  have "\<exists>v. ?z (sc_date s) ! k = Some v" "\<exists>l. ?z (sc_date_len s) ! k = Some l" if "k < 7" for k
    using that assms len by (auto simp: nth scanned_def)
  moreover have "\<exists>v l. ?z (sc_date s) ! 6 = Some v \<and> ?z (sc_date_len s) ! 6 = Some l \<and> v < 10 ^ l \<and> l \<le> 6"
  proof (cases "n \<le> 6")
    case True
    then show ?thesis using len by (simp only: nth) simp
  next
    case False
    then show ?thesis using len assms by (simp only: nth) (simp add: scanned_def)
  qed
  moreover have "sc_not_zero_date s \<noteq> 0 \<or> (\<forall>k<7. ?z (sc_date s) ! k = Some 0)"
  proof (cases "sc_not_zero_date s = 0")
    case True
    have "?z (sc_date s) ! k = Some 0" if k: "k < 7" for k
    proof (cases "k < n")
      case k': True
      then have "sc_date s ! k \<noteq> None" "sc_date s ! k = None \<or> sc_date s ! k = Some 0"
        using k True assms unfolding scanned_def by (fastforce, simp)
      then show ?thesis using k k' len by (simp only: nth) simp
    qed (use k len in \<open>simp only: nth, simp\<close>)
    then show ?thesis by blast
  qed simp
  ultimately show ?thesis using z n len
    by (intro that [of "?z (sc_date s)" "?z (sc_date_len s)"]) (assumption | simp)+
qed

lemma scaled_fraction:
  assumes "v < 10 ^ l" "l \<le> 6"
  shows "v * 10 ^ (6 - l) < (10 :: nat) ^ 6"
proof -
  have "v * 10 ^ (6 - l) < 10 ^ l * 10 ^ (6 - l)" using assms by simp
  also have "\<dots> = (10 :: nat) ^ 6" using assms by (simp flip: power_add)
  finally show ?thesis .
qed

lemma uint_wrap_small: "n < 2 ^ 32 \<Longrightarrow> uint_wrap n = n"
  by (simp add: uint_wrap_def)

lemma unat_log_10: "k \<le> 6 \<Longrightarrow> uint_wrap (unat (10 ^ k :: u64)) = 10 ^ k"
proof -
  assume "k \<le> 6"
  then consider "k = 0" | "k = 1" | "k = 2" | "k = 3" | "k = 4" | "k = 5" | "k = 6" by linarith
  then show ?thesis by cases (simp_all add: uint_wrap_def)
qed

lemma read_fraction_slot:
  assumes "v < 10 ^ l" "l \<le> 6"
  shows "(if l < 6 then do { scale \<leftarrow> aget log_10_int (6 - l);
                             Some (uint_wrap (v * uint_wrap (unat scale))) } else Some v) =
    Some (v * 10 ^ (6 - l))"
  using assms scaled_fraction [OF assms]
  by (auto simp: log_10_int_nth unat_log_10 uint_wrap_small)

lemma assign_fields_eq:
  assumes d: "length date = 8" "length date_len = 8"
    and pos: "\<forall>k<7. pos ! k = k"
    and v: "date ! 0 = Some y" "date ! 1 = Some m" "date ! 2 = Some d" "date ! 3 = Some h"
      "date ! 4 = Some mi" "date ! 5 = Some se" "date ! 6 = Some v"
    and l: "date_len ! 6 = Some l" "v < 10 ^ l" "l \<le> 6"
  shows "assign_fields int_format add_hours pos date date_len t =
    Some (Inr (t\<lparr>t_year := y, t_month := m, t_day := d, t_hour := h, t_minute := mi, t_second := se,
                 t_second_part := v * 10 ^ (6 - l)\<rparr>))"
proof -
  have f: "internal_format_positions ! 7 = 255" by (simp add: internal_format_positions_def)
  show ?thesis
    unfolding assign_fields_def using d pos v l(1)
    by (simp add: read_slot_def read_fraction_slot [OF l(2,3)] f)
qed

text \<open>
  The dates the flags allow. The zero date, with all parts 0, needs that \<open>TIME_NO_ZERO_DATE\<close> is
  not set. Any other date with a zero month or day needs \<open>TIME_FUZZY_DATE\<close> without
  \<open>TIME_NO_ZERO_IN_DATE\<close>, and a day the month does not have needs \<open>TIME_INVALID_DATES\<close>.
\<close>

definition date_allowed :: "u64 \<Rightarrow> mysql_time \<Rightarrow> bool" where
  "date_allowed flags t \<longleftrightarrow>
     t_year t = 0 \<and> t_month t = 0 \<and> t_day t = 0 \<and> t_hour t = 0 \<and> t_minute t = 0 \<and> t_second t = 0 \<and>
       t_second_part t = 0 \<and> \<not> flag_set flags TIME_NO_ZERO_DATE \<or>
     (t_month t \<noteq> 0 \<and> t_day t \<noteq> 0 \<or>
       flag_set flags TIME_FUZZY_DATE \<and> \<not> flag_set flags TIME_NO_ZERO_IN_DATE) \<and>
     (t_month t = 0 \<or> t_day t \<le> month_days (t_year t) (t_month t) \<or> flag_set flags TIME_INVALID_DATES)"

definition datetime_fields :: "u64 \<Rightarrow> mysql_time \<Rightarrow> bool" where
  "datetime_fields flags t \<longleftrightarrow>
     \<not> t_neg t \<and> t_year t \<le> 9999 \<and> t_month t \<le> 12 \<and> t_day t \<le> 31 \<and> t_hour t \<le> 23 \<and>
     t_minute t \<le> 59 \<and> t_second t \<le> 59 \<and> t_second_part t \<le> 999999 \<and> date_allowed flags t"

text \<open>What a call of \<open>str_to_datetime\<close> may give.\<close>

definition datetime_result :: "u64 \<Rightarrow> mysql_time \<Rightarrow> timestamp_type \<times> mysql_time \<times> nat \<Rightarrow> bool" where
  "datetime_result flags l_time r =
     (case r of (ty, t, was_cut) \<Rightarrow>
        ty = MYSQL_TIMESTAMP_NONE \<and> t = l_time \<and> was_cut = 1 \<or>
        ty = MYSQL_TIMESTAMP_ERROR \<and> t = set_zero_time MYSQL_TIMESTAMP_DATE \<and> was_cut \<le> 2 \<or>
        (ty = MYSQL_TIMESTAMP_DATE \<or> ty = MYSQL_TIMESTAMP_DATETIME) \<and> t_type t = ty \<and> was_cut \<le> 1 \<and>
        datetime_fields flags t)"

lemma check_date_cases:
  assumes "t_month t \<le> 12"
  shows "\<exists>w' bad. check_date t nz flags w = Some (w', bad) \<and> (w' = w \<or> bad \<and> w' = 2) \<and>
    (bad \<or> \<not> nz \<and> \<not> flag_set flags TIME_NO_ZERO_DATE \<or>
     (t_month t \<noteq> 0 \<and> t_day t \<noteq> 0 \<or>
       flag_set flags TIME_FUZZY_DATE \<and> \<not> flag_set flags TIME_NO_ZERO_IN_DATE) \<and>
     (t_month t = 0 \<or> t_day t \<le> month_days (t_year t) (t_month t) \<or> flag_set flags TIME_INVALID_DATES))"
proof -
  have "aget days_in_month (t_month t - 1) = Some (days_in_month ! (t_month t - 1))"
    using assms by (simp add: days_in_month_def)
  then have eq: "check_date t nz flags w =
    (if nz then
       if a then Some (2, True)
       else if b \<and> t_month t \<noteq> 0 then if c then Some (2, True) else Some (w, False)
       else Some (w, False)
     else if e then Some (w, True) else Some (w, False))"
    if "a \<longleftrightarrow> (flag_set flags TIME_NO_ZERO_IN_DATE \<or> \<not> flag_set flags TIME_FUZZY_DATE) \<and>
          (t_month t = 0 \<or> t_day t = 0)"
      "b \<longleftrightarrow> \<not> flag_set flags TIME_INVALID_DATES"
      "c \<longleftrightarrow> t_day t > days_in_month ! (t_month t - 1) \<and>
          (t_month t \<noteq> 2 \<or> calc_days_in_year (t_year t) \<noteq> 366 \<or> t_day t \<noteq> 29)"
      "e \<longleftrightarrow> flag_set flags TIME_NO_ZERO_DATE" for a b c e
    unfolding that by (simp add: check_date_def)
  have len: "t_day t \<le> month_days (t_year t) (t_month t)"
    if "\<not> (t_day t > days_in_month ! (t_month t - 1) \<and>
          (t_month t \<noteq> 2 \<or> calc_days_in_year (t_year t) \<noteq> 366 \<or> t_day t \<noteq> 29))"
  proof (cases "t_month t = 2 \<and> calc_days_in_year (t_year t) = 366")
    case True
    then have "days_in_month ! (t_month t - 1) = 28" by (simp add: days_in_month_def)
    with that True show ?thesis by (simp add: month_days_def) linarith
  next
    case False
    with that show ?thesis by (auto simp: month_days_def)
  qed
  show ?thesis
    unfolding eq [OF refl refl refl refl] using len by (simp split: if_split) blast
qed

lemma finish_datetime_ok:
  assumes "\<not> t_neg t" "t_second_part t \<le> 999999"
    and z: "nz \<or> t_year t = 0 \<and> t_month t = 0 \<and> t_day t = 0 \<and> t_hour t = 0 \<and> t_minute t = 0 \<and>
      t_second t = 0 \<and> t_second_part t = 0"
  shows "\<exists>r. finish_datetime t nf nz flags str = Some r \<and> datetime_result flags l_time r"
proof (cases "nf < 3 \<or> t_year t > 9999 \<or> t_month t > 12 \<or> t_day t > 31 \<or> t_hour t > 23 \<or>
    t_minute t > 59 \<or> t_second t > 59")
  case True
  then show ?thesis by (auto simp: finish_datetime_def datetime_result_def)
next
  case False
  then have m: "t_month t \<le> 12" by auto
  obtain w bad where c: "check_date t nz flags 0 = Some (w, bad)" "w = 0 \<or> bad \<and> w = 2"
    "bad \<or> \<not> nz \<and> \<not> flag_set flags TIME_NO_ZERO_DATE \<or>
     (t_month t \<noteq> 0 \<and> t_day t \<noteq> 0 \<or>
       flag_set flags TIME_FUZZY_DATE \<and> \<not> flag_set flags TIME_NO_ZERO_IN_DATE) \<and>
     (t_month t = 0 \<or> t_day t \<le> month_days (t_year t) (t_month t) \<or> flag_set flags TIME_INVALID_DATES)"
    using check_date_cases [OF m, of nz flags 0] by blast
  have "bad \<or> date_allowed flags t" using c(3) z unfolding date_allowed_def by blast
  moreover have "date_allowed flags (t\<lparr>t_type := ty\<rparr>) = date_allowed flags t" for ty
    by (simp add: date_allowed_def)
  ultimately have "bad \<or> datetime_fields flags (t\<lparr>t_type := ty\<rparr>)" for ty
    using False assms(1,2) unfolding datetime_fields_def by auto
  then show ?thesis
    using False c(1,2) by (auto simp: finish_datetime_def datetime_result_def Let_def)
qed

lemma scan_result_ok:
  assumes s: "scanned (sc_i s) s" "0 < sc_i s"
  shows "\<exists>r. scan_result int_format yl st flags l_time s = Some r \<and> datetime_result flags l_time r"
proof -
  obtain date date_len where z:
    "zero_from (8 - sc_i s) (sc_i s) (sc_date s) = Some date"
    "zero_from (8 - sc_i s) (sc_i s) (sc_date_len s) = Some date_len"
    and d: "length date = 8" "length date_len = 8"
    and v: "\<forall>k<7. \<exists>v. date ! k = Some v" "\<forall>k<7. \<exists>l. date_len ! k = Some l"
      "\<exists>v l. date ! 6 = Some v \<and> date_len ! 6 = Some l \<and> v < 10 ^ l \<and> l \<le> 6"
    and nz: "sc_not_zero_date s \<noteq> 0 \<or> (\<forall>k<7. date ! k = Some 0)"
    using scanned_zero_from [OF s(1)] by blast
  obtain y m d' h mi se v l where f: "date ! 0 = Some y" "date ! 1 = Some m" "date ! 2 = Some d'"
    "date ! 3 = Some h" "date ! 4 = Some mi" "date ! 5 = Some se" "date ! 6 = Some v"
    "date_len ! 6 = Some l" "v < 10 ^ l" "l \<le> 6"
    using v(1) [rule_format, of 0] v(1) [rule_format, of 1] v(1) [rule_format, of 2]
      v(1) [rule_format, of 3] v(1) [rule_format, of 4] v(1) [rule_format, of 5] v(3) by auto
  obtain yl' where y: "date_len ! 0 = Some yl'" using v(2) [rule_format, of 0] by auto
  obtain str where str: "sc_last_field_pos s = Some str" using s by (auto simp: scanned_def)
  define pos where "pos = (if int_format then [0, 1, 2, 3, 4, 5, 6] else internal_format_positions)"
  have pos: "\<forall>k<7. pos ! k = k"
    by (auto simp: pos_def internal_format_positions_def nth_Cons' numeral_eq_Suc less_Suc_eq)
  define t where "t = l_time\<lparr>t_year := y, t_month := m, t_day := d', t_hour := h, t_minute := mi,
    t_second := se, t_second_part := v * 10 ^ (6 - l)\<rparr>"
  have asg: "assign_fields int_format (sc_add_hours s) pos date date_len l_time = Some (Inr t)"
    unfolding t_def by (rule assign_fields_eq [OF d pos f])
  have t: "t_second_part t \<le> 999999" "sc_not_zero_date s \<noteq> 0 \<or> t_year t = 0 \<and> t_month t = 0 \<and>
      t_day t = 0 \<and> t_hour t = 0 \<and> t_minute t = 0 \<and> t_second t = 0 \<and> t_second_part t = 0"
    using scaled_fraction [OF f(9,10)] nz f(1-7) by (auto simp: t_def)
  have yl: "read_slot date_len (internal_format_positions ! 0) = Some yl'"
    using d y by (simp add: read_slot_def internal_format_positions_def)
  have fin: "\<exists>r. finish_datetime (t\<lparr>t_neg := False, t_year := y\<rparr>) nf (sc_not_zero_date s \<noteq> 0) flags str =
      Some r \<and> datetime_result flags l_time r" if "sc_not_zero_date s \<noteq> 0 \<or> y = t_year t" for nf y
    by (rule finish_datetime_ok) (use t that in auto)
  have none: "datetime_result flags l_time (MYSQL_TIMESTAMP_NONE, l_time, 1)"
    by (simp add: datetime_result_def)
  show ?thesis
    unfolding scan_result_def pos_def [symmetric] MAX_DATE_PARTS_def z str yl bind.simps Let_def asg
    using none fin by (auto simp del: One_nat_def)
qed

definition scan_init :: "u8 list \<Rightarrow> nat \<Rightarrow> scan_state" where
  "scan_init str fl =
     \<lparr>sc_i = 0, sc_str = str, sc_date = replicate 8 None, sc_date_len = Some 0 # replicate 7 None,
      sc_field_length = fl, sc_not_zero_date = 0, sc_found_delimitier = False,
      sc_found_space = False, sc_last_field_pos = None, sc_add_hours = 0\<rparr>"

lemma scan_start_eq:
  fixes str :: "u8 list"
  defines "pos \<equiv> skip (\<lambda>c. my_isdigit c \<or> c = 84) str"
  defines "yl \<equiv> (let digits = length str - length pos in
    if digits = 4 \<or> digits = 8 \<or> digits \<ge> 14 then 4 else 2)"
  shows "scan_start str flags =
    (if pos = [] \<or> hd pos = 46 then Inr (True, yl, scan_init str yl)
     else Inr (False, 0, scan_init str 4))"
proof -
  have f: "internal_format_positions ! 0 = 0" by (simp add: internal_format_positions_def)
  have r: "replicate 8 None = (None :: nat option) # replicate 7 None" by (simp add: numeral_eq_Suc)
  show ?thesis
    unfolding scan_start_def Let_def pos_def [symmetric] MAX_DATE_PARTS_def f yl_def scan_init_def
    by (simp add: r)
qed

lemma scan_start_form: "\<exists>b yl fl. scan_start str flags = Inr (b, yl, scan_init str fl)"
  unfolding scan_start_eq by (rule if_split [THEN iffD2]) blast

lemma str_to_datetime_ok:
  "\<exists>r. str_to_datetime str l_time flags = Some r \<and> datetime_result flags l_time r"
proof -
  have none: "datetime_result flags l_time (MYSQL_TIMESTAMP_NONE, l_time, 1)"
    by (simp add: datetime_result_def)
  let ?str = "skip my_isspace str"
  show ?thesis
  proof (cases "?str = [] \<or> \<not> my_isdigit (hd ?str)")
    case True
    then show ?thesis using none by (simp add: str_to_datetime_def)
  next
    case False
    obtain b yl fl where st: "scan_start ?str flags = Inr (b, yl, scan_init ?str fl)"
      using scan_start_form by blast
    define s where "s = scan_init ?str fl"
    have s: "sc_i s = 0" "scanned (sc_i s) s" "field_length_ok s" "at_digit s"
      using False by (auto simp: s_def scan_init_def scanned_def field_length_ok_def at_digit_def)
    have eq: "str_to_datetime str l_time flags =
      do {
        r \<leftarrow> scan_loop 9 b allow_space s;
        case r of
          Inl _ \<Rightarrow> Some (MYSQL_TIMESTAMP_NONE, l_time, 1)
        | Inr s' \<Rightarrow> scan_result b yl 0 flags l_time s'
      }"
      using False st s(1) by (simp add: str_to_datetime_def MAX_DATE_PARTS_def s_def del: One_nat_def)
    from scan_loop_ok [OF s(2,3), of 9 b allow_space] s(1,4)
    consider "scan_loop 9 b allow_space s = Some (Inl ())"
      | s' where "scan_loop 9 b allow_space s = Some (Inr s')" "scanned (sc_i s') s'" "0 < sc_i s'"
      by auto
    then show ?thesis by cases (use none scan_result_ok in \<open>auto simp: eq\<close>)
  qed
qed

section \<open>Printed values are read back\<close>

lemma digit_byte:
  assumes "d < 10"
  shows "my_isdigit (word_of_nat (48 + d))" "digit_of (word_of_nat (48 + d)) = d"
proof -
  have u: "unat (word_of_nat (48 + d) :: u8) = 48 + d"
    using assms by (simp add: unat_of_nat del: of_nat_add)
  then show "my_isdigit (word_of_nat (48 + d))" using assms by (simp add: byte_classes del: of_nat_add)
  have "(word_of_nat (48 + d) :: u8) - 48 = word_of_nat d" by simp
  then show "digit_of (word_of_nat (48 + d)) = d"
    using assms unfolding digit_of_def by (simp add: unat_of_nat)
qed

lemma decimal_digits_ok:
  "(\<forall>c\<in>set (decimal_digits n). my_isdigit c) \<and> dec_val 0 (decimal_digits n) = n \<and> decimal_digits n \<noteq> []"
proof (induction n rule: decimal_digits.induct)
  case (1 n)
  show ?case
  proof (cases "n < 10")
    case True
    then show ?thesis
      using digit_byte [of n] by (simp add: decimal_digits.simps [of n] del: of_nat_add)
  next
    case False
    have "n mod 10 < 10" by simp
    then show ?thesis
      using 1 [OF False] False digit_byte [of "n mod 10"]
      by (simp add: decimal_digits.simps [of n] del: of_nat_add)
  qed
qed

lemma length_decimal_digits: "0 < w \<Longrightarrow> n < 10 ^ w \<Longrightarrow> length (decimal_digits n) \<le> w"
proof (induction n arbitrary: w rule: decimal_digits.induct)
  case (1 n)
  show ?case
  proof (cases "n < 10")
    case False
    then obtain w' where w: "w = Suc w'" "0 < w'" using 1(2,3) by (cases w; cases "w - 1") auto
    then have "n div 10 < 10 ^ w'" using 1(3) by (simp add: div_less_iff_less_mult mult.commute)
    from 1(1) [OF False w(2) this] show ?thesis using False w by (simp add: decimal_digits.simps [of n])
  qed (use 1(2) in \<open>simp add: decimal_digits.simps [of n]\<close>)
qed

lemma dec_val_zeros [simp]: "dec_val 0 (replicate k 48) = 0"
  by (induction k) (simp_all add: digit_of_def)

lemma sprintf_u_ok:
  "\<forall>c\<in>set (sprintf_u w n). my_isdigit c" "dec_val 0 (sprintf_u w n) = n" "sprintf_u w n \<noteq> []"
  using decimal_digits_ok [of n] by (auto simp: sprintf_u_def Let_def byte_classes)

lemma length_sprintf_u: "0 < w \<Longrightarrow> n < 10 ^ w \<Longrightarrow> length (sprintf_u w n) = w"
  using length_decimal_digits [of w n] by (simp add: sprintf_u_def Let_def)

lemma hd_sprintf_u [simp]: "my_isdigit (hd (sprintf_u w n @ xs))" "my_isdigit (hd (sprintf_u w n))"
  using sprintf_u_ok [of w n] by (cases "sprintf_u w n"; auto)+

lemma field_digits:
  assumes "\<forall>c\<in>set ds. my_isdigit c" "ds \<noteq> []" "rest = [] \<or> \<not> my_isdigit (hd rest)"
  shows "scan_digits True fl (ucast (hd (ds @ rest) - 48)) (tl (ds @ rest)) =
    (word_of_nat (dec_val 0 ds), rest)"
proof -
  obtain c ds' where "ds = c # ds'" using assms(2) by (cases ds) auto
  then show ?thesis
    using scan_digits_until [of ds' rest fl "digit_of c"] assms by (simp add: ucast_digit)
qed

lemma allow_space_eq: "allow_space = 4"
  by (simp add: allow_space_def internal_format_positions_def)

text \<open>An iteration of the scan loop that reads a field and the delimiter behind it.\<close>

lemma of_nat_mod_64: "(word_of_nat (n mod 2 ^ 64) :: u64) = word_of_nat n"
  by (simp add: word_unat_eq_iff unat_of_nat)

text \<open>
  The number \<open>n\<close> that is read is the printed number \<open>N\<close> reduced to 64 bits.
\<close>

lemma scan_loop_field:
  assumes str: "sc_str s = sprintf_u w N @ c # rest" and n: "N mod 2 ^ 64 = n" "n \<le> 999999"
    and c: "c = 45 \<or> c = 58 \<or> c = 32 \<and> sc_i s = 2"
    and rest: "rest \<noteq> []" "my_isdigit (hd rest)"
    and s: "sc_i s < 5" "length (sc_date s) = 8" "length (sc_date_len s) = 8"
  shows "scan_loop (Suc fuel) False allow_space s =
    scan_loop fuel False allow_space
      (s\<lparr>sc_str := rest, sc_date := (sc_date s)[sc_i s := Some n],
         sc_date_len := (sc_date_len s)[sc_i s := Some (length (sprintf_u w N))],
         sc_not_zero_date := sc_not_zero_date s OR word_of_nat n, sc_field_length := 2,
         sc_found_delimitier := True, sc_found_space := (sc_found_space s \<or> c = 32),
         sc_last_field_pos := Some rest, sc_i := sc_i s + 1\<rparr>)"
proof -
  have sd: "scan_digits True fl (ucast (hd (sc_str s) - 48)) (tl (sc_str s)) = (word_of_nat n, c # rest)" for fl
    using field_digits [of "sprintf_u w N" "c # rest" fl] sprintf_u_ok [of w N] c str
      of_nat_mod_64 [of N] n(1) by auto
  have v: "\<not> (word_of_nat n :: u64) > 999999" "unat (word_of_nat n :: u64) = n"
    using n by (simp_all add: unat_of_nat word_less_nat_alt)
  have pos: "internal_format_positions ! 2 = 2" "internal_format_positions ! 5 = 5"
    "internal_format_positions ! 6 = 6" by (simp_all add: internal_format_positions_def)
  have rest': "skip_delimiters b rest d sp = Some (rest, d, sp)" for b d sp
    using rest by (cases rest) auto
  have sp: "skip_delimiters (allow_space AND push_bit (sc_i s) 1 \<noteq> 0) (c # rest)
      (sc_found_delimitier s) (sc_found_space s) = Some (rest, True, sc_found_space s \<or> c = 32)"
    using c by (auto simp: rest' allow_space_eq)
  have dig: "sc_str s \<noteq> []" "my_isdigit (hd (sc_str s))"
    using str by auto
  define s1 where "s1 = field_read (word_of_nat n) (length (sprintf_u w N)) (c # rest) s"
  have 1: "scan_field False allow_space s = Some (scan_behind_field allow_space s1)"
    using scan_field_eq [of False s "word_of_nat n" "c # rest" allow_space] s v sd str
    by (simp add: s1_def)
  have s1: "sc_i s1 = sc_i s" "sc_str s1 = c # rest" "sc_found_delimitier s1 = sc_found_delimitier s"
    "sc_found_space s1 = sc_found_space s" by (simp_all add: s1_def field_read_def)
  have c': "c \<noteq> 84" "sc_i s \<noteq> 5" "sc_i s \<noteq> 6" using c s(1) by auto
  have "scan_behind_field allow_space s1 = ScanNext
      (s1\<lparr>sc_str := rest, sc_found_delimitier := True,
          sc_found_space := (sc_found_space s \<or> c = 32), sc_last_field_pos := Some rest\<rparr>)"
    unfolding scan_behind_field_def Let_def s1 pos sp using c' by simp
  then have "scan_field False allow_space s = Some (ScanNext
      (s\<lparr>sc_str := rest, sc_date := (sc_date s)[sc_i s := Some n],
         sc_date_len := (sc_date_len s)[sc_i s := Some (length (sprintf_u w N))],
         sc_not_zero_date := sc_not_zero_date s OR word_of_nat n, sc_field_length := 2,
         sc_found_delimitier := True, sc_found_space := (sc_found_space s \<or> c = 32),
         sc_last_field_pos := Some rest\<rparr>))"
    using v(2) by (simp add: 1 s1_def field_read_def)
  then show ?thesis using s(1) dig by (simp add: MAX_DATE_PARTS_def)
qed


text \<open>The last field of the text.\<close>

lemma scan_loop_last:
  assumes str: "sc_str s = sprintf_u w n" and n: "n \<le> 999999"
    and s: "sc_i s < 6" "length (sc_date s) = 8" "length (sc_date_len s) = 8"
  shows "scan_loop (Suc fuel) False allow_space s =
    Some (Inr
      (s\<lparr>sc_str := [], sc_date := (sc_date s)[sc_i s := Some n],
         sc_date_len := (sc_date_len s)[sc_i s := Some (length (sprintf_u w n))],
         sc_not_zero_date := sc_not_zero_date s OR word_of_nat n, sc_field_length := 2,
         sc_last_field_pos := Some [], sc_i := sc_i s + 1\<rparr>))"
proof -
  have sd: "scan_digits True fl (ucast (hd (sc_str s) - 48)) (tl (sc_str s)) = (word_of_nat n, [])" for fl
    using field_digits [of "sprintf_u w n" "[]" fl] sprintf_u_ok [of w n] str by auto
  have v: "\<not> (word_of_nat n :: u64) > 999999" "unat (word_of_nat n :: u64) = n"
    using n by (simp_all add: unat_of_nat word_less_nat_alt)
  have "scan_field False allow_space s =
      Some (scan_behind_field allow_space (field_read (word_of_nat n) (length (sprintf_u w n)) [] s))"
    using scan_field_eq [of False s "word_of_nat n" "[]" allow_space] s v sd str by simp
  moreover have "sc_str s \<noteq> []" "my_isdigit (hd (sc_str s))"
    using str sprintf_u_ok [of w n] by auto
  ultimately show ?thesis
    using s(1) v(2) by (simp add: MAX_DATE_PARTS_def scan_behind_field_def field_read_def)
qed

lemma str_to_datetime_delimited:
  assumes "str = sprintf_u w n @ c # rest" "\<not> my_isdigit c" "c \<noteq> 84" "c \<noteq> 46"
  shows "str_to_datetime str l_time flags =
    do {
      r \<leftarrow> scan_loop 9 False allow_space (scan_init str 4);
      case r of
        Inl _ \<Rightarrow> Some (MYSQL_TIMESTAMP_NONE, l_time, 1)
      | Inr s \<Rightarrow> scan_result False 0 0 flags l_time s
    }"
proof -
  have str: "str \<noteq> []" "my_isdigit (hd str)" using assms(1) by auto
  have "skip (\<lambda>c. my_isdigit c \<or> c = 84) str = c # rest"
    using assms(2,3) sprintf_u_ok [of w n] by (simp add: assms(1) skip_append)
  then have "scan_start str flags = Inr (False, 0, scan_init str 4)"
    using assms(4) by (simp add: scan_start_eq)
  moreover have "skip my_isspace str = str" "sc_i (scan_init str 4) = 0"
    using str by (simp_all add: scan_init_def)
  ultimately show ?thesis
    using str by (simp add: str_to_datetime_def MAX_DATE_PARTS_def del: One_nat_def)
qed

lemma replicate_8: "replicate 8 x = [x, x, x, x, x, x, x, x]" "replicate 7 x = [x, x, x, x, x, x, x]"
  by (simp_all add: numeral_eq_Suc)

lemma positions_id: "\<forall>k<7. internal_format_positions ! k = k"
  by (auto simp: internal_format_positions_def nth_Cons' numeral_eq_Suc less_Suc_eq)

lemma parts_bound:
  assumes "valid_time t"
  shows "t_year t \<le> 9999" "1 \<le> t_month t" "t_month t \<le> 12" "t_day t \<le> 31" "t_hour t \<le> 23"
    "t_minute t \<le> 59" "t_second t \<le> 59"
  using assms valid_date_bounds [of "t_year t" "t_month t" "t_day t"] by (auto simp: valid_time_def)

lemma finish_datetime_valid:
  assumes "valid_time t" "3 \<le> nf"
  shows "finish_datetime t nf True flags [] =
    (let ty = if nf \<le> 3 then MYSQL_TIMESTAMP_DATE else MYSQL_TIMESTAMP_DATETIME
     in Some (ty, t\<lparr>t_type := ty\<rparr>, 0))"
  using assms parts_bound [OF assms(1)] check_date_valid [of t flags 0]
  by (simp add: finish_datetime_def valid_time_def Let_def)

lemma scan_result_eq:
  assumes s: "sc_last_field_pos s = Some []" "length (sc_date s) = 8" "length (sc_date_len s) = 8"
    "sc_i s \<le> 6" "sc_date_len s ! 0 = Some y4" "0 < sc_i s" "y4 \<noteq> 0" "y4 \<noteq> 2"
    and sp: "\<not> sc_found_delimitier s \<or> sc_found_space s \<or> \<not> flag_set flags TIME_DATETIME_ONLY"
    and v: "take (sc_i s) (sc_date s) @ replicate (8 - sc_i s) (Some 0) =
      [Some y, Some m, Some d, Some h, Some mi, Some se, Some 0, Some 0]"
    and nz: "sc_not_zero_date s \<noteq> 0"
  shows "scan_result False yl 0 flags l_time s =
    finish_datetime (l_time\<lparr>t_year := y, t_month := m, t_day := d, t_hour := h, t_minute := mi,
      t_second := se, t_second_part := 0, t_neg := False\<rparr>) (sc_i s) True flags []"
proof -
  define date where "date = take (sc_i s) (sc_date s) @ replicate (8 - sc_i s) (Some (0 :: nat))"
  define len where "len = take (sc_i s) (sc_date_len s) @ replicate (8 - sc_i s) (Some (0 :: nat))"
  have z: "zero_from (8 - sc_i s) (sc_i s) (sc_date s) = Some date"
    "zero_from (8 - sc_i s) (sc_i s) (sc_date_len s) = Some len"
    using s by (simp_all add: date_def len_def zero_from_eq)
  have l: "length date = 8" "length len = 8" "len ! 0 = Some y4" "len ! 6 = Some 0"
    using s by (simp_all add: date_def len_def nth_append)
  have d: "date ! 0 = Some y" "date ! 1 = Some m" "date ! 2 = Some d" "date ! 3 = Some h"
    "date ! 4 = Some mi" "date ! 5 = Some se" "date ! 6 = Some 0"
    using v unfolding date_def by simp_all
  have asg: "assign_fields False ah internal_format_positions date len l_time =
      Some (Inr (l_time\<lparr>t_year := y, t_month := m, t_day := d, t_hour := h, t_minute := mi,
        t_second := se, t_second_part := 0\<rparr>))" for ah
    using assign_fields_eq [OF l(1,2) positions_id d l(4), of False ah l_time] by simp
  have yl: "read_slot len (internal_format_positions ! 0) = Some y4"
    using l by (simp add: read_slot_def internal_format_positions_def)
  show ?thesis
    unfolding scan_result_def MAX_DATE_PARTS_def z s(1) yl bind.simps Let_def
    using sp nz s(7,8) by (auto simp: asg)
qed

text \<open>The state behind the fields \<open>vs\<close> of the lengths \<open>ls\<close>.\<close>

definition scan_at :: "nat list \<Rightarrow> nat list \<Rightarrow> u8 list \<Rightarrow> bool \<Rightarrow> bool \<Rightarrow> scan_state" where
  "scan_at vs ls str delim space =
     \<lparr>sc_i = length vs, sc_str = str, sc_date = map Some vs @ replicate (8 - length vs) None,
      sc_date_len = map Some ls @ replicate (8 - length vs) None, sc_field_length = 2,
      sc_not_zero_date = foldl (\<lambda>nz n. nz OR word_of_nat n) 0 vs, sc_found_delimitier = delim,
      sc_found_space = space, sc_last_field_pos = Some str, sc_add_hours = 0\<rparr>"

lemma list_update_next:
  "k \<le> 7 \<Longrightarrow> length xs = k \<Longrightarrow> (xs @ replicate (8 - k) None)[k := x] = (xs @ [x]) @ replicate (7 - k) None"
  by (cases "8 - k") (auto simp: list_update_append)

lemma scan_loop_first:
  assumes "0 < fuel" "N mod 2 ^ 64 \<le> 999999" "rest \<noteq> []" "my_isdigit (hd rest)"
  shows "scan_loop fuel False allow_space (scan_init (sprintf_u w N @ 45 # rest) fl) =
    scan_loop (fuel - 1) False allow_space (scan_at [N mod 2 ^ 64] [length (sprintf_u w N)] rest True False)"
proof (cases fuel)
  case (Suc k)
  show ?thesis
    unfolding Suc using assms
    by (subst scan_loop_field [where w = w and N = N and rest = rest and c = 45, OF _ refl])
      (simp_all add: scan_init_def scan_at_def replicate_8)
qed (use assms in simp)

lemma scan_loop_next:
  assumes "0 < fuel" "n \<le> 999999" "rest \<noteq> []" "my_isdigit (hd rest)"
    "length vs < 5" "length ls = length vs" "c = 45 \<or> c = 58 \<or> c = 32 \<and> length vs = 2"
  shows "scan_loop fuel False allow_space (scan_at vs ls (sprintf_u w n @ c # rest) delim space) =
    scan_loop (fuel - 1) False allow_space
      (scan_at (vs @ [n]) (ls @ [length (sprintf_u w n)]) rest True (space \<or> c = 32))"
proof (cases fuel)
  case (Suc k)
  show ?thesis
    unfolding Suc using assms
    by (subst scan_loop_field [where w = w and n = n and N = n and rest = rest and c = c])
      (simp_all add: scan_at_def list_update_next)
qed (use assms in simp)

lemma scan_loop_end:
  assumes "0 < fuel" "n \<le> 999999" "length vs < 6" "length ls = length vs"
  shows "scan_loop fuel False allow_space (scan_at vs ls (sprintf_u w n) delim space) =
    Some (Inr (scan_at (vs @ [n]) (ls @ [length (sprintf_u w n)]) [] delim space))"
proof (cases fuel)
  case (Suc k)
  show ?thesis
    unfolding Suc using assms
    by (subst scan_loop_last [where w = w and n = n]) (simp_all add: scan_at_def list_update_next)
qed (use assms in simp)

lemma scan_at_result:
  assumes t: "valid_time t" "t_second_part t = 0" "\<not> t_neg t"
    and vs: "vs @ replicate (6 - length vs) 0 =
      [t_year t, t_month t, t_day t, t_hour t, t_minute t, t_second t]" "3 \<le> length vs"
    and ls: "length ls = length vs" "ls ! 0 \<noteq> 0" "ls ! 0 \<noteq> 2"
    and ty: "t_type t = (if length vs \<le> 3 then MYSQL_TIMESTAMP_DATE else MYSQL_TIMESTAMP_DATETIME)"
    and sp: "space \<or> \<not> flag_set flags TIME_DATETIME_ONLY"
  shows "scan_result False yl 0 flags l_time (scan_at vs ls [] True space) = Some (t_type t, t, 0)"
proof -
  let ?s = "scan_at vs ls [] True space"
  have l6: "length vs \<le> 6" using arg_cong [OF vs(1), of length] by simp
  have m: "vs ! 1 = t_month t" using arg_cong [OF vs(1), of "\<lambda>x. x ! 1"] vs(2) by (simp add: nth_append)
  have or: "foldl (\<lambda>nz n. nz OR word_of_nat n) z xs \<noteq> (0 :: u64)" if "z \<noteq> 0" for z xs
    using that by (induction xs arbitrary: z) (auto simp: word_or_zero_iff)
  have nz: "sc_not_zero_date ?s \<noteq> 0"
  proof -
    obtain a xs where "vs = a # t_month t # xs" using m vs(2)
      by (cases vs; cases "tl vs") auto
    moreover have "(word_of_nat (t_month t) :: u64) \<noteq> 0"
      using parts_bound [OF t(1)] by (simp add: word_of_nat_eq_0_iff nat_dvd_not_less)
    ultimately show ?thesis by (simp add: scan_at_def word_or_zero_iff or)
  qed
  have "8 - length vs = (6 - length vs) + 2" using l6 by simp
  then have "replicate (8 - length vs) (Some 0) = replicate (6 - length vs) (Some (0 :: nat)) @ [Some 0, Some 0]"
    by (simp only: replicate_add) (simp add: numeral_2_eq_2)
  then have "map Some vs @ replicate (8 - length vs) (Some 0) =
      map Some (vs @ replicate (6 - length vs) (0 :: nat)) @ [Some 0, Some 0]"
    by simp
  then have v: "take (sc_i ?s) (sc_date ?s) @ replicate (8 - sc_i ?s) (Some 0) =
      [Some (t_year t), Some (t_month t), Some (t_day t), Some (t_hour t), Some (t_minute t),
       Some (t_second t), Some 0, Some 0]"
    unfolding vs(1) using l6 by (simp add: scan_at_def)
  have t': "l_time\<lparr>t_year := t_year t, t_month := t_month t, t_day := t_day t, t_hour := t_hour t,
      t_minute := t_minute t, t_second := t_second t, t_second_part := 0, t_neg := False,
      t_type := t_type t\<rparr> = t"
    using t by (cases t; cases l_time) simp
  let ?t = "l_time\<lparr>t_year := t_year t, t_month := t_month t, t_day := t_day t, t_hour := t_hour t,
      t_minute := t_minute t, t_second := t_second t, t_second_part := 0, t_neg := False\<rparr>"
  have valid: "valid_time ?t" using t by (simp add: valid_time_def)
  have s: "sc_i ?s = length vs" "sc_last_field_pos ?s = Some []" "length (sc_date ?s) = 8"
    "length (sc_date_len ?s) = 8" "sc_date_len ?s ! 0 = Some (ls ! 0)" "sc_found_space ?s = space"
    using l6 ls vs(2) by (auto simp: scan_at_def nth_append)
  have "scan_result False yl 0 flags l_time ?s = finish_datetime ?t (length vs) True flags []"
    unfolding s(1) [symmetric] by (rule scan_result_eq [OF s(2-4) _ s(5) _ ls(2,3) _ v nz]) (use s l6 vs(2) sp in auto)
  also have "\<dots> = Some (t_type t, ?t\<lparr>t_type := t_type t\<rparr>, 0)"
    using finish_datetime_valid [OF valid vs(2), of flags] ty unfolding Let_def by simp
  also have "\<dots> = Some (t_type t, t, 0)" using t' by simp
  finally show ?thesis .
qed

lemma my_datetime_to_str_read:
  assumes t: "valid_time t" "t_second_part t = 0" "\<not> t_neg t" "t_type t = MYSQL_TIMESTAMP_DATETIME"
  shows "str_to_datetime (my_datetime_to_str t) l_time flags = Some (t_type t, t, 0)"
proof -
  note b = parts_bound [OF t(1)]
  have len: "length (sprintf_u 4 (t_year t)) = 4" using b by (simp add: length_sprintf_u)
  have "scan_loop 9 False allow_space (scan_init (my_datetime_to_str t) 4) =
    Some (Inr (scan_at [t_year t, t_month t, t_day t, t_hour t, t_minute t, t_second t]
      (map length [sprintf_u 4 (t_year t), sprintf_u 2 (t_month t), sprintf_u 2 (t_day t),
        sprintf_u 2 (t_hour t), sprintf_u 2 (t_minute t), sprintf_u 2 (t_second t)]) [] True True))"
    unfolding my_datetime_to_str_def using b sprintf_u_ok(3)
    by (simp add: scan_loop_first scan_loop_next scan_loop_end del: scan_loop.simps)
  with str_to_datetime_delimited [of "my_datetime_to_str t" 4 "t_year t" 45] show ?thesis
    using scan_at_result [OF t(1-3)] t(4) len by (simp add: my_datetime_to_str_def del: scan_loop.simps)
qed

lemma my_date_to_str_read:
  assumes t: "valid_time t" "t_second_part t = 0" "\<not> t_neg t" "t_type t = MYSQL_TIMESTAMP_DATE"
    "t_hour t = 0" "t_minute t = 0" "t_second t = 0" and fl: "\<not> flag_set flags TIME_DATETIME_ONLY"
  shows "str_to_datetime (my_date_to_str t) l_time flags = Some (t_type t, t, 0)"
proof -
  note b = parts_bound [OF t(1)]
  have len: "length (sprintf_u 4 (t_year t)) = 4" using b by (simp add: length_sprintf_u)
  have "scan_loop 9 False allow_space (scan_init (my_date_to_str t) 4) =
    Some (Inr (scan_at [t_year t, t_month t, t_day t]
      (map length [sprintf_u 4 (t_year t), sprintf_u 2 (t_month t), sprintf_u 2 (t_day t)]) [] True False))"
    unfolding my_date_to_str_def using b sprintf_u_ok(3)
    by (simp add: scan_loop_first scan_loop_next scan_loop_end del: scan_loop.simps)
  with str_to_datetime_delimited [of "my_date_to_str t" 4 "t_year t" 45] show ?thesis
    using scan_at_result [OF t(1-3)] t(4-) fl len
    by (simp add: my_date_to_str_def numeral_3_eq_3 del: scan_loop.simps)
qed

section \<open>Reading a time\<close>

lemma read_number_sprintf:
  assumes "rest = [] \<or> \<not> my_isdigit (hd rest)"
  shows "read_number 0 (sprintf_u w n @ rest) = (word_of_nat n, rest)"
  using read_number_eq [OF sprintf_u_ok(1) assms, of 0] sprintf_u_ok(2) by simp

lemma length_sprintf_u_hour: "h \<le> 838 \<Longrightarrow> length (sprintf_u 2 h) \<le> 3"
  using length_decimal_digits [of 3 h] by (auto simp: sprintf_u_def Let_def)

lemma nth_1_hd: "2 \<le> length xs \<Longrightarrow> xs ! 1 = hd (tl xs)"
  by (cases xs; cases "tl xs") auto

lemma sprintf_u_nth [simp]: "my_isdigit (sprintf_u w n ! 0)" "my_isdigit ((sprintf_u w n @ xs) ! 0)"
  using hd_sprintf_u(1) [of w n xs] hd_sprintf_u(2) [of w n] sprintf_u_ok(3) [of w n]
  by (simp_all add: hd_conv_nth)

lemma read_clock:
  assumes "mi < 100" "se < 100"
  shows "read_days_to_seconds (sprintf_u 2 h @ 58 # sprintf_u 2 mi @ 58 # sprintf_u 2 se) =
    Some ([Some 0, Some (word_of_nat h), Some (word_of_nat mi), Some (word_of_nat se), None], [])"
proof -
  have rn: "read_number 0 (sprintf_u 2 n @ 58 # xs) = (word_of_nat n, 58 # xs)"
    "read_number 0 (sprintf_u 2 n) = (word_of_nat n, [])" for n xs
    using read_number_sprintf [of "58 # xs"] read_number_sprintf [of "[]" 2 n] by simp_all
  have len: "length (sprintf_u 2 mi) = 2" "length (sprintf_u 2 se) = 2"
    using assms by (simp_all add: length_sprintf_u)
  have hms: "read_hms 4 [Some 0, Some (word_of_nat h), None, None, None] 2
      (sprintf_u 2 mi @ 58 # sprintf_u 2 se) =
    Some ([Some 0, Some (word_of_nat h), Some (word_of_nat mi), Some (word_of_nat se), None], 4, [])"
    using len rn by (simp add: eval_nat_numeral nth_1_hd time_separator_def)
  have r5: "replicate 5 None = [None, None, None, None, None]" by (simp add: numeral_eq_Suc)
  show ?thesis
    using len rn hms unfolding read_days_to_seconds_def r5 by (simp add: nth_1_hd time_separator_def)
qed

lemma finish_clock:
  assumes t: "t_type t = MYSQL_TIMESTAMP_TIME" "t_year t = 0" "t_month t = 0" "t_day t = 0" "t_hour t \<le> 838"
    "t_minute t \<le> 59" "t_second t \<le> 59" "t_second_part t = 0"
  shows "finish_time [Some 0, Some (word_of_nat (t_hour t)), Some (word_of_nat (t_minute t)),
      Some (word_of_nat (t_second t)), Some 0] [] (l_time\<lparr>t_neg := t_neg t\<rparr>) 0 = Some (False, t, 0)"
proof -
  have u: "unat (word_of_nat k :: u64) = k" "\<not> (word_of_nat k :: u64) > UINT_MAX" if "k < 1000" for k
    using that by (simp_all add: unat_of_nat UINT_MAX_def word_less_nat_alt)
  have l: "(l_time\<lparr>t_neg := t_neg t, t_year := 0, t_month := 0, t_day := 0, t_hour := t_hour t,
      t_minute := t_minute t, t_second := t_second t, t_second_part := 0,
      t_type := MYSQL_TIMESTAMP_TIME\<rparr>) = t" using t by (cases t; cases l_time) simp
  have c: "check_time_range t = (False, t, False)"
    using t by (simp add: check_time_range_def uint_wrap_def TIME_MAX_HOUR_def)
  show ?thesis using t u by (simp add: finish_time_def read_slot_def UINT_MAX_def l c)
qed

lemma my_time_to_str_read:
  assumes t: "t_type t = MYSQL_TIMESTAMP_TIME" "t_year t = 0" "t_month t = 0" "t_day t = 0" "t_hour t \<le> 838"
    "t_minute t \<le> 59" "t_second t \<le> 59" "t_second_part t = 0"
  shows "str_to_time (my_time_to_str t) l_time = Some (False, t, 0)"
proof -
  define str where "str = sprintf_u 2 (t_hour t) @ 58 # sprintf_u 2 (t_minute t) @ 58 # sprintf_u 2 (t_second t)"
  have rd: "read_days_to_seconds str =
    Some ([Some 0, Some (word_of_nat (t_hour t)), Some (word_of_nat (t_minute t)),
      Some (word_of_nat (t_second t)), None], [])"
    using t unfolding str_def by (simp add: read_clock)
  have str: "length str < 12" "str \<noteq> []" "my_isdigit (hd str)"
    using t length_sprintf_u_hour [OF t(5)] by (simp_all add: str_def length_sprintf_u)
  then have "hd str \<noteq> 45" by auto
  moreover have "my_time_to_str t = (if t_neg t then [45] else []) @ str"
    by (simp add: my_time_to_str_def str_def)
  ultimately show ?thesis
    using str rd finish_clock [OF t, of l_time]
    by (cases "t_neg t") (simp_all add: str_to_time_def read_second_part_def has_exponent_def
        read_am_pm_def internal_format_positions_def)
qed

section \<open>The result of \<open>str_to_time\<close>\<close>

lemma read_hms_ok:
  "1 \<le> st \<Longrightarrow> st \<le> 3 \<Longrightarrow> 4 \<le> st + fuel \<Longrightarrow> length date = 5 \<Longrightarrow> \<forall>k < st. \<exists>v. date ! k = Some v \<Longrightarrow>
   \<exists>date' st' str'. read_hms fuel date st str = Some (date', st', str') \<and> st' \<le> 4 \<and> length date' = 5 \<and>
     (\<forall>k < st'. \<exists>v. date' ! k = Some v)"
proof (induction fuel arbitrary: date st str)
  case (Suc fuel)
  obtain v str1 where n: "read_number 0 str = (v, str1)" by fastforce
  let ?d = "date[st := Some v]"
  have d: "length ?d = 5" "\<forall>k < st + 1. \<exists>v. ?d ! k = Some v"
    using Suc.prems by (auto simp: nth_list_update less_Suc_eq)
  show ?case
  proof (cases "st + 1 = 4 \<or> length str1 < 2 \<or> hd str1 \<noteq> time_separator \<or> \<not> my_isdigit (str1 ! 1)")
    case True
    then have "read_hms (Suc fuel) date st str = Some (?d, st + 1, str1)"
      using Suc.prems n by (auto simp: Let_def)
    then show ?thesis using d Suc.prems by auto
  next
    case False
    then have "read_hms (Suc fuel) date st str = read_hms fuel ?d (st + 1) (tl str1)"
      using Suc.prems n by (auto simp: Let_def)
    then show ?thesis using Suc.IH [of "st + 1" ?d "tl str1"] Suc.prems(2,3) d False by auto
  qed
qed simp

lemma read_days_to_seconds_ok:
  "\<exists>date str'. read_days_to_seconds str = Some (date, str') \<and> length date = 5 \<and>
     (\<forall>k<4. \<exists>v. date ! k = Some v)"
proof -
  obtain v e where n: "read_number 0 str = (v, e)" by fastforce
  define s where "s = skip my_isspace e"
  define fd where "fd = (length s > 1 \<and> length s \<noteq> length e \<and> my_isdigit (hd s))"
  define fh where "fh = (\<not> fd \<and> length s > 1 \<and> hd s = time_separator \<and> my_isdigit (s ! 1))"
  define start where "start = (if fd then ((replicate 5 None)[0 := Some v], 1 :: nat, s)
    else ((replicate 5 None)[0 := Some 0, 1 := Some v], 2, tl s))"
  show ?thesis
  proof (cases "fd \<or> fh")
    case True
    obtain d0 st0 s0 where st: "start = (d0, st0, s0)" by (cases start)
    then have i: "1 \<le> st0" "st0 \<le> 3" "4 \<le> st0 + 4" "length d0 = 5" "\<forall>k < st0. \<exists>v. d0 ! k = Some v"
      by (auto simp: start_def less_Suc_eq numeral_2_eq_2 nth_list_update split: if_splits)
    obtain d1 st1 s1 where h: "read_hms 4 d0 st0 s0 = Some (d1, st1, s1)" "st1 \<le> 4" "length d1 = 5"
      "\<forall>k < st1. \<exists>v. d1 ! k = Some v"
      using read_hms_ok [OF i] by blast
    have b: "bzero_slots d1 st1 (4 - st1) = Some (take st1 d1 @ replicate (4 - st1) (Some 0) @ drop 4 d1)"
      using h by (simp add: bzero_slots_def)
    let ?d = "if st1 \<noteq> 4 then take st1 d1 @ replicate (4 - st1) (Some 0) @ drop 4 d1 else d1"
    have "read_days_to_seconds str = Some (?d, s1)"
      unfolding read_days_to_seconds_def n Let_def prod.case s_def [symmetric] fd_def [symmetric]
        fh_def [symmetric]
      using True st h(1) b by (auto simp: start_def split: if_splits)
    moreover have "length ?d = 5" "\<forall>k<4. \<exists>v. ?d ! k = Some v"
      using h by (auto simp: nth_append min_def)
    ultimately show ?thesis by blast
  next
    case False
    then have "read_days_to_seconds str =
      Some ((replicate 5 None)[0 := Some 0, 1 := Some (v div 10000), 2 := Some (v div 100 mod 100),
                      3 := Some (v mod 100)], s)"
      unfolding read_days_to_seconds_def n Let_def prod.case s_def [symmetric] fd_def [symmetric]
        fh_def [symmetric] by simp
    then show ?thesis by (auto simp: nth_list_update less_Suc_eq numeral_eq_Suc)
  qed
qed

lemma read_fraction_ok:
  "fl \<le> 5 \<Longrightarrow> n < 10 ^ (6 - nat fl) \<Longrightarrow> read_fraction fl (word_of_nat n) str = (fl', v', str') \<Longrightarrow>
   fl' \<le> 5 \<and> (\<exists>n'. v' = word_of_nat n' \<and> n' < 10 ^ (6 - nat fl'))"
proof (induction str arbitrary: fl n)
  case (Cons c str)
  show ?case
  proof (cases "my_isdigit c")
    case d: True
    show ?thesis
    proof (cases "fl > 0")
      case True
      have e: "6 - nat (fl - 1) = Suc (6 - nat fl)" using True Cons.prems(1) by linarith
      have "n * 10 + digit_of c < 10 ^ (6 - nat (fl - 1))"
        unfolding e using Cons.prems(2) digit_of_less [OF d] by simp
      moreover have "read_fraction (fl - 1) (word_of_nat (n * 10 + digit_of c)) str = (fl', v', str')"
        using Cons.prems(3) d True by (simp add: of_nat_step del: of_nat_add of_nat_mult)
      ultimately show ?thesis using Cons.IH [of "fl - 1"] Cons.prems(1) by simp
    next
      case False
      then have "n < 10 ^ (6 - nat (fl - 1))" using Cons.prems(2) by simp
      moreover have "read_fraction (fl - 1) (word_of_nat n) str = (fl', v', str')"
        using Cons.prems(3) d False by simp
      ultimately show ?thesis using Cons.IH [of "fl - 1"] Cons.prems(1) by simp
    qed
  qed (use Cons.prems in auto)
qed auto

lemma word_of_nat_times_pow: "(word_of_nat n :: u64) * 10 ^ k = word_of_nat (n * 10 ^ k)"
  by simp

lemma read_second_part_ok:
  assumes "length date = 5" "\<forall>k<4. \<exists>v. date ! k = Some v"
  shows "\<exists>date' w str'. read_second_part date 0 str = Some (date', w, str') \<and> w \<le> 1 \<and>
    length date' = 5 \<and> (\<forall>k<4. \<exists>v. date' ! k = Some v) \<and> (\<exists>v. date' ! 4 = Some v \<and> unat v \<le> 999999)"
proof (cases "length str \<ge> 2 \<and> hd str = 46 \<and> my_isdigit (str ! 1)")
  case True
  obtain fl v str' where f: "read_fraction 5 (ucast (str ! 1 - 48)) (drop 2 str) = (fl, v, str')"
    by (cases "read_fraction 5 (ucast (str ! 1 - 48)) (drop 2 str)") auto
  have "digit_of (str ! 1) < 10 ^ (6 - nat 5)" using True digit_of_less by simp
  then obtain n where n: "fl \<le> 5" "v = word_of_nat n" "n < 10 ^ (6 - nat fl)"
    using read_fraction_ok [of 5 "digit_of (str ! 1)" "drop 2 str" fl v str'] f
    by (auto simp: ucast_digit)
  have s: "n * 10 ^ nat fl < 10 ^ 6" using scaled_fraction [OF n(3)] n(1) by (simp split: nat_diff_split)
  let ?v = "word_of_nat (n * 10 ^ nat fl) :: u64"
  have u: "unat ?v \<le> 999999" using s by (simp only: unat_of_nat) simp
  have "nat fl \<le> 9" using n(1) by simp
  then have l: "(if fl > 0 then do { scale \<leftarrow> aget log_10_int (nat fl); Some (v * scale) } else Some v) = Some ?v"
    using n(2) by (auto simp: log_10_int_nth word_of_nat_times_pow simp del: of_nat_mult)
  have "read_second_part date 0 str =
    Some (date[4 := Some ?v], if fl < 0 then 0 OR MYSQL_TIME_WARN_TRUNCATED else 0, str')"
    unfolding read_second_part_def f using True assms(1) by (simp add: l del: of_nat_mult)
  moreover have "date[4 := Some ?v] ! 4 = Some ?v" using assms(1) by simp
  ultimately show ?thesis using assms u by (auto simp: MYSQL_TIME_WARN_TRUNCATED_def)
next
  case False
  then have "read_second_part date 0 str = Some (date[4 := Some 0], 0, str)"
    using assms(1) by (auto simp: read_second_part_def)
  then show ?thesis using assms by auto
qed

text \<open>What a call of \<open>str_to_time\<close> that reports no error may give.\<close>

definition time_result :: "mysql_time \<Rightarrow> bool" where
  "time_result t \<longleftrightarrow>
     (t_type t = MYSQL_TIMESTAMP_DATE \<or> t_type t = MYSQL_TIMESTAMP_DATETIME) \<and>
       datetime_fields (TIME_FUZZY_DATE OR TIME_DATETIME_ONLY) t \<or>
     t_type t = MYSQL_TIMESTAMP_TIME \<and> t_year t = 0 \<and> t_month t = 0 \<and>
       t_minute t \<le> 59 \<and> t_second t \<le> 59 \<and> t_second_part t \<le> 999999 \<and>
       (hms_usec t \<le> (838 * 3600 + 59 * 60 + 59) * 1000000 \<or> 2 ^ 32 \<le> 24 * t_day t + t_hour t)"

lemma check_time_range_ok:
  assumes "t_type t = MYSQL_TIMESTAMP_TIME" "t_year t = 0" "t_month t = 0" "t_second_part t \<le> 999999"
    and "check_time_range t = (False, t', oor)"
  shows "time_result t'"
proof -
  let ?h = "24 * t_day t + t_hour t"
  let ?max = "t\<lparr>t_day := 0, t_hour := 838, t_minute := 59, t_second := 59, t_second_part := 0\<rparr>"
  have m: "t_minute t < 60" "t_second t < 60" "t_second_part t < 1000000"
    using assms(4,5) by (auto simp: check_time_range_def split: if_splits)
  have max: "time_result ?max"
    using assms(1-3) by (simp add: time_result_def hms_usec_def)
  have c: "t' = t \<or> t' = ?max"
    using assms(5) m unfolding check_time_range_def Let_def
    by (auto simp: TIME_MAX_HOUR_def TIME_MAX_MINUTE_def TIME_MAX_SECOND_def split: if_splits)
  have "time_result t" if "t' = t"
  proof (cases "?h < 2 ^ 32")
    case True
    from assms(5) that have "t = ?max \<or> ?h \<le> 838 \<and> (?h \<noteq> 838 \<or> t_minute t \<noteq> 59 \<or> t_second t \<noteq> 59 \<or> t_second_part t = 0)"
      unfolding check_time_range_cases [OF m(1,2) True] by (auto split: if_splits)
    then show ?thesis
    proof
      assume "t = ?max"
      then show ?thesis using max by metis
    next
      assume "?h \<le> 838 \<and> (?h \<noteq> 838 \<or> t_minute t \<noteq> 59 \<or> t_second t \<noteq> 59 \<or> t_second_part t = 0)"
      then have "hms_usec t \<le> (838 * 3600 + 59 * 60 + 59) * 1000000"
        unfolding hms_usec_def within_max_time [OF m] .
      then show ?thesis using assms(1-4) m unfolding time_result_def by simp
    qed
  next
    case False
    then show ?thesis using assms(1-4) m unfolding time_result_def by simp
  qed
  then show ?thesis using c max by metis
qed

lemma warning_bits: "w \<le> 1 \<Longrightarrow> w OR 2 \<le> (3 :: nat)" "w \<le> 3 \<Longrightarrow> w OR 1 \<le> (3 :: nat)"
proof -
  assume "w \<le> 1"
  then consider "w = 0" | "w = 1" by linarith
  then show "w OR 2 \<le> 3" by cases simp_all
next
  assume "w \<le> 3"
  then consider "w = 0" | "w = 1" | "w = 2" | "w = 3" by linarith
  then show "w OR 1 \<le> 3" by cases simp_all
qed

lemma finish_time_ok:
  assumes "length date = 5" "\<forall>k<4. \<exists>v. date ! k = Some v" "date ! 4 = Some p" "unat p \<le> 999999" "w \<le> 1"
  shows "\<exists>bad t w'. finish_time date str l_time w = Some (bad, t, w') \<and> w' \<le> 3 \<and> (bad \<or> time_result t)"
proof -
  obtain d0 d1 d2 d3 where d: "date ! 0 = Some d0" "date ! 1 = Some d1" "date ! 2 = Some d2" "date ! 3 = Some d3"
    using assms(2) [rule_format, of 0] assms(2) [rule_format, of 1] assms(2) [rule_format, of 2]
      assms(2) [rule_format, of 3] by auto
  define t where "t = l_time\<lparr>t_year := 0, t_month := 0, t_day := unat d0, t_hour := unat d1,
    t_minute := unat d2, t_second := unat d3, t_second_part := unat p, t_type := MYSQL_TIMESTAMP_TIME\<rparr>"
  obtain bad t' oor where c: "check_time_range t = (bad, t', oor)" by (cases "check_time_range t") auto
  have ok: "bad \<or> time_result t'"
    using check_time_range_ok [of t t' oor] c assms(4) by (cases bad) (auto simp: t_def)
  define w1 where "w1 = (if oor then w OR MYSQL_TIME_WARN_OUT_OF_RANGE else w)"
  have w1: "w1 \<le> 3" using assms(5) warning_bits by (auto simp: w1_def MYSQL_TIME_WARN_OUT_OF_RANGE_def)
  have rd: "read_slot date 0 = Some d0" "read_slot date 1 = Some d1" "read_slot date 2 = Some d2"
    "read_slot date 3 = Some d3" "read_slot date 4 = Some p"
    using d assms(1,3) by (simp_all add: read_slot_def)
  show ?thesis
    unfolding finish_time_def rd bind.simps t_def [symmetric] c prod.case w1_def [symmetric] Let_def
    using ok w1 assms(5) warning_bits(2) [OF w1] by (auto simp: MYSQL_TIME_WARN_TRUNCATED_def)
qed

lemma str_to_time_ok:
  "\<exists>bad t warning. str_to_time str l_time = Some (bad, t, warning) \<and> warning \<le> 3 \<and> (bad \<or> time_result t)"
proof -
  define s where "s = skip my_isspace str"
  define l where "l = (if s \<noteq> [] \<and> hd s = 45 then (l_time\<lparr>t_neg := False, t_neg := True\<rparr>, tl s)
    else (l_time\<lparr>t_neg := False\<rparr>, s))"
  obtain l1 s1 where l: "l = (l1, s1)" by (cases l)
  let ?flags = "TIME_FUZZY_DATE OR TIME_DATETIME_ONLY"
  define r where "r = (if length s1 \<ge> 12 then str_to_datetime s1 l1 ?flags
    else Some (MYSQL_TIMESTAMP_NONE, l1, 0))"
  obtain ty t c where r: "r = Some (ty, t, c)" "ty = MYSQL_TIMESTAMP_NONE \<or> datetime_result ?flags l1 (ty, t, c)"
    using str_to_datetime_ok [of s1 l1 ?flags] that by (cases "length s1 \<ge> 12") (auto simp: r_def)
  obtain d1 s2 where 1: "read_days_to_seconds s1 = Some (d1, s2)" "length d1 = 5" "\<forall>k<4. \<exists>v. d1 ! k = Some v"
    using read_days_to_seconds_ok by blast
  obtain d2 w s3 p where 2: "read_second_part d1 0 s2 = Some (d2, w, s3)" "w \<le> 1" "length d2 = 5"
    "\<forall>k<4. \<exists>v. d2 ! k = Some v" "d2 ! 4 = Some p" "unat p \<le> 999999"
    using read_second_part_ok [OF 1(2,3), of s2] by blast
  have am: "read_am_pm d2 s3 = Some (d2, s3)" by (simp add: read_am_pm_def internal_format_positions_def)
  obtain bad t' w' where 3: "finish_time d2 s3 t w = Some (bad, t', w')" "w' \<le> 3" "bad \<or> time_result t'"
    using finish_time_ok [OF 2(3-6,2)] by blast
  have eq: "str_to_time str l_time =
    (if s1 = [] then Some (True, l1, 0)
     else if ty \<noteq> MYSQL_TIMESTAMP_NONE
       then Some (ty = MYSQL_TIMESTAMP_ERROR, t, if c \<noteq> 0 then MYSQL_TIME_WARN_TRUNCATED else 0)
     else if has_exponent s3 then Some (True, t, w) else Some (bad, t', w'))"
    unfolding str_to_time_def s_def [symmetric] Let_def l_def [symmetric] l prod.case r_def [symmetric] r
    by (simp add: 1 2 3 am)
  have "ty = MYSQL_TIMESTAMP_NONE \<or> ty = MYSQL_TIMESTAMP_ERROR \<or> time_result t"
    using r(2) by (auto simp: datetime_result_def time_result_def)
  then show ?thesis
    unfolding eq using 2(2) 3 by (auto simp: MYSQL_TIME_WARN_TRUNCATED_def)
qed

section \<open>Numbers that do not fit and spaces behind a fraction\<close>

text \<open>
  \<open>tmp_value\<close> wraps around before it is compared with 999999: a date whose year is larger by
  \<open>2 ^ 64\<close> is accepted as the smaller year, without a warning.
\<close>

lemma overlong_year_accepted:
  assumes t: "valid_time t" "t_second_part t = 0" "\<not> t_neg t" "t_type t = MYSQL_TIMESTAMP_DATE"
    "t_hour t = 0" "t_minute t = 0" "t_second t = 0" and fl: "\<not> flag_set flags TIME_DATETIME_ONLY"
  shows "str_to_datetime (sprintf_u 4 (t_year t + 2 ^ 64) @ 45 # sprintf_u 2 (t_month t) @ 45 #
    sprintf_u 2 (t_day t)) l_time flags = Some (t_type t, t, 0)"
proof -
  let ?Y = "sprintf_u 4 (t_year t + 2 ^ 64)"
  let ?str = "?Y @ 45 # sprintf_u 2 (t_month t) @ 45 # sprintf_u 2 (t_day t)"
  note b = parts_bound [OF t(1)]
  have "4 \<le> length ?Y" by (simp add: sprintf_u_def Let_def)
  then have len: "length ?Y \<noteq> 2" "0 < length ?Y" by auto
  have y: "(t_year t + 2 ^ 64) mod 2 ^ 64 = t_year t" using b by simp
  have "scan_loop 9 False allow_space (scan_init ?str 4) =
    scan_loop 8 False allow_space (scan_at [t_year t] [length ?Y]
      (sprintf_u 2 (t_month t) @ 45 # sprintf_u 2 (t_day t)) True False)"
    using scan_loop_first [of 9 "t_year t + 2 ^ 64" "sprintf_u 2 (t_month t) @ 45 # sprintf_u 2 (t_day t)" 4 4]
      b sprintf_u_ok(3) unfolding y by (simp del: scan_loop.simps)
  also have "\<dots> = Some (Inr (scan_at [t_year t, t_month t, t_day t]
      [length ?Y, length (sprintf_u 2 (t_month t)), length (sprintf_u 2 (t_day t))] [] True False))"
    using b sprintf_u_ok(3) by (simp add: scan_loop_next scan_loop_end del: scan_loop.simps)
  finally show ?thesis
    using str_to_datetime_delimited [OF refl, of 45 4 "t_year t + 2 ^ 64"] scan_at_result [OF t(1-3)] t(4-) fl len
    by (simp add: numeral_3_eq_3 del: scan_loop.simps)
qed

text \<open>A space behind the fraction of a second makes the text no datetime at all.\<close>

lemma scan_seconds_point:
  assumes "n \<le> 999999" "length vs = 5" "length ls = 5"
  shows "scan_loop (Suc fuel) False allow_space (scan_at vs ls (sprintf_u w n @ 46 # rest) delim space) =
    scan_loop fuel False allow_space
      ((scan_at (vs @ [n]) (ls @ [length (sprintf_u w n)]) rest delim space)
         \<lparr>sc_field_length := 6, sc_last_field_pos := Some (46 # rest)\<rparr>)"
proof -
  define s where "s = scan_at vs ls (sprintf_u w n @ 46 # rest) delim space"
  have s: "sc_i s = 5" "sc_str s = sprintf_u w n @ 46 # rest" "length (sc_date s) = 8" "length (sc_date_len s) = 8"
    using assms by (simp_all add: s_def scan_at_def)
  have sd: "scan_digits True fl (ucast (hd (sc_str s) - 48)) (tl (sc_str s)) = (word_of_nat n, 46 # rest)" for fl
    using field_digits [of "sprintf_u w n" "46 # rest" fl] sprintf_u_ok [of w n] s(2) by auto
  have v: "\<not> (word_of_nat n :: u64) > 999999" "unat (word_of_nat n :: u64) = n"
    using assms(1) by (simp_all add: unat_of_nat word_less_nat_alt)
  have pos: "internal_format_positions ! 2 = 2" "internal_format_positions ! 5 = 5"
    by (simp_all add: internal_format_positions_def)
  have "scan_field False allow_space s = Some (ScanNext
      ((field_read (word_of_nat n) (length (sprintf_u w n)) (46 # rest) s)\<lparr>sc_str := rest, sc_field_length := 6\<rparr>))"
    using scan_field_eq [of False s "word_of_nat n" "46 # rest" allow_space] s v sd
    by (simp add: scan_behind_field_def field_read_def pos)
  then show ?thesis
    unfolding s_def [symmetric] using s v assms
    by (simp add: MAX_DATE_PARTS_def field_read_def s_def scan_at_def list_update_append
        numeral_2_eq_2 numeral_3_eq_3)
qed

lemma space_after_fraction_rejected:
  assumes t: "valid_time t" and c: "my_isdigit c"
  shows "str_to_datetime (my_datetime_to_str t @ [46, c, 32]) l_time flags =
    Some (MYSQL_TIMESTAMP_NONE, l_time, 1)"
proof -
  note b = parts_bound [OF t(1)]
  define s where "s = (scan_at [t_year t, t_month t, t_day t, t_hour t, t_minute t, t_second t]
      (map length [sprintf_u 4 (t_year t), sprintf_u 2 (t_month t), sprintf_u 2 (t_day t),
        sprintf_u 2 (t_hour t), sprintf_u 2 (t_minute t), sprintf_u 2 (t_second t)]) [c, 32] True True)
      \<lparr>sc_field_length := 6, sc_last_field_pos := Some [46, c, 32]\<rparr>"
  have 1: "scan_loop 9 False allow_space (scan_init (my_datetime_to_str t @ [46, c, 32]) 4) =
    scan_loop 3 False allow_space s"
    unfolding my_datetime_to_str_def s_def using b sprintf_u_ok(3)
      scan_seconds_point [of "t_second t" "[t_year t, t_month t, t_day t, t_hour t, t_minute t]" _ 3 2 "[c, 32]"]
    by (simp add: scan_loop_first scan_loop_next del: scan_loop.simps)
  have s: "sc_i s = 6" "sc_str s = [c, 32]" "length (sc_date s) = 8" "length (sc_date_len s) = 8"
    "sc_field_length s = 6"
    by (simp_all add: s_def scan_at_def)
  have "digit_of c < 10" using digit_of_less [OF c] .
  then have v: "\<not> (word_of_nat (digit_of c) :: u64) > 999999" by (simp add: unat_of_nat word_less_nat_alt)
  have pos: "internal_format_positions ! 2 = 2" "internal_format_positions ! 5 = 5"
    by (simp_all add: internal_format_positions_def)
  have "scan_field False allow_space s = Some ScanReject"
    using scan_field_eq [of False s "word_of_nat (digit_of c)" "[32]" allow_space] s v
    by (simp add: scan_behind_field_def field_read_def pos allow_space_eq ucast_digit)
  then have "scan_loop 3 False allow_space s = Some (Inl ())"
    using s c by (simp add: numeral_3_eq_3 MAX_DATE_PARTS_def)
  with 1 show ?thesis
    using str_to_datetime_delimited [of "my_datetime_to_str t @ [46, c, 32]" 4 "t_year t" 45]
    by (simp add: my_datetime_to_str_def del: scan_loop.simps)
qed

text \<open>
  The values that the printing functions show in full: no fraction of a second, no days beside a
  time of day, no time of day beside a date.
\<close>

definition printable :: "mysql_time \<Rightarrow> bool" where
  "printable t \<longleftrightarrow> t_second_part t = 0 \<and>
     (case t_type t of
        MYSQL_TIMESTAMP_DATETIME \<Rightarrow> valid_time t \<and> \<not> t_neg t
      | MYSQL_TIMESTAMP_DATE \<Rightarrow>
          valid_time t \<and> \<not> t_neg t \<and> t_hour t = 0 \<and> t_minute t = 0 \<and> t_second t = 0
      | MYSQL_TIMESTAMP_TIME \<Rightarrow>
          t_year t = 0 \<and> t_month t = 0 \<and> t_day t = 0 \<and> t_hour t \<le> 838 \<and> t_minute t \<le> 59 \<and> t_second t \<le> 59
      | _ \<Rightarrow> False)"

definition sample_datetime :: mysql_time where
  "sample_datetime =
     \<lparr>t_year = 2004, t_month = 2, t_day = 29, t_hour = 20, t_minute = 10, t_second = 5,
      t_second_part = 0, t_neg = False, t_type = MYSQL_TIMESTAMP_DATETIME\<rparr>"

lemma sample_datetime_printable: "printable sample_datetime" "t_type sample_datetime = MYSQL_TIMESTAMP_DATETIME"
  by (simp_all add: printable_def sample_datetime_def valid_time_def valid_date_def month_days_def
      calc_days_in_year_def)

section \<open>Properties\<close>

text \<open>C4: A date, a datetime or a time of day that is printed is read back unchanged, without a
  warning, whatever the result structure held before.\<close>

theorem my_TIME_to_str_roundtrip:
  assumes "printable t" "\<not> flag_set flags TIME_DATETIME_ONLY"
  shows "if t_type t = MYSQL_TIMESTAMP_TIME
    then str_to_time (my_TIME_to_str t) l_time = Some (False, t, 0)
    else str_to_datetime (my_TIME_to_str t) l_time flags = Some (t_type t, t, 0)"
  using assms my_datetime_to_str_read [of t l_time flags] my_date_to_str_read [of t flags l_time]
    my_time_to_str_read [of t l_time]
  by (cases "t_type t") (simp_all add: printable_def my_TIME_to_str_def)

theorem my_TIME_to_str_roundtrip_witness:
  "printable sample_datetime \<and>
   str_to_datetime (my_TIME_to_str sample_datetime) (set_zero_time MYSQL_TIMESTAMP_NONE) 0 =
     Some (MYSQL_TIMESTAMP_DATETIME, sample_datetime, 0)"
  using my_TIME_to_str_roundtrip [OF sample_datetime_printable(1), of 0 "set_zero_time MYSQL_TIMESTAMP_NONE"]
    sample_datetime_printable by (simp add: flag_set_def)


text \<open>C30: \<open>str_to_time\<close> gives a result for every text: it reports an error, or stores a datetime with
  all parts in their ranges, or stores a time of at most 838:59:59, days included. The limit fails
  only if days and hours are \<open>2 ^ 32\<close> hours or more, where the 32 bit sum of \<open>check_time_range\<close> wraps
  around.\<close>

theorem str_to_time_result:
  "\<exists>bad t warning. str_to_time str l_time = Some (bad, t, warning) \<and> warning \<le> 3 \<and> (bad \<or> time_result t)"
  by (rule str_to_time_ok)

end
