(* ===== verification/Time_Zone.thy ===== *)
theory Time_Zone
  imports My_Time
begin

text \<open>
  Conversion of a local time to seconds since the Epoch: \<open>my_system_gmt_sec\<close> and \<open>my_init_time\<close>
  of \<^verbatim>\<open>sql-common/my_time.c\<close>. The C library's \<open>localtime_r\<close> is a parameter; the global
  variable \<open>my_time_zone\<close> is an argument of \<open>my_system_gmt_sec\<close> and the result of
  \<open>my_init_time\<close>. \<open>time_t\<close> and \<open>long\<close> are 64 bit wide and signed, and the values below stay far
  from their limits, so they are integers.
\<close>

section \<open>Model\<close>

record tm =
  tm_year :: int
  tm_mon :: int
  tm_mday :: int
  tm_hour :: int
  tm_min :: int
  tm_sec :: int

definition days_at_timestart :: int where
  "days_at_timestart = 719528"

definition TIMESTAMP_MAX_YEAR :: nat where
  "TIMESTAMP_MAX_YEAR = 2038"

definition TIMESTAMP_MAX_VALUE :: int where
  "TIMESTAMP_MAX_VALUE = 2147483647"

definition TIMESTAMP_MIN_VALUE :: int where
  "TIMESTAMP_MIN_VALUE = 1"

definition IS_TIME_T_VALID_FOR_TIMESTAMP :: "int \<Rightarrow> bool" where
  "IS_TIME_T_VALID_FOR_TIMESTAMP x \<longleftrightarrow> x \<le> TIMESTAMP_MAX_VALUE \<and> x \<ge> TIMESTAMP_MIN_VALUE"

definition clock_differs :: "mysql_time \<Rightarrow> tm \<Rightarrow> bool" where
  "clock_differs t l \<longleftrightarrow> int (t_hour t) \<noteq> tm_hour l \<or> int (t_minute t) \<noteq> tm_min l \<or> int (t_second t) \<noteq> tm_sec l"

text \<open>The difference of a time to a local time that is less than a day away, in seconds.\<close>

definition local_diff :: "mysql_time \<Rightarrow> tm \<Rightarrow> int" where
  "local_diff t l =
     (let days = int_wrap (int (t_day t) - tm_mday l);
          days = (if days < - 1 then 1 else if days > 1 then - 1 else days)
      in 3600 * (days * 24 + (int (t_hour t) - tm_hour l)) + 60 * (int (t_minute t) - tm_min l) +
         (int (t_second t) - tm_sec l))"

text \<open>The correction loop: \<open>loop\<close>, \<open>tmp\<close>, \<open>current_timezone\<close> and \<open>*l_time\<close>.\<close>

function gmt_loop ::
  "(int \<Rightarrow> tm) \<Rightarrow> mysql_time \<Rightarrow> nat \<Rightarrow> int \<Rightarrow> int \<Rightarrow> tm \<Rightarrow> nat \<times> int \<times> int \<times> tm" where
  "gmt_loop localtime_r t loop tmp current_timezone l_time =
     (if loop < 2 \<and> clock_differs t l_time then
        let diff = local_diff t l_time
        in gmt_loop localtime_r t (loop + 1) (tmp + diff) (current_timezone + (diff + 3600))
             (localtime_r (tmp + diff))
      else (loop, tmp, current_timezone, l_time))"
  by auto
termination
  by (relation "measure (\<lambda>(_, _, loop, _). 2 - loop)") auto

declare gmt_loop.simps [simp del]

text \<open>The result, \<open>*my_timezone\<close> and \<open>*in_dst_time_gap\<close>.\<close>

definition my_system_gmt_sec ::
  "(int \<Rightarrow> tm) \<Rightarrow> int \<Rightarrow> mysql_time \<Rightarrow> int \<Rightarrow> bool \<Rightarrow> (int \<times> int \<times> bool) option" where
  "my_system_gmt_sec localtime_r my_time_zone t_src my_timezone in_dst_time_gap =
     (if \<not> validate_timestamp_range t_src then Some (0, my_timezone, in_dst_time_gap)
      else do {
        let (t, shift) =
          (if t_year t_src = TIMESTAMP_MAX_YEAR \<and> t_month t_src = 1 \<and> t_day t_src > 4
           then (t_src\<lparr>t_day := t_day t_src - 2\<rparr>, 2) else (t_src, 0 :: int));
        daynr \<leftarrow> calc_daynr (t_year t) (t_month t) (t_day t);
        let tmp = (daynr - days_at_timestart) * 86400 + int (t_hour t) * 3600 +
                  int (uint_wrap (t_minute t * 60 + t_second t)) + my_time_zone - 3600;
        let (loop, tmp, current_timezone, l_time) =
              gmt_loop localtime_r t 0 tmp my_time_zone (localtime_r tmp);
        let (tmp, in_dst_time_gap) =
          (if loop = 2 \<and> int (t_hour t) \<noteq> tm_hour l_time then
             let diff = local_diff t l_time;
                 tmp = (if diff = 3600
                        then tmp + (3600 - int (t_minute t) * 60 - int (t_second t)) mod 2 ^ 32
                        else if diff = - 3600
                        then tmp - int (uint_wrap (t_minute t * 60 + t_second t))
                        else tmp)
             in (tmp, True)
           else (tmp, in_dst_time_gap));
        let tmp = tmp + shift * 86400;
        Some (if IS_TIME_T_VALID_FOR_TIMESTAMP tmp then tmp else 0, current_timezone, in_dst_time_gap)
      })"

text \<open>The new value of \<open>my_time_zone\<close>; \<open>seconds\<close> is the current time.\<close>

definition my_init_time :: "(int \<Rightarrow> tm) \<Rightarrow> int \<Rightarrow> int option" where
  "my_init_time localtime_r seconds =
     (let l_time = localtime_r seconds;
          my_time = (set_zero_time MYSQL_TIMESTAMP_DATETIME)
            \<lparr>t_year := nat (tm_year l_time + 1900), t_month := nat (tm_mon l_time + 1),
             t_day := nat (tm_mday l_time), t_hour := nat (tm_hour l_time),
             t_minute := nat (tm_min l_time), t_second := nat (tm_sec l_time)\<rparr>
      in map_option (\<lambda>(_, my_timezone, _). my_timezone)
           (my_system_gmt_sec localtime_r 3600 my_time 3600 False))"

section \<open>Local times\<close>

text \<open>\<open>l\<close> is the broken-down form of the second \<open>v\<close>, counted from 1970-01-01 00:00:00.\<close>

definition tm_shows :: "tm \<Rightarrow> int \<Rightarrow> bool" where
  "tm_shows l v \<longleftrightarrow>
     (\<exists>y m d. valid_date y m d \<and> tm_year l = int y - 1900 \<and> tm_mon l = int m - 1 \<and> tm_mday l = int d \<and>
        int (day_number y m d) = days_at_timestart + v div 86400) \<and>
     tm_hour l = v mod 86400 div 3600 \<and> tm_min l = v mod 3600 div 60 \<and> tm_sec l = v mod 60"

definition local_seconds :: "mysql_time \<Rightarrow> int" where
  "local_seconds t =
     (int (day_number (t_year t) (t_month t) (t_day t)) - days_at_timestart) * 86400 +
     int (t_hour t) * 3600 + int (t_minute t) * 60 + int (t_second t)"

lemma day_number_inj:
  assumes "valid_date y m d" "valid_date y' m' d'" "day_number y m d = day_number y' m' d'"
  shows "y = y' \<and> m = m' \<and> d = d'"
  using day_number_less [OF assms(1,2)] day_number_less [OF assms(2,1)] assms(3)
  by (metis less_irrefl linorder_neqE_nat)

lemma month_days_ge: "1 \<le> m \<Longrightarrow> m \<le> 12 \<Longrightarrow> 28 \<le> month_days y m"
  using month_cases [of m] by (auto simp: month_days_def days_in_month_def)

lemma next_day:
  assumes v: "valid_date y m d" "valid_date y' m' d'" "day_number y' m' d' = day_number y m d + 1"
  shows "d' = d + 1 \<or> d' = 1 \<and> 28 \<le> d"
proof (cases "d < month_days y m")
  case True
  then have "valid_date y m (d + 1)" using v(1) by (simp add: valid_date_def)
  moreover have "day_number y m (d + 1) = day_number y' m' d'" using v(3) by (simp add: day_number_def)
  ultimately have "d + 1 = d'" using day_number_inj v(2) by blast
  then show ?thesis by simp
next
  case False
  then have d: "d = month_days y m" and m: "1 \<le> m" "m \<le> 12" using v(1) by (auto simp: valid_date_def)
  have e: "day_number y m d = days_before_year y + days_before_month y (Suc m)"
    using m by (simp add: d day_number_def days_before_month_Suc)
  have "\<exists>y1 m1. valid_date y1 m1 1 \<and> day_number y1 m1 1 = day_number y m d + 1"
  proof (cases "m = 12")
    case True
    have "valid_date (Suc y) 1 1" using month_days_ge [of 1 "Suc y"] by (simp add: valid_date_def)
    moreover have "day_number (Suc y) 1 1 = day_number y m d + 1"
      using e days_before_month_13 [of y] True
      by (simp add: day_number_def [of "Suc y"] days_before_year_step days_before_month_def [of _ "Suc 0"])
    ultimately show ?thesis by blast
  next
    case False
    have "valid_date y (Suc m) 1" using m False month_days_ge [of "Suc m" y] by (simp add: valid_date_def)
    moreover have "day_number y (Suc m) 1 = day_number y m d + 1" unfolding e by (simp add: day_number_def)
    ultimately show ?thesis by blast
  qed
  then show ?thesis using day_number_inj v(2,3) d month_days_ge [OF m] by metis
qed


lemma radix_int: "0 \<le> r \<Longrightarrow> r < k \<Longrightarrow> (q * k + r) mod k = r \<and> (q * k + r) div k = q" for q r k :: int
  by simp

lemma clock_parts:
  fixes D h m s :: int
  assumes b: "0 \<le> h" "h \<le> 23" "0 \<le> m" "m \<le> 59" "0 \<le> s" "s \<le> 59"
    and L: "L = D * 86400 + h * 3600 + m * 60 + s"
  shows "L div 86400 = D" "L mod 86400 div 3600 = h" "L mod 3600 div 60 = m" "L mod 60 = s"
proof -
  have r: "0 \<le> h * 3600 + (m * 60 + s)" "h * 3600 + (m * 60 + s) < 86400" "0 \<le> m * 60 + s"
    "m * 60 + s < 3600" "s < 60"
    using b by linarith+
  have e: "L = D * 86400 + (h * 3600 + (m * 60 + s))" "L = (D * 24 + h) * 3600 + (m * 60 + s)"
    "L = (D * 1440 + h * 60 + m) * 60 + s"
    using L by simp_all
  note q = radix_int [OF r(1,2), of D, folded e(1)] radix_int [OF r(3,4), of "D * 24 + h", folded e(2)]
    radix_int [OF b(5) r(5), of "D * 1440 + h * 60 + m", folded e(3)]
    radix_int [OF r(3,4), of h] radix_int [OF b(5) r(5), of m]
  show "L div 86400 = D" "L mod 86400 div 3600 = h" "L mod 3600 div 60 = m" "L mod 60 = s"
    using q by (simp_all only:)
qed

lemma local_seconds_parts:
  assumes "t_hour t \<le> 23" "t_minute t \<le> 59" "t_second t \<le> 59"
  shows "int (day_number (t_year t) (t_month t) (t_day t)) = days_at_timestart + local_seconds t div 86400"
    "local_seconds t mod 86400 div 3600 = int (t_hour t)" "local_seconds t mod 3600 div 60 = int (t_minute t)"
    "local_seconds t mod 60 = int (t_second t)"
proof -
  have b: "0 \<le> int (t_hour t)" "int (t_hour t) \<le> 23" "0 \<le> int (t_minute t)" "int (t_minute t) \<le> 59"
    "0 \<le> int (t_second t)" "int (t_second t) \<le> 59" using assms by auto
  note q = clock_parts [OF b local_seconds_def]
  show "int (day_number (t_year t) (t_month t) (t_day t)) = days_at_timestart + local_seconds t div 86400"
    unfolding q(1) by simp
  show "local_seconds t mod 86400 div 3600 = int (t_hour t)" "local_seconds t mod 3600 div 60 = int (t_minute t)"
    "local_seconds t mod 60 = int (t_second t)" by (rule q)+
qed

lemma clock_sum: "v mod 86400 = (v mod 86400 div 3600) * 3600 + (v mod 3600 div 60) * 60 + v mod 60" for v :: int
proof -
  have "v mod 86400 mod 3600 = v mod 3600" "v mod 3600 mod 60 = v mod 60" by (simp_all add: mod_mod_cancel)
  then show ?thesis
    using div_mult_mod_eq [of "v mod 86400" 3600] div_mult_mod_eq [of "v mod 3600" 60] by simp
qed

lemma clock_join:
  "v div 86400 * 86400 + v mod 86400 div 3600 * 3600 + v mod 3600 div 60 * 60 + v mod 60 = v" for v :: int
proof -
  have "x + a + b + c = v" if "y = a + b + c" "x + y = v" for x y a b c :: int
    using that by simp
  from this [OF clock_sum [of v] div_mult_mod_eq [of v 86400]] show ?thesis .
qed

lemma clock_bounds:
  "0 \<le> v mod 86400 div 3600" "v mod 86400 div 3600 \<le> 23" "0 \<le> v mod 3600 div 60" "v mod 3600 div 60 \<le> 59"
  "0 \<le> v mod 60" "v mod 60 \<le> 59" for v :: int
proof -
  have "v mod 86400 \<le> 86399" "v mod 3600 \<le> 3599" "v mod 60 < 60"
    using pos_mod_bound [of 86400 v] pos_mod_bound [of 3600 v] by simp_all
  then show "v mod 86400 div 3600 \<le> 23" "v mod 3600 div 60 \<le> 59" "v mod 60 \<le> 59"
    using zdiv_mono1 [of "v mod 86400" 86399 3600] zdiv_mono1 [of "v mod 3600" 3599 60] by simp_all
qed (simp_all add: pos_imp_zdiv_nonneg_iff)

lemma tm_shows_time:
  assumes "tm_shows l v"
  obtains y m d h mi se where "valid_date y m d"
    "l = \<lparr>tm_year = int y - 1900, tm_mon = int m - 1, tm_mday = int d, tm_hour = int h, tm_min = int mi,
      tm_sec = int se\<rparr>" "h \<le> 23" "mi \<le> 59" "se \<le> 59"
    "v = (int (day_number y m d) - days_at_timestart) * 86400 + int h * 3600 + int mi * 60 + int se"
proof -
  obtain y m d where ym: "valid_date y m d" "tm_year l = int y - 1900" "tm_mon l = int m - 1" "tm_mday l = int d"
    "int (day_number y m d) = days_at_timestart + v div 86400"
    and hms: "tm_hour l = v mod 86400 div 3600" "tm_min l = v mod 3600 div 60" "tm_sec l = v mod 60"
    using assms unfolding tm_shows_def by blast
  obtain h mi se where n: "v mod 86400 div 3600 = int h" "v mod 3600 div 60 = int mi" "v mod 60 = int se"
    using clock_bounds(1,3,5) [of v] nonneg_int_cases by metis
  show ?thesis
  proof (rule that [OF ym(1)])
    show "l = \<lparr>tm_year = int y - 1900, tm_mon = int m - 1, tm_mday = int d, tm_hour = int h,
        tm_min = int mi, tm_sec = int se\<rparr>" using ym hms unfolding n by (cases l) simp
    show "h \<le> 23" "mi \<le> 59" "se \<le> 59" using clock_bounds(2,4,6) [of v] unfolding n by simp_all
    show "v = (int (day_number y m d) - days_at_timestart) * 86400 + int h * 3600 + int mi * 60 + int se"
      using clock_join [of v] ym(5) unfolding n by (simp only: add_diff_cancel_left')
  qed
qed

lemma clock_eq_iff:
  "v mod 86400 = L mod 86400 \<longleftrightarrow>
   v mod 86400 div 3600 = L mod 86400 div 3600 \<and> v mod 3600 div 60 = L mod 3600 div 60 \<and> v mod 60 = L mod 60"
  for v L :: int
proof
  assume e: "v mod 86400 = L mod 86400"
  have "x mod 3600 = x mod 86400 mod 3600" "x mod 60 = x mod 86400 mod 60" for x :: int
    by (simp_all add: mod_mod_cancel)
  then show "v mod 86400 div 3600 = L mod 86400 div 3600 \<and> v mod 3600 div 60 = L mod 3600 div 60 \<and>
      v mod 60 = L mod 60" using e by metis
next
  assume "v mod 86400 div 3600 = L mod 86400 div 3600 \<and> v mod 3600 div 60 = L mod 3600 div 60 \<and>
    v mod 60 = L mod 60"
  then show "v mod 86400 = L mod 86400" using clock_sum [of v] clock_sum [of L] by (simp only:)
qed

lemma clock_differs_iff:
  assumes "tm_shows l v" "t_hour t \<le> 23" "t_minute t \<le> 59" "t_second t \<le> 59"
  shows "clock_differs t l \<longleftrightarrow> v mod 86400 \<noteq> local_seconds t mod 86400"
proof -
  have "tm_hour l = v mod 86400 div 3600" "tm_min l = v mod 3600 div 60" "tm_sec l = v mod 60"
    using assms(1) unfolding tm_shows_def by blast+
  then show ?thesis
    unfolding clock_differs_def clock_eq_iff local_seconds_parts(2-4) [OF assms(2-4)] by metis
qed

text \<open>The difference in days that \<open>my_system_gmt_sec\<close> takes from the days of the month.\<close>

lemma day_difference:
  assumes v: "valid_date y m d" "valid_date y' m' d'"
    and n: "int (day_number y m d) = a + D" "int (day_number y' m' d') = a + E" and DE: "\<bar>D - E\<bar> \<le> 1"
  defines "days \<equiv> int d - int d'"
  shows "(if days < - 1 then 1 else if days > 1 then - 1 else days) = D - E"
proof -
  consider "D = E" | "D = E + 1" | "E = D + 1" using DE by linarith
  then show ?thesis
  proof cases
    case 1
    then have "day_number y m d = day_number y' m' d'" using n by linarith
    then show ?thesis using day_number_inj [OF v] 1 by (simp add: days_def)
  next
    case 2
    then have "day_number y m d = day_number y' m' d' + 1" using n by linarith
    from next_day [OF v(2,1) this] show ?thesis using 2 by (auto simp: days_def)
  next
    case 3
    then have "day_number y' m' d' = day_number y m d + 1" using n by linarith
    from next_day [OF v this] show ?thesis using 3 by (auto simp: days_def)
  qed
qed

lemma seconds_difference:
  fixes L v :: int
  assumes "L = D * 86400 + lm" "v = E * 86400 + vm" "lm = h * 3600 + m * 60 + s" "vm = h' * 3600 + m' * 60 + s'"
  shows "3600 * ((D - E) * 24 + (h - h')) + 60 * (m - m') + (s - s') = L - v"
  using assms by simp

lemma local_diff_eq:
  assumes l: "tm_shows l v" and t: "valid_time t" and near: "\<bar>v - local_seconds t\<bar> < 86400"
  shows "local_diff t l = local_seconds t - v"
proof -
  have b: "t_hour t \<le> 23" "t_minute t \<le> 59" "t_second t \<le> 59"
    and v: "valid_date (t_year t) (t_month t) (t_day t)" using t by (auto simp: valid_time_def)
  define L where "L = local_seconds t"
  note p = local_seconds_parts [OF b, folded L_def]
  obtain y m d where ym: "valid_date y m d" "tm_mday l = int d"
    "int (day_number y m d) = days_at_timestart + v div 86400"
    and hms: "tm_hour l = v mod 86400 div 3600" "tm_min l = v mod 3600 div 60" "tm_sec l = v mod 60"
    using l unfolding tm_shows_def by blast
  have LV: "L = L div 86400 * 86400 + L mod 86400" "v = v div 86400 * 86400 + v mod 86400" by simp_all
  have DE: "\<bar>L div 86400 - v div 86400\<bar> \<le> 1"
  proof -
    have "0 \<le> L mod 86400" "L mod 86400 < 86400" "0 \<le> v mod 86400" "v mod 86400 < 86400" by simp_all
    with LV near show ?thesis unfolding L_def [symmetric] by linarith
  qed
  have bd: "d \<le> 31" "t_day t \<le> 31" using valid_date_bounds [OF ym(1)] valid_date_bounds [OF v] by auto
  have dw: "int_wrap (int (t_day t) - tm_mday l) = int (t_day t) - int d"
    using bd ym(2) by (simp add: int_wrap_def)
  have "local_diff t l =
      3600 * ((L div 86400 - v div 86400) * 24 + (int (t_hour t) - tm_hour l)) +
      60 * (int (t_minute t) - tm_min l) + (int (t_second t) - tm_sec l)"
    unfolding local_diff_def Let_def dw day_difference [OF v ym(1) p(1) ym(3) DE] ..
  also have "\<dots> = L - v"
    by (rule seconds_difference [OF LV]) (use clock_sum [of L] clock_sum [of v] p hms in \<open>simp_all only:\<close>)
  finally show ?thesis by (simp add: L_def)
qed

text \<open>
  The loop finds the second that is shown as the wanted time, if the estimate is less than a day
  away and the corrected second has the wanted local time.
\<close>

lemma gmt_loop_converges:
  assumes t: "valid_time t" and near: "\<bar>v - local_seconds t\<bar> < 86400"
    and l: "tm_shows (localtime_r tmp) v" "tm_shows (localtime_r (tmp + (local_seconds t - v))) (local_seconds t)"
  shows "\<exists>loop. gmt_loop localtime_r t 0 tmp tz (localtime_r tmp) =
    (loop, tmp + (local_seconds t - v), if v = local_seconds t then tz else tz + (local_seconds t - v + 3600),
     localtime_r (tmp + (local_seconds t - v))) \<and> loop \<le> 1"
proof -
  have b: "t_hour t \<le> 23" "t_minute t \<le> 59" "t_second t \<le> 59" using t by (auto simp: valid_time_def)
  have stop: "\<not> clock_differs t (localtime_r (tmp + (local_seconds t - v)))"
    using clock_differs_iff [OF l(2) b] by simp
  show ?thesis
  proof (cases "v = local_seconds t")
    case True
    then show ?thesis using stop by (simp add: gmt_loop.simps [of _ _ 0])
  next
    case False
    have "clock_differs t (localtime_r tmp)"
    proof (rule ccontr)
      assume "\<not> ?thesis"
      then have "86400 dvd v - local_seconds t"
        using clock_differs_iff [OF l(1) b] by (simp add: mod_eq_dvd_iff)
      then show False using near False zdvd_imp_le [of 86400 "\<bar>v - local_seconds t\<bar>"] by simp
    qed
    then show ?thesis
      using stop local_diff_eq [OF l(1) t near] False
      by (simp add: gmt_loop.simps [of _ _ 0] gmt_loop.simps [of _ _ "Suc 0"] Let_def)
  qed
qed


section \<open>The conversion\<close>

text \<open>The time that is converted, moved away from the end of the range.\<close>

definition shifted :: "mysql_time \<Rightarrow> mysql_time \<times> int" where
  "shifted t =
     (if t_year t = TIMESTAMP_MAX_YEAR \<and> t_month t = 1 \<and> t_day t > 4
      then (t\<lparr>t_day := t_day t - 2\<rparr>, 2) else (t, 0))"

lemma shifted_ok:
  assumes "valid_time t" "shifted t = (t', shift)"
  shows "valid_time t'" "local_seconds t' = local_seconds t - shift * 86400" "shift = 0 \<or> shift = 2"
  using assms
  by (auto simp: shifted_def valid_time_def valid_date_def local_seconds_def day_number_def split: if_splits)

lemma my_system_gmt_sec_step:
  assumes t: "valid_time t" "validate_timestamp_range t" and sh: "shifted t = (t', shift)"
    and e: "e = local_seconds t' + tz - 3600" and near: "\<bar>v - local_seconds t'\<bar> < 86400"
    and l: "tm_shows (localtime_r e) v"
      "tm_shows (localtime_r (e + (local_seconds t' - v))) (local_seconds t')"
  shows "my_system_gmt_sec localtime_r tz t mt gap =
    (let r = e + (local_seconds t' - v) + shift * 86400
     in Some (if IS_TIME_T_VALID_FOR_TIMESTAMP r then r else 0,
              if v = local_seconds t' then tz else tz + (local_seconds t' - v + 3600), gap))"
proof -
  note t' = shifted_ok [OF t(1) sh]
  have b: "t_minute t' \<le> 59" "t_second t' \<le> 59" "valid_date (t_year t') (t_month t') (t_day t')"
    "t_year t' \<le> 9999"
    using t'(1) by (auto simp: valid_time_def)
  have w: "uint_wrap (t_minute t' * 60 + t_second t') = t_minute t' * 60 + t_second t'"
    unfolding uint_wrap_def using b by simp
  have tmp: "(int (day_number (t_year t') (t_month t') (t_day t')) - days_at_timestart) * 86400 +
      int (t_hour t') * 3600 + int (t_minute t' * 60 + t_second t') + tz - 3600 = e"
    unfolding e local_seconds_def by simp
  obtain loop where g: "gmt_loop localtime_r t' 0 e tz (localtime_r e) =
    (loop, e + (local_seconds t' - v), if v = local_seconds t' then tz else tz + (local_seconds t' - v + 3600),
     localtime_r (e + (local_seconds t' - v)))" "loop \<le> 1"
    using gmt_loop_converges [OF t'(1) near l] by blast
  then have "loop \<noteq> 2" by simp
  then show ?thesis
    unfolding my_system_gmt_sec_def Let_def shifted_def [symmetric] sh prod.case
      calc_daynr_valid [OF b(3,4)] bind.simps w tmp g
    using t(2) by simp
qed

lemma my_system_gmt_sec_zone:
  assumes t: "valid_time t" "validate_timestamp_range t"
    and zone: "\<forall>u. \<bar>u - (local_seconds t - off)\<bar> \<le> 3 * 86400 \<longrightarrow> tm_shows (localtime_r u) (u + off)"
    and tz: "\<bar>tz - 3600 + off\<bar> < 86400"
  shows "my_system_gmt_sec localtime_r tz t mt gap =
    Some (if IS_TIME_T_VALID_FOR_TIMESTAMP (local_seconds t - off) then local_seconds t - off else 0,
          if tz = 3600 - off then tz else 7200 - off, gap)"
proof -
  obtain t' shift where sh: "shifted t = (t', shift)" by (cases "shifted t")
  note t' = shifted_ok [OF t(1) sh]
  define e where "e = local_seconds t' + tz - 3600"
  have near: "\<bar>(e + off) - local_seconds t'\<bar> < 86400" using tz by (simp add: e_def algebra_simps)
  have s: "0 \<le> shift * 86400" "shift * 86400 \<le> 2 * 86400" using t'(3) by auto
  have u: "tm_shows (localtime_r u) (u + off)" if "\<bar>u - (local_seconds t' - off)\<bar> < 86400" for u
  proof -
    have "\<bar>u - (local_seconds t - off)\<bar> \<le> 3 * 86400" using that s t'(2) by linarith
    then show ?thesis using zone by blast
  qed
  have 1: "tm_shows (localtime_r e) (e + off)" by (rule u) (use near in linarith)
  have 2: "tm_shows (localtime_r (e + (local_seconds t' - (e + off)))) (local_seconds t')"
    using u [of "local_seconds t' - off"] by simp
  have r: "e + (local_seconds t' - (e + off)) + shift * 86400 = local_seconds t - off"
    "e + off = local_seconds t' \<longleftrightarrow> tz = 3600 - off"
    "tz + (local_seconds t' - (e + off) + 3600) = 7200 - off"
    using t'(2) by (auto simp: e_def)
  show ?thesis
    using my_system_gmt_sec_step [OF t sh e_def near 1 2, of mt gap] unfolding Let_def r .
qed

lemma epoch_day_numbers:
  "int (day_number 1970 1 1) = 719528" "int (day_number 2038 1 20) = 744384"
  using calc_daynr_eq [of 1 1970 1] calc_daynr_eq [of 1 2038 20]
  by (simp_all add: calc_daynr_in_range sdiv_nonneg Let_def)

lemma in_timestamp_range:
  assumes v: "valid_date y m d" and n: "719528 \<le> int (day_number y m d)" "int (day_number y m d) < 744384"
    and t: "t_year t = y" "t_month t = m" "t_day t = d"
  shows "validate_timestamp_range t"
proof -
  have c: "valid_date 1970 1 1" "valid_date 2038 1 20" by (simp_all add: valid_date_def month_days_def days_in_month_def)
  have "\<not> y < 1970"
    using day_number_less [OF v c(1)] n(1) epoch_day_numbers(1) by linarith
  moreover have "\<not> (2038 < y \<or> 2038 = y \<and> (1 < m \<or> 1 = m \<and> 20 < d))"
    using day_number_less [OF c(2) v] n(2) epoch_day_numbers(2) by linarith
  moreover have "\<not> (y = 2038 \<and> m = 1 \<and> d = 20)"
    using n(2) epoch_day_numbers(2) by auto
  ultimately show ?thesis using v t by (auto simp: validate_timestamp_range_def YY_PART_YEAR_def valid_date_def)
qed

text \<open>
  The offset that \<open>my_init_time\<close> caches is not that of the time zone: unless the offset is zero,
  the estimate of the next call lies one hour behind the wanted second, not before it.
\<close>

lemma my_init_time_value:
  assumes zone: "\<forall>u. \<bar>u - now\<bar> \<le> 3 * 86400 \<longrightarrow> tm_shows (localtime_r u) (u + off)"
    and off: "\<bar>off\<bar> < 86400" and now: "86400 \<le> now + off" "now + off < 2147385600"
  shows "my_init_time localtime_r now = Some (if off = 0 then 3600 else 7200 - off)"
proof -
  have "tm_shows (localtime_r now) (now + off)" using zone by simp
  then obtain y m d h mi se where ym: "valid_date y m d"
    and l: "localtime_r now = \<lparr>tm_year = int y - 1900, tm_mon = int m - 1, tm_mday = int d,
      tm_hour = int h, tm_min = int mi, tm_sec = int se\<rparr>"
    and c: "h \<le> 23" "mi \<le> 59" "se \<le> 59"
    and v: "now + off = (int (day_number y m d) - days_at_timestart) * 86400 + int h * 3600 + int mi * 60 + int se"
    by (rule tm_shows_time)
  define t where "t = (set_zero_time MYSQL_TIMESTAMP_DATETIME)\<lparr>t_year := y, t_month := m, t_day := d,
    t_hour := h, t_minute := mi, t_second := se\<rparr>"
  have t: "t_year t = y" "t_month t = m" "t_day t = d" "t_hour t = h" "t_minute t = mi" "t_second t = se"
    "t_second_part t = 0" by (simp_all add: t_def set_zero_time_def)
  have b: "0 \<le> int h * 3600 + int mi * 60 + int se" "int h * 3600 + int mi * 60 + int se < 86400"
    using c by auto
  have D: "719528 \<le> int (day_number y m d)" "int (day_number y m d) < 744384"
    using now b unfolding v days_at_timestart_def by (simp_all add: algebra_simps)
  have rng: "validate_timestamp_range t" by (rule in_timestamp_range [OF ym D]) (simp_all add: t)
  then have "y \<le> 9999" by (auto simp: validate_timestamp_range_def t split: if_splits)
  then have valid: "valid_time t" using ym c by (simp add: t valid_time_def)
  have L: "local_seconds t = now + off" unfolding local_seconds_def t v ..
  have "my_init_time localtime_r now =
      map_option (\<lambda>(_, my_timezone, _). my_timezone) (my_system_gmt_sec localtime_r 3600 t 3600 False)"
    by (simp add: my_init_time_def t_def Let_def l)
  also have "\<dots> = Some (if off = 0 then 3600 else 7200 - off)"
    using my_system_gmt_sec_zone [OF valid rng, of off localtime_r 3600 3600 False] zone off
    by (simp add: L)
  finally show ?thesis .
qed

text \<open>
  In the hour that the clock shows twice when summer time ends, the second of the two instants is
  found, whether the server was started in winter (\<open>my_time_zone\<close> is 3600) or in summer (it is 0).
\<close>

lemma repeated_hour_second:
  assumes t: "valid_time t" "validate_timestamp_range t" "t_year t \<noteq> TIMESTAMP_MAX_YEAR"
    and zone: "\<forall>u. \<bar>u - local_seconds t\<bar> \<le> 86400 \<longrightarrow>
      tm_shows (localtime_r u) (u + (if u < T then 7200 else 3600))"
    and T: "local_seconds t - 7200 < T" "T \<le> local_seconds t - 3600" and tz: "tz = 3600 \<or> tz = 0"
    and valid: "IS_TIME_T_VALID_FOR_TIMESTAMP (local_seconds t - 3600)"
  shows "tm_shows (localtime_r (local_seconds t - 7200)) (local_seconds t)"
    "\<exists>mt'. my_system_gmt_sec localtime_r tz t mt gap = Some (local_seconds t - 3600, mt', gap)"
proof -
  define L where "L = local_seconds t"
  have z: "tm_shows (localtime_r u) (u + 7200)" if "\<bar>u - L\<bar> \<le> 86400" "u < T" for u
    using zone that by (auto simp: L_def)
  have z': "tm_shows (localtime_r u) (u + 3600)" if "\<bar>u - L\<bar> \<le> 86400" "T \<le> u" for u
    using zone that by (auto simp: L_def)
  show "tm_shows (localtime_r (local_seconds t - 7200)) (local_seconds t)"
    using z [of "L - 7200"] T by (simp add: L_def)
  have sh: "shifted t = (t, 0)" using t(3) by (simp add: shifted_def)
  have e: "tm_shows (localtime_r (L + tz - 3600)) (L + tz)"
    using z' [of "L + tz - 3600"] T tz by (auto simp: L_def)
  have f: "tm_shows (localtime_r (L + tz - 3600 + (L - (L + tz)))) L"
    using z' [of "L - 3600"] T by (simp add: L_def)
  have "my_system_gmt_sec localtime_r tz t mt gap =
    (let r = L + tz - 3600 + (L - (L + tz)) + 0 * 86400
     in Some (if IS_TIME_T_VALID_FOR_TIMESTAMP r then r else 0,
              if L + tz = L then tz else tz + (L - (L + tz) + 3600), gap))"
    unfolding L_def
    by (rule my_system_gmt_sec_step [OF t(1,2) sh refl]) (use tz e f in \<open>auto simp: L_def\<close>)
  moreover have "L + tz - 3600 + (L - (L + tz)) + 0 * 86400 = L - 3600" by simp
  ultimately show "\<exists>mt'. my_system_gmt_sec localtime_r tz t mt gap = Some (local_seconds t - 3600, mt', gap)"
    using valid by (simp add: L_def)
qed

text \<open>A \<open>localtime_r\<close> of a zone with a fixed offset.\<close>

definition tm_of :: "int \<Rightarrow> tm" where
  "tm_of v =
     (case get_date_from_daynr (days_at_timestart + v div 86400) of
        Some (y, m, d) \<Rightarrow>
          \<lparr>tm_year = int y - 1900, tm_mon = int m - 1, tm_mday = int d, tm_hour = v mod 86400 div 3600,
           tm_min = v mod 3600 div 60, tm_sec = v mod 60\<rparr>
      | None \<Rightarrow> \<lparr>tm_year = 0, tm_mon = 0, tm_mday = 0, tm_hour = 0, tm_min = 0, tm_sec = 0\<rparr>)"

lemma tm_of_shows:
  assumes "0 \<le> v" "v \<le> 4000000000"
  shows "tm_shows (tm_of v) v"
proof -
  have D: "0 \<le> v div 86400" "v div 86400 \<le> 46296"
    using zdiv_mono1 [of v 4000000000 86400] assms by (simp_all add: pos_imp_zdiv_nonneg_iff)
  have "365 < days_at_timestart + v div 86400" "days_at_timestart + v div 86400 \<le> MAX_DAY_NUMBER"
    using D unfolding days_at_timestart_def MAX_DAY_NUMBER_def by linarith+
  then obtain y m d where "get_date_from_daynr (days_at_timestart + v div 86400) = Some (y, m, d)"
    "valid_date y m d" "int (day_number y m d) = days_at_timestart + v div 86400"
    by (rule get_date_ok)
  then show ?thesis unfolding tm_of_def tm_shows_def by simp
qed

definition sample_local :: mysql_time where
  "sample_local =
     \<lparr>t_year = 2005, t_month = 6, t_day = 7, t_hour = 8, t_minute = 9, t_second = 10,
      t_second_part = 0, t_neg = False, t_type = MYSQL_TIMESTAMP_DATETIME\<rparr>"

lemma sample_local_ok:
  "valid_time sample_local" "validate_timestamp_range sample_local" "local_seconds sample_local = 1118131750"
proof -
  show "valid_time sample_local" "validate_timestamp_range sample_local"
    by (simp_all add: sample_local_def valid_time_def valid_date_def month_days_def days_in_month_def
        validate_timestamp_range_def YY_PART_YEAR_def)
  have "int (day_number 2005 6 7) = 732469"
    using calc_daynr_eq [of 6 2005 7] by (simp add: calc_daynr_in_range sdiv_nonneg Let_def)
  then show "local_seconds sample_local = 1118131750"
    by (simp add: local_seconds_def sample_local_def days_at_timestart_def)
qed

section \<open>Properties\<close>

text \<open>C11: Where the time zone has a fixed offset for three days around a local time, and the cached
  offset is wrong by less than a day, \<open>my_system_gmt_sec\<close> finds the second that this local time
  names, or returns 0 if it is not a timestamp, also at the end of the range in January 2038.\<close>

theorem my_system_gmt_sec_exact:
  assumes "valid_time t" "validate_timestamp_range t"
    and "\<forall>u. \<bar>u - (local_seconds t - off)\<bar> \<le> 3 * 86400 \<longrightarrow> tm_shows (localtime_r u) (u + off)"
    and "\<bar>tz - 3600 + off\<bar> < 86400"
  shows "my_system_gmt_sec localtime_r tz t mt gap =
    Some (if 1 \<le> local_seconds t - off \<and> local_seconds t - off < 2 ^ 31 then local_seconds t - off else 0,
          if tz = 3600 - off then tz else 7200 - off, gap)"
  using my_system_gmt_sec_zone [OF assms, of mt gap]
  by (auto simp: IS_TIME_T_VALID_FOR_TIMESTAMP_def TIMESTAMP_MAX_VALUE_def TIMESTAMP_MIN_VALUE_def)

theorem my_system_gmt_sec_exact_witness:
  "my_system_gmt_sec (\<lambda>u. tm_of (u + 7200)) 0 sample_local 0 False = Some (1118124550, 0, False)"
proof -
  have "\<forall>u. \<bar>u - (local_seconds sample_local - 7200)\<bar> \<le> 3 * 86400 \<longrightarrow> tm_shows (tm_of (u + 7200)) (u + 7200)"
    unfolding sample_local_ok(3) by (auto intro!: tm_of_shows)
  from my_system_gmt_sec_exact [OF sample_local_ok(1,2) this, of 0 0 False]
  show ?thesis by (simp add: sample_local_ok(3))
qed

end
