(* ===== verification/Thr_Lock.thy ===== *)
theory Thr_Lock
  imports Mysys_Prelude
begin

text \<open>
  Table level locks: \<^verbatim>\<open>mysys/thr_lock.c\<close> and \<^verbatim>\<open>include/thr_lock.h\<close>.

  The state is one \<open>THR_LOCK\<close> with its four chains of lock instances, and the store of the
  instances. A chain is the list of the addresses of its instances, from \<open>data\<close> to \<open>last\<close>.
  Linking at the end, linking at the front and unlinking are the operations the code writes out
  in place. Every function of the
  code runs under the mutex of the lock, so a function is one step; the only place where a thread
  gives up the mutex in the middle of a call is the wait on the condition in \<open>wait_for_lock\<close>, and
  the model cuts that function there: \<open>wait_for_lock_enter\<close>, a lap of the loop and
  \<open>wait_for_lock_exit\<close>. The callbacks of the storage engine are recorded as events;
  \<open>check_status\<close> is a function the state holds.
\<close>

section \<open>Types\<close>

datatype thr_lock_type =
    TL_IGNORE | TL_UNLOCK | TL_READ_DEFAULT | TL_READ | TL_READ_WITH_SHARED_LOCKS
  | TL_READ_HIGH_PRIORITY | TL_READ_NO_INSERT | TL_WRITE_ALLOW_WRITE | TL_WRITE_CONCURRENT_INSERT
  | TL_WRITE_DELAYED | TL_WRITE_DEFAULT | TL_WRITE_LOW_PRIORITY | TL_WRITE | TL_WRITE_ONLY

fun tl_value :: "thr_lock_type \<Rightarrow> int" where
  "tl_value TL_IGNORE = - 1"
| "tl_value TL_UNLOCK = 0"
| "tl_value TL_READ_DEFAULT = 1"
| "tl_value TL_READ = 2"
| "tl_value TL_READ_WITH_SHARED_LOCKS = 3"
| "tl_value TL_READ_HIGH_PRIORITY = 4"
| "tl_value TL_READ_NO_INSERT = 5"
| "tl_value TL_WRITE_ALLOW_WRITE = 6"
| "tl_value TL_WRITE_CONCURRENT_INSERT = 7"
| "tl_value TL_WRITE_DELAYED = 8"
| "tl_value TL_WRITE_DEFAULT = 9"
| "tl_value TL_WRITE_LOW_PRIORITY = 10"
| "tl_value TL_WRITE = 11"
| "tl_value TL_WRITE_ONLY = 12"

lemma tl_value_inj: "tl_value a = tl_value b \<Longrightarrow> a = b"
  by (cases a; cases b) simp_all

text \<open>Lock types are compared by their enumeration values.\<close>

instantiation thr_lock_type :: linorder
begin

definition less_eq_thr_lock_type :: "thr_lock_type \<Rightarrow> thr_lock_type \<Rightarrow> bool" where
  "less_eq_thr_lock_type a b \<longleftrightarrow> tl_value a \<le> tl_value b"

definition less_thr_lock_type :: "thr_lock_type \<Rightarrow> thr_lock_type \<Rightarrow> bool" where
  "less_thr_lock_type a b \<longleftrightarrow> tl_value a < tl_value b"

instance
  by standard (auto simp: less_eq_thr_lock_type_def less_thr_lock_type_def intro: tl_value_inj)

end

datatype enum_thr_lock_result =
    THR_LOCK_SUCCESS | THR_LOCK_ABORTED | THR_LOCK_WAIT_TIMEOUT | THR_LOCK_DEADLOCK

record THR_LOCK_DATA =
  d_owner :: ptr
  d_cond :: ptr
  d_type :: thr_lock_type
  d_status_param :: ptr

datatype lock_list = Read_Wait | Read | Write_Wait | Write

record THR_LOCK =
  chain :: "lock_list \<Rightarrow> ptr list"
  write_lock_count :: nat
  read_no_write_count :: nat
  get_status :: bool
  copy_status :: bool
  update_status :: bool
  restore_status :: bool
  check_status :: "(ptr \<Rightarrow> bool) option"

datatype lock_event =
    Cond_signal ptr
  | Get_status ptr bool
  | Update_status ptr
  | Restore_status ptr

record lock_world =
  lock :: THR_LOCK
  datas :: "ptr \<Rightarrow> THR_LOCK_DATA"
  thread_id :: "ptr \<Rightarrow> nat"
  locks_immediate :: nat
  locks_waited :: nat
  max_write_lock_count :: nat
  thr_upgraded_concurrent_insert_lock :: thr_lock_type
  events :: "lock_event list"

abbreviation chain_of :: "lock_list \<Rightarrow> lock_world \<Rightarrow> ptr list" where
  "chain_of q w \<equiv> chain (lock w) q"

abbreviation type_of :: "lock_world \<Rightarrow> ptr \<Rightarrow> thr_lock_type" where
  "type_of w d \<equiv> d_type (datas w d)"

abbreviation owner_of :: "lock_world \<Rightarrow> ptr \<Rightarrow> ptr" where
  "owner_of w d \<equiv> d_owner (datas w d)"

abbreviation cond_of :: "lock_world \<Rightarrow> ptr \<Rightarrow> ptr" where
  "cond_of w d \<equiv> d_cond (datas w d)"

section \<open>Elementary steps\<close>

definition set_chain :: "lock_list \<Rightarrow> ptr list \<Rightarrow> lock_world \<Rightarrow> lock_world" where
  "set_chain q ds w = w\<lparr>lock := (lock w)\<lparr>chain := (chain (lock w))(q := ds)\<rparr>\<rparr>"

definition link_last :: "lock_list \<Rightarrow> ptr \<Rightarrow> lock_world \<Rightarrow> lock_world" where
  "link_last q d w = set_chain q (chain_of q w @ [d]) w"

definition link_first :: "lock_list \<Rightarrow> ptr \<Rightarrow> lock_world \<Rightarrow> lock_world" where
  "link_first q d w = set_chain q (d # chain_of q w) w"

definition unlink :: "lock_list \<Rightarrow> ptr \<Rightarrow> lock_world \<Rightarrow> lock_world option" where
  "unlink q d w =
     (if d \<in> set (chain_of q w) then Some (set_chain q (remove1 d (chain_of q w)) w) else None)"

definition set_type :: "ptr \<Rightarrow> thr_lock_type \<Rightarrow> lock_world \<Rightarrow> lock_world" where
  "set_type d ty w = w\<lparr>datas := (datas w)(d := (datas w d)\<lparr>d_type := ty\<rparr>)\<rparr>"

definition set_cond :: "ptr \<Rightarrow> ptr \<Rightarrow> lock_world \<Rightarrow> lock_world" where
  "set_cond d c w = w\<lparr>datas := (datas w)(d := (datas w d)\<lparr>d_cond := c\<rparr>)\<rparr>"

definition add_event :: "lock_event \<Rightarrow> lock_world \<Rightarrow> lock_world" where
  "add_event e w = w\<lparr>events := events w @ [e]\<rparr>"

definition cond_signal :: "ptr \<Rightarrow> lock_world \<Rightarrow> lock_world option" where
  "cond_signal c w = (if c = 0 then None else Some (add_event (Cond_signal c) w))"

definition call_get_status :: "ptr \<Rightarrow> bool \<Rightarrow> lock_world \<Rightarrow> lock_world" where
  "call_get_status d concurrent_insert w =
     (if get_status (lock w) then add_event (Get_status (d_status_param (datas w d)) concurrent_insert) w else w)"

definition call_check_status :: "ptr \<Rightarrow> lock_world \<Rightarrow> bool option" where
  "call_check_status d w = map_option (\<lambda>f. f (d_status_param (datas w d))) (check_status (lock w))"

definition set_read_no_write_count :: "nat \<Rightarrow> lock_world \<Rightarrow> lock_world" where
  "set_read_no_write_count n w = w\<lparr>lock := (lock w)\<lparr>read_no_write_count := n\<rparr>\<rparr>"

definition set_write_lock_count :: "nat \<Rightarrow> lock_world \<Rightarrow> lock_world" where
  "set_write_lock_count n w = w\<lparr>lock := (lock w)\<lparr>write_lock_count := n\<rparr>\<rparr>"

definition inc_locks_immediate :: "lock_world \<Rightarrow> lock_world" where
  "inc_locks_immediate w = w\<lparr>locks_immediate := (locks_immediate w + 1) mod 2 ^ 64\<rparr>"

definition inc_locks_waited :: "lock_world \<Rightarrow> lock_world" where
  "inc_locks_waited w = w\<lparr>locks_waited := (locks_waited w + 1) mod 2 ^ 64\<rparr>"

section \<open>Initialisation and look-up\<close>

definition thr_lock_init :: "lock_world \<Rightarrow> lock_world" where
  "thr_lock_init w =
     w\<lparr>lock := \<lparr>chain = (\<lambda>_. []), write_lock_count = 0, read_no_write_count = 0, get_status = False,
        copy_status = False, update_status = False, restore_status = False, check_status = None\<rparr>\<rparr>"

definition thr_lock_data_init :: "ptr \<Rightarrow> ptr \<Rightarrow> lock_world \<Rightarrow> lock_world" where
  "thr_lock_data_init d param w =
     w\<lparr>datas := (datas w)(d := \<lparr>d_owner = 0, d_cond = 0, d_type = TL_UNLOCK, d_status_param = param\<rparr>)\<rparr>"

definition thr_lock_owner_equal :: "ptr \<Rightarrow> ptr \<Rightarrow> bool" where
  "thr_lock_owner_equal rhs lhs \<longleftrightarrow> rhs = lhs"

fun has_old_lock :: "(ptr \<Rightarrow> THR_LOCK_DATA) \<Rightarrow> ptr list \<Rightarrow> ptr \<Rightarrow> bool" where
  "has_old_lock dm [] owner = False"
| "has_old_lock dm (d # ds) owner =
     (if thr_lock_owner_equal (d_owner (dm d)) owner then True else has_old_lock dm ds owner)"

fun have_specific_lock :: "(ptr \<Rightarrow> THR_LOCK_DATA) \<Rightarrow> ptr list \<Rightarrow> thr_lock_type \<Rightarrow> bool" where
  "have_specific_lock dm [] ty = False"
| "have_specific_lock dm (d # ds) ty =
     (if d_type (dm d) = ty then True else have_specific_lock dm ds ty)"

section \<open>Waking up waiters\<close>

text \<open>The loop of \<open>free_all_read_locks\<close>, over the instances moved to the read chain.\<close>

fun free_read_loop :: "ptr list \<Rightarrow> bool \<Rightarrow> lock_world \<Rightarrow> lock_world option" where
  "free_read_loop [] using_concurrent_insert w = Some w"
| "free_read_loop (d # ds) using_concurrent_insert w =
     (if type_of w d = TL_READ_NO_INSERT \<and> using_concurrent_insert then
        do { w \<leftarrow> unlink Read d w;
             free_read_loop ds using_concurrent_insert (link_last Read_Wait d w) }
      else
        let c = cond_of w d;
            w = (if type_of w d = TL_READ_NO_INSERT
                 then set_read_no_write_count (uint_wrap (read_no_write_count (lock w) + 1)) w else w)
        in do { w \<leftarrow> cond_signal c (set_cond d 0 w);
                free_read_loop ds using_concurrent_insert w })"

definition free_all_read_locks :: "bool \<Rightarrow> lock_world \<Rightarrow> lock_world option" where
  "free_all_read_locks using_concurrent_insert w =
     (let ds = chain_of Read_Wait w in
      if ds = [] then None
      else
        do { w \<leftarrow> free_read_loop ds using_concurrent_insert
               (set_chain Read_Wait [] (set_chain Read (chain_of Read w @ ds) w));
             Some (if chain_of Read_Wait w = [] then set_write_lock_count 0 w else w) })"

text \<open>The loop that starts the first waiting writer and the \<open>TL_WRITE_ALLOW_WRITE\<close> writers behind
  it when no lock is in use. It returns the last instance it has started.\<close>

partial_function (option) start_writers :: "ptr \<Rightarrow> lock_world \<Rightarrow> (ptr \<times> lock_world) option" where
  [code]: "start_writers d w =
     do { w \<leftarrow> unlink Write_Wait d w;
          let w = link_last Write d w;
          upgrade \<leftarrow> (if type_of w d = TL_WRITE_CONCURRENT_INSERT then call_check_status d w else Some False);
          let w = (if upgrade then set_type d TL_WRITE w else w);
          let c = cond_of w d;
          w \<leftarrow> cond_signal c (set_cond d 0 w);
          (case chain_of Write_Wait w of
             [] \<Rightarrow> Some (d, w)
           | d' # _ \<Rightarrow>
               if type_of w d \<noteq> TL_WRITE_ALLOW_WRITE \<or> type_of w d' \<noteq> TL_WRITE_ALLOW_WRITE
               then Some (d, w)
               else start_writers d' w) }"

text \<open>The loop that starts writers beside running readers.\<close>

partial_function (option) start_writers_with_readers ::
  "thr_lock_type \<Rightarrow> ptr \<Rightarrow> lock_world \<Rightarrow> lock_world option" where
  [code]: "start_writers_with_readers lock_type d w =
     do { let c = cond_of w d;
          w \<leftarrow> unlink Write_Wait d w;
          let w = link_last Write d w;
          w \<leftarrow> cond_signal c (set_cond d 0 w);
          (case chain_of Write_Wait w of
             [] \<Rightarrow> Some w
           | d' # _ \<Rightarrow>
               if lock_type = TL_WRITE_ALLOW_WRITE \<and> type_of w d' = TL_WRITE_ALLOW_WRITE
               then start_writers_with_readers lock_type d' w
               else Some w) }"

text \<open>\<open>wake_up_waiters\<close> when no lock is in use; \<open>d\<close> is the first waiting writer.\<close>

definition release_waiting_reads :: "bool \<Rightarrow> lock_world \<Rightarrow> lock_world option" where
  "release_waiting_reads using_concurrent_insert w =
     (if chain_of Read_Wait w \<noteq> [] then free_all_read_locks using_concurrent_insert w else Some w)"

definition shares_with_insert :: "thr_lock_type \<Rightarrow> bool" where
  "shares_with_insert ty \<longleftrightarrow> ty = TL_WRITE_CONCURRENT_INSERT \<or> ty = TL_WRITE_ALLOW_WRITE"

definition wake_up_unused :: "lock_world \<Rightarrow> lock_world option" where
  "wake_up_unused w =
     (case chain_of Write_Wait w of
        [] \<Rightarrow> release_waiting_reads False w
      | d # _ \<Rightarrow>
          if type_of w d \<noteq> TL_WRITE_LOW_PRIORITY \<or> chain_of Read_Wait w = [] \<or>
             type_of w (hd (chain_of Read_Wait w)) < TL_READ_HIGH_PRIORITY
          then
            let too_many = write_lock_count (lock w) > max_write_lock_count w;
                w = set_write_lock_count ((write_lock_count (lock w) + 1) mod 2 ^ 64) w;
                w = (if too_many then set_write_lock_count 0 w else w)
            in
            if too_many \<and> chain_of Read_Wait w \<noteq> [] then free_all_read_locks False w
            else
              do { (d, w) \<leftarrow> start_writers d w;
                   if type_of w d \<ge> TL_WRITE_LOW_PRIORITY then Some w
                   else release_waiting_reads (shares_with_insert (type_of w d)) w }
          else release_waiting_reads (shares_with_insert (type_of w d)) w)"

text \<open>\<open>wake_up_waiters\<close> when only readers are running.\<close>

definition wake_up_beside_readers :: "lock_world \<Rightarrow> lock_world option" where
  "wake_up_beside_readers w =
     (case chain_of Write_Wait w of
        [] \<Rightarrow> release_waiting_reads False w
      | d # _ \<Rightarrow>
          let lock_type = type_of w d in
          if lock_type \<le> TL_WRITE_DELAYED \<and>
             (\<not> shares_with_insert lock_type \<or> read_no_write_count (lock w) = 0)
          then
            do { upgrade \<leftarrow> (if lock_type = TL_WRITE_CONCURRENT_INSERT then call_check_status d w else Some False);
                 if upgrade then release_waiting_reads False (set_type d TL_WRITE w)
                 else
                   do { w \<leftarrow> start_writers_with_readers lock_type d w;
                        release_waiting_reads (shares_with_insert lock_type) w } }
          else Some w)"

definition wake_up_waiters :: "lock_world \<Rightarrow> lock_world option" where
  "wake_up_waiters w =
     (if chain_of Write w = [] then
        if chain_of Read w = [] then wake_up_unused w else wake_up_beside_readers w
      else Some w)"

section \<open>Waiting for a lock\<close>

definition wait_for_lock_enter :: "lock_list \<Rightarrow> ptr \<Rightarrow> bool \<Rightarrow> ptr \<Rightarrow> lock_world \<Rightarrow> lock_world" where
  "wait_for_lock_enter wait d in_wait_list self w =
     set_cond d self (inc_locks_waited (if in_wait_list then w else link_last wait d w))"

text \<open>One lap of the wait loop: the result variable when the loop is left.\<close>

definition wait_for_lock_lap :: "ptr \<Rightarrow> bool \<Rightarrow> bool \<Rightarrow> bool \<Rightarrow> lock_world \<Rightarrow> enum_thr_lock_result option" where
  "wait_for_lock_lap d in_wait_list abort timed_out w =
     (if abort \<and> \<not> in_wait_list then Some THR_LOCK_ABORTED
      else if cond_of w d = 0 then Some THR_LOCK_ABORTED
      else if timed_out then Some THR_LOCK_WAIT_TIMEOUT
      else None)"

definition wait_for_lock_exit ::
  "lock_list \<Rightarrow> ptr \<Rightarrow> enum_thr_lock_result \<Rightarrow> lock_world \<Rightarrow> (enum_thr_lock_result \<times> lock_world) option" where
  "wait_for_lock_exit wait d result w =
     (if cond_of w d \<noteq> 0 \<or> type_of w d = TL_UNLOCK then
        if cond_of w d \<noteq> 0 then
          do { w \<leftarrow> unlink wait d w;
               w \<leftarrow> wake_up_waiters (set_type d TL_UNLOCK w);
               Some (result, w) }
        else Some (result, w)
      else Some (THR_LOCK_SUCCESS, call_get_status d False w))"

section \<open>Locking\<close>

text \<open>A request ends at once or goes on to wait in one of the wait chains.\<close>

datatype lock_outcome = Done enum_thr_lock_result | Wait lock_list

definition grant_now :: "lock_list \<Rightarrow> ptr \<Rightarrow> bool \<Rightarrow> lock_world \<Rightarrow> (lock_outcome \<times> lock_world) option" where
  "grant_now q d concurrent_insert w =
     Some (Done THR_LOCK_SUCCESS, inc_locks_immediate (call_get_status d concurrent_insert (link_last q d w)))"

definition refuse :: "ptr \<Rightarrow> lock_world \<Rightarrow> (lock_outcome \<times> lock_world) option" where
  "refuse d w = Some (Done THR_LOCK_ABORTED, set_type d TL_UNLOCK w)"

definition count_no_insert :: "thr_lock_type \<Rightarrow> lock_world \<Rightarrow> lock_world" where
  "count_no_insert lock_type w =
     (if lock_type = TL_READ_NO_INSERT
      then set_read_no_write_count (uint_wrap (read_no_write_count (lock w) + 1)) w else w)"

definition thr_lock_read :: "ptr \<Rightarrow> thr_lock_type \<Rightarrow> lock_world \<Rightarrow> (lock_outcome \<times> lock_world) option" where
  "thr_lock_read d lock_type w =
     (case chain_of Write w of
        wr # _ \<Rightarrow>
          if thr_lock_owner_equal (owner_of w d) (owner_of w wr) \<or>
             (type_of w wr \<le> TL_WRITE_DELAYED \<and>
              (lock_type \<le> TL_READ_HIGH_PRIORITY \<or> type_of w wr \<noteq> TL_WRITE_CONCURRENT_INSERT))
          then grant_now Read d False (count_no_insert lock_type w)
          else if type_of w wr = TL_WRITE_ONLY then refuse d w
          else Some (Wait Read_Wait, w)
      | [] \<Rightarrow>
          if chain_of Write_Wait w = [] \<or> type_of w (hd (chain_of Write_Wait w)) \<le> TL_WRITE_LOW_PRIORITY \<or>
             lock_type = TL_READ_HIGH_PRIORITY \<or> has_old_lock (datas w) (chain_of Read w) (owner_of w d)
          then grant_now Read d False (count_no_insert lock_type w)
          else Some (Wait Read_Wait, w))"

text \<open>A write request for a lock that is write locked already, and one for a lock that is not.\<close>

definition thr_lock_write_locked ::
  "ptr \<Rightarrow> thr_lock_type \<Rightarrow> ptr \<Rightarrow> lock_world \<Rightarrow> (lock_outcome \<times> lock_world) option" where
  "thr_lock_write_locked d lock_type wr w =
     (if type_of w wr = TL_WRITE_ONLY \<and> \<not> thr_lock_owner_equal (owner_of w d) (owner_of w wr) then refuse d w
      else
        do { dbug_assert (\<not> has_old_lock (datas w) (chain_of Write w) (owner_of w d) \<or>
               ((lock_type \<le> type_of w wr \<or>
                 (lock_type = TL_WRITE \<and> type_of w wr = TL_WRITE_LOW_PRIORITY)) \<and>
                type_of w wr \<noteq> TL_WRITE_DELAYED));
             if (lock_type = TL_WRITE_ALLOW_WRITE \<and> chain_of Write_Wait w = [] \<and>
                 type_of w wr = TL_WRITE_ALLOW_WRITE) \<or>
                has_old_lock (datas w) (chain_of Write w) (owner_of w d)
             then grant_now Write d False w
             else Some (Wait Write_Wait, w) })"

definition thr_lock_write_free ::
  "ptr \<Rightarrow> thr_lock_type \<Rightarrow> lock_world \<Rightarrow> (lock_outcome \<times> lock_world) option" where
  "thr_lock_write_free d lock_type w =
     (if chain_of Write_Wait w = [] then
        do { bad \<leftarrow> (if lock_type = TL_WRITE_CONCURRENT_INSERT then call_check_status d w else Some False);
             let concurrent_insert = (lock_type = TL_WRITE_CONCURRENT_INSERT \<and> \<not> bad);
             let lock_type = (if bad then thr_upgraded_concurrent_insert_lock w else lock_type);
             let w = (if bad then set_type d lock_type w else w);
             if chain_of Read w = [] \<or>
                (lock_type \<le> TL_WRITE_DELAYED \<and>
                 (\<not> shares_with_insert lock_type \<or> read_no_write_count (lock w) = 0))
             then grant_now Write d concurrent_insert w
             else Some (Wait Write_Wait, w) }
      else Some (Wait Write_Wait, w))"

definition thr_lock_write ::
  "ptr \<Rightarrow> thr_lock_type \<Rightarrow> ptr \<Rightarrow> lock_world \<Rightarrow> (lock_outcome \<times> lock_world) option" where
  "thr_lock_write d lock_type self w =
     (if lock_type = TL_WRITE_DELAYED \<and> chain_of Write w \<noteq> [] \<and>
         type_of w (hd (chain_of Write w)) = TL_WRITE_ONLY
      then refuse d w
      else if lock_type = TL_WRITE_DELAYED \<and> (chain_of Write w \<noteq> [] \<or> chain_of Read w \<noteq> [])
      then Some (Done THR_LOCK_SUCCESS, inc_locks_immediate (set_cond d self (link_last Write_Wait d w)))
      else
        let upgrade = (lock_type = TL_WRITE_CONCURRENT_INSERT \<and> check_status (lock w) = None);
            lock_type = (if upgrade then thr_upgraded_concurrent_insert_lock w else lock_type);
            w = (if upgrade then set_type d lock_type w else w)
        in
        case chain_of Write w of
          wr # _ \<Rightarrow> thr_lock_write_locked d lock_type wr w
        | [] \<Rightarrow> thr_lock_write_free d lock_type w)"

text \<open>The outcome \<^term>\<open>Wait q\<close> leaves the calling thread in the wait of \<open>wait_for_lock\<close>.\<close>

definition begin_wait :: "ptr \<Rightarrow> bool \<Rightarrow> ptr \<Rightarrow> lock_outcome \<times> lock_world \<Rightarrow> lock_outcome \<times> lock_world" where
  "begin_wait d in_wait_list self = (\<lambda>(out, w).
     (out, case out of Done r \<Rightarrow> w | Wait q \<Rightarrow> wait_for_lock_enter q d in_wait_list self w))"

definition thr_lock ::
  "ptr \<Rightarrow> ptr \<Rightarrow> thr_lock_type \<Rightarrow> ptr \<Rightarrow> lock_world \<Rightarrow> (lock_outcome \<times> lock_world) option" where
  "thr_lock d owner lock_type self w =
     (let w = w\<lparr>datas := (datas w)(d := (datas w d)\<lparr>d_cond := 0, d_type := lock_type, d_owner := owner\<rparr>)\<rparr> in
      map_option (begin_wait d False self)
        (if lock_type \<le> TL_READ_NO_INSERT then thr_lock_read d lock_type w
         else thr_lock_write d lock_type self w))"

section \<open>Unlocking\<close>

definition thr_unlock :: "ptr \<Rightarrow> lock_world \<Rightarrow> lock_world option" where
  "thr_unlock d w =
     (let lock_type = type_of w d;
          q = (if lock_type \<le> TL_READ_NO_INSERT then Read
               else if lock_type = TL_WRITE_DELAYED \<and> cond_of w d \<noteq> 0 then Write_Wait else Write)
      in
      do { w \<leftarrow> unlink q d w;
           let w = (if lock_type \<ge> TL_WRITE_CONCURRENT_INSERT then
                      if update_status (lock w) then add_event (Update_status (d_status_param (datas w d))) w else w
                    else
                      if restore_status (lock w) then add_event (Restore_status (d_status_param (datas w d))) w else w);
           let w = (if lock_type = TL_READ_NO_INSERT
                    then set_read_no_write_count (uint_dec (read_no_write_count (lock w))) w else w);
           wake_up_waiters (set_type d TL_UNLOCK w) })"

section \<open>Aborting waiters\<close>

fun abort_loop :: "ptr list \<Rightarrow> lock_world \<Rightarrow> lock_world option" where
  "abort_loop [] w = Some w"
| "abort_loop (d # ds) w =
     do { w \<leftarrow> cond_signal (cond_of w d) (set_type d TL_UNLOCK w);
          abort_loop ds (set_cond d 0 w) }"

definition thr_abort_locks :: "bool \<Rightarrow> lock_world \<Rightarrow> lock_world option" where
  "thr_abort_locks upgrade_lock w =
     do { w \<leftarrow> abort_loop (chain_of Read_Wait w) w;
          w \<leftarrow> abort_loop (chain_of Write_Wait w) w;
          let w = set_chain Write_Wait [] (set_chain Read_Wait [] w);
          Some (if upgrade_lock \<and> chain_of Write w \<noteq> []
                then set_type (hd (chain_of Write w)) TL_WRITE_ONLY w else w) }"

text \<open>The walk over a wait chain that aborts the instances of one thread; it tells whether it found
  one.\<close>

fun abort_thread_loop :: "lock_list \<Rightarrow> nat \<Rightarrow> ptr list \<Rightarrow> bool \<Rightarrow> lock_world \<Rightarrow> (bool \<times> lock_world) option" where
  "abort_thread_loop q tid [] found w = Some (found, w)"
| "abort_thread_loop q tid (d # ds) found w =
     (if thread_id w (owner_of w d) = tid then
        do { w \<leftarrow> cond_signal (cond_of w d) (set_type d TL_UNLOCK w);
             w \<leftarrow> unlink q d (set_cond d 0 w);
             abort_thread_loop q tid ds True w }
      else abort_thread_loop q tid ds found w)"

definition thr_abort_locks_for_thread :: "nat \<Rightarrow> lock_world \<Rightarrow> (bool \<times> lock_world) option" where
  "thr_abort_locks_for_thread tid w =
     do { (found, w) \<leftarrow> abort_thread_loop Read_Wait tid (chain_of Read_Wait w) False w;
          (found, w) \<leftarrow> abort_thread_loop Write_Wait tid (chain_of Write_Wait w) found w;
          w \<leftarrow> wake_up_waiters w;
          Some (found, w) }"

section \<open>Changing the type of a held lock\<close>

definition thr_downgrade_write_lock :: "ptr \<Rightarrow> thr_lock_type \<Rightarrow> lock_world \<Rightarrow> lock_world option" where
  "thr_downgrade_write_lock d new_lock_type w =
     do { dbug_assert (type_of w d = TL_WRITE_ONLY);
          dbug_assert (type_of w d > new_lock_type);
          Some (set_type d new_lock_type w) }"

text \<open>The result \<^term>\<open>Done THR_LOCK_ABORTED\<close> stands for the return value 1.\<close>

definition thr_upgrade_write_delay_lock ::
  "ptr \<Rightarrow> thr_lock_type \<Rightarrow> ptr \<Rightarrow> lock_world \<Rightarrow> (lock_outcome \<times> lock_world) option" where
  "thr_upgrade_write_delay_lock d new_lock_type self w =
     (if type_of w d = TL_UNLOCK \<or> type_of w d \<ge> TL_WRITE_LOW_PRIORITY
      then Some (Done (if type_of w d = TL_UNLOCK then THR_LOCK_ABORTED else THR_LOCK_SUCCESS), w)
      else
        let w = set_type d new_lock_type w in
        map_option (begin_wait d True self)
          (if cond_of w d = 0 then
             if chain_of Read w = [] then Some (Done THR_LOCK_SUCCESS, call_get_status d False w)
             else do { w \<leftarrow> unlink Write d w; Some (Wait Write_Wait, link_first Write_Wait d w) }
           else Some (Wait Write_Wait, w)))"

text \<open>\<open>thr_reschedule_write_lock\<close> up to the point where it gives up the mutex: the lock type it goes on
  to request with \<open>thr_upgrade_write_delay_lock\<close>, or \<^term>\<open>None\<close> if it returns 0 at once.\<close>

definition thr_reschedule_write_lock :: "ptr \<Rightarrow> ptr \<Rightarrow> lock_world \<Rightarrow> (thr_lock_type option \<times> lock_world) option" where
  "thr_reschedule_write_lock d self w =
     (if chain_of Read_Wait w = [] then Some (None, w)
      else
        let write_lock_type = type_of w d;
            w = set_type d TL_WRITE_DELAYED w;
            w = (if update_status (lock w) then add_event (Update_status (d_status_param (datas w d))) w else w)
        in
        do { w \<leftarrow> unlink Write d w;
             w \<leftarrow> free_all_read_locks False (link_first Write_Wait d (set_cond d self w));
             Some (Some write_lock_type, w) })"

section \<open>The order of a set of requests\<close>

text \<open>A request is an instance with the lock it is for and the type it asks for.\<close>

record lock_request =
  r_lock :: ptr
  r_type :: thr_lock_type
  r_data :: ptr

definition LOCK_CMP :: "lock_request \<Rightarrow> lock_request \<Rightarrow> bool" where
  "LOCK_CMP a b \<longleftrightarrow>
     int (r_lock a) - tl_value (r_type a) mod 2 ^ 32 < int (r_lock b) - tl_value (r_type b) mod 2 ^ 32"

text \<open>The inner loop of \<open>sort_locks\<close>: \<open>prev\<close> is the index it has reached.\<close>

fun sort_shift :: "lock_request \<Rightarrow> nat \<Rightarrow> lock_request list \<Rightarrow> lock_request list option" where
  "sort_shift tmp 0 data = None"
| "sort_shift tmp (Suc prev) data =
     do { x \<leftarrow> aget data prev;
          data \<leftarrow> aset data (Suc prev) x;
          more \<leftarrow> (if prev \<noteq> 0 then do { y \<leftarrow> aget data (prev - 1); Some (LOCK_CMP tmp y) } else Some False);
          if more then sort_shift tmp prev data else aset data prev tmp }"

text \<open>The outer loop, with the number of positions that are left.\<close>

fun sort_pos :: "nat \<Rightarrow> nat \<Rightarrow> lock_request list \<Rightarrow> lock_request list option" where
  "sort_pos pos 0 data = Some data"
| "sort_pos pos (Suc left) data =
     do { tmp \<leftarrow> aget data pos;
          before \<leftarrow> aget data (pos - 1);
          data \<leftarrow> (if LOCK_CMP tmp before then sort_shift tmp pos data else Some data);
          sort_pos (pos + 1) left data }"

definition sort_locks :: "lock_request list \<Rightarrow> lock_request list option" where
  "sort_locks data = sort_pos 1 (length data - 1) data"

section \<open>The consistency check of the debug build\<close>

definition MAX_LOCKS :: nat where
  "MAX_LOCKS = 100"

text \<open>The walk of \<open>check_lock\<close> over a chain. The tests of the back links hold by the choice of the model;
  the result is true for a reported warning.\<close>

fun check_lock_walk ::
  "(ptr \<Rightarrow> THR_LOCK_DATA) \<Rightarrow> bool \<Rightarrow> ptr \<Rightarrow> bool \<Rightarrow> thr_lock_type \<Rightarrow> nat \<Rightarrow> ptr list \<Rightarrow> bool" where
  "check_lock_walk dm same_owner first_owner no_cond last_lock_type cnt [] = False"
| "check_lock_walk dm same_owner first_owner no_cond last_lock_type cnt (d # ds) =
     (if cnt < MAX_LOCKS then
        let last_lock_type = (if d_type (dm d) \<noteq> last_lock_type then TL_IGNORE else last_lock_type) in
        if same_owner \<and> \<not> thr_lock_owner_equal (d_owner (dm d)) first_owner \<and> last_lock_type \<noteq> TL_WRITE_ALLOW_WRITE
        then True
        else if no_cond \<and> d_cond (dm d) \<noteq> 0 then True
        else check_lock_walk dm same_owner first_owner no_cond last_lock_type (cnt + 1) ds
      else True)"

definition check_lock :: "(ptr \<Rightarrow> THR_LOCK_DATA) \<Rightarrow> ptr list \<Rightarrow> bool \<Rightarrow> bool \<Rightarrow> bool" where
  "check_lock dm ds same_owner no_cond =
     (case ds of [] \<Rightarrow> False
      | d # _ \<Rightarrow> check_lock_walk dm same_owner (d_owner (dm d)) no_cond (d_type (dm d)) 0 ds)"

text \<open>The tests of \<open>check_locks\<close> on a lock without and with a running write lock: the number of warnings,
  when no error has been found before.\<close>

definition check_no_writer :: "bool \<Rightarrow> lock_world \<Rightarrow> nat" where
  "check_no_writer allow_no_locks w =
     (if \<not> allow_no_locks \<and> chain_of Read w = [] \<and> (chain_of Write_Wait w \<noteq> [] \<or> chain_of Read_Wait w \<noteq> [])
      then 1 else 0) +
     (case chain_of Write_Wait w of
        [] \<Rightarrow> if \<not> allow_no_locks \<and> chain_of Read_Wait w \<noteq> [] then 1 else 0
      | ww # _ \<Rightarrow>
          if \<not> allow_no_locks \<and>
             (shares_with_insert (type_of w ww) \<and> read_no_write_count (lock w) = 0 \<or>
              type_of w ww = TL_WRITE_DELAYED \<and> chain_of Read w = [])
          then 1 else 0)"

definition check_writer :: "bool \<Rightarrow> ptr \<Rightarrow> lock_world \<Rightarrow> nat" where
  "check_writer allow_no_locks wr w =
     (case chain_of Write_Wait w of
        [] \<Rightarrow> 0
      | ww # _ \<Rightarrow> if \<not> allow_no_locks \<and> type_of w wr = TL_WRITE_ALLOW_WRITE \<and> type_of w ww = TL_WRITE_ALLOW_WRITE
          then 1 else 0) +
     (case chain_of Read w of
        [] \<Rightarrow> 0
      | r # _ \<Rightarrow>
          if \<not> thr_lock_owner_equal (owner_of w wr) (owner_of w r) \<and>
             (type_of w wr > TL_WRITE_DELAYED \<and> type_of w wr \<noteq> TL_WRITE_ONLY \<or>
              shares_with_insert (type_of w wr) \<and> read_no_write_count (lock w) \<noteq> 0)
          then 1 else 0) +
     (case chain_of Read_Wait w of
        [] \<Rightarrow> 0
      | r # _ \<Rightarrow> if \<not> allow_no_locks \<and> type_of w wr \<le> TL_WRITE_DELAYED \<and> type_of w r \<le> TL_READ_HIGH_PRIORITY
          then 1 else 0)"

definition check_locks :: "bool \<Rightarrow> lock_world \<Rightarrow> nat option" where
  "check_locks allow_no_locks w =
     (let cnt = length (filter (\<lambda>d. type_of w d = TL_READ_NO_INSERT) (chain_of Read w));
          lists = check_lock (datas w) (chain_of Write w) True True \<or>
            check_lock (datas w) (chain_of Write_Wait w) False False \<or>
            check_lock (datas w) (chain_of Read w) False True \<or>
            check_lock (datas w) (chain_of Read_Wait w) False False
      in
      do { dbug_assert (cnt \<le> read_no_write_count (lock w));
           Some ((if lists then 1 else 0) + (if cnt \<noteq> read_no_write_count (lock w) then 1 else 0) +
             (case chain_of Write w of [] \<Rightarrow> check_no_writer allow_no_locks w | wr # _ \<Rightarrow> check_writer allow_no_locks wr w)) })"

end
