(* ===== verification/Lock_Invariant.thy ===== *)
theory Lock_Invariant
  imports Thr_Lock
begin

text \<open>
  The invariant of a table lock: the running locks go together, the waiters are marked by their
  conditions, the counter of \<open>TL_READ_NO_INSERT\<close> locks is right and no request waits without a reason
  (\<open>not_stranded\<close>). The theory shows what the wake-up functions and the parts of \<open>wait_for_lock\<close> do to it.
\<close>

section \<open>The invariant\<close>

lemmas thr_lock_type_order = less_eq_thr_lock_type_def less_thr_lock_type_def

definition is_read :: "thr_lock_type \<Rightarrow> bool" where
  "is_read ty \<longleftrightarrow> TL_READ \<le> ty \<and> ty \<le> TL_READ_NO_INSERT"

definition is_write :: "thr_lock_type \<Rightarrow> bool" where
  "is_write ty \<longleftrightarrow> TL_WRITE_ALLOW_WRITE \<le> ty \<and> ty \<noteq> TL_WRITE_DEFAULT"

text \<open>A write lock and a read lock of different owners that may be held at the same time.\<close>

definition compatible :: "thr_lock_type \<Rightarrow> thr_lock_type \<Rightarrow> bool" where
  "compatible wt rt \<longleftrightarrow> wt \<le> TL_WRITE_DELAYED \<and> (rt = TL_READ_NO_INSERT \<longrightarrow> wt \<noteq> TL_WRITE_CONCURRENT_INSERT)"

definition at_least :: "thr_lock_type \<Rightarrow> thr_lock_type \<Rightarrow> bool" where
  "at_least a b \<longleftrightarrow> b \<le> a \<or> (TL_WRITE_LOW_PRIORITY \<le> a \<and> TL_WRITE_LOW_PRIORITY \<le> b)"

definition running_ok :: "(ptr \<Rightarrow> THR_LOCK_DATA) \<Rightarrow> ptr list \<Rightarrow> ptr list \<Rightarrow> bool" where
  "running_ok dm rs ws \<longleftrightarrow>
     (\<forall>r\<in>set rs. \<forall>v\<in>set ws. d_owner (dm r) = d_owner (dm v) \<or> compatible (d_type (dm v)) (d_type (dm r))) \<and>
     (\<forall>u\<in>set ws. \<forall>v\<in>set ws. d_owner (dm u) = d_owner (dm v) \<or>
        d_type (dm u) = TL_WRITE_ALLOW_WRITE \<and> d_type (dm v) = TL_WRITE_ALLOW_WRITE) \<and>
     sorted_wrt (\<lambda>u v. at_least (d_type (dm u)) (d_type (dm v))) ws \<and>
     (\<forall>v\<in>set ws. d_type (dm v) = TL_WRITE_DELAYED \<longrightarrow> ws = [v])"

definition no_insert_count :: "(ptr \<Rightarrow> THR_LOCK_DATA) \<Rightarrow> ptr list \<Rightarrow> nat" where
  "no_insert_count dm rs = length (filter (\<lambda>r. d_type (dm r) = TL_READ_NO_INSERT) rs)"

definition chains_ok :: "(ptr \<Rightarrow> THR_LOCK_DATA) \<Rightarrow> (lock_list \<Rightarrow> ptr list) \<Rightarrow> bool" where
  "chains_ok dm ch \<longleftrightarrow>
     distinct (ch Read_Wait @ ch Read @ ch Write_Wait @ ch Write) \<and>
     (\<forall>d\<in>set (ch Read) \<union> set (ch Read_Wait). is_read (d_type (dm d))) \<and>
     (\<forall>d\<in>set (ch Write) \<union> set (ch Write_Wait). is_write (d_type (dm d))) \<and>
     (\<forall>d\<in>set (ch Read) \<union> set (ch Write). d_cond (dm d) = 0) \<and>
     (\<forall>d\<in>set (ch Read_Wait) \<union> set (ch Write_Wait). d_cond (dm d) \<noteq> 0) \<and>
     length (ch Read) + length (ch Read_Wait) < 2 ^ 32"

definition lock_ok :: "(ptr \<Rightarrow> THR_LOCK_DATA) \<Rightarrow> (lock_list \<Rightarrow> ptr list) \<Rightarrow> nat \<Rightarrow> bool" where
  "lock_ok dm ch n \<longleftrightarrow> chains_ok dm ch \<and> running_ok dm (ch Read) (ch Write) \<and> n = no_insert_count dm (ch Read)"

definition world_ok :: "lock_world \<Rightarrow> bool" where
  "world_ok w \<longleftrightarrow>
     lock_ok (datas w) (chain (lock w)) (read_no_write_count (lock w)) \<and>
     (check_status (lock w) = None \<longrightarrow> (\<forall>d\<in>set (chain_of Write_Wait w). type_of w d \<noteq> TL_WRITE_CONCURRENT_INSERT)) \<and>
     thr_upgraded_concurrent_insert_lock w \<in> {TL_WRITE_LOW_PRIORITY, TL_WRITE}"

lemma running_ok_nil_write [simp]: "running_ok dm rs []"
  by (simp add: running_ok_def)

lemma running_ok_mono:
  assumes "running_ok dm rs ws" "set rs' \<subseteq> set rs"
  shows "running_ok dm rs' ws"
  using assms unfolding running_ok_def by blast

lemma sorted_wrt_same:
  "(\<And>x y. x \<in> set xs \<Longrightarrow> y \<in> set xs \<Longrightarrow> P x y = Q x y) \<Longrightarrow> sorted_wrt P xs = sorted_wrt Q xs"
  by (induction xs) auto

lemma running_ok_cong:
  assumes "\<And>d. d \<in> set rs \<union> set ws \<Longrightarrow> d_owner (dm' d) = d_owner (dm d) \<and> d_type (dm' d) = d_type (dm d)"
  shows "running_ok dm' rs ws = running_ok dm rs ws"
proof -
  have "sorted_wrt (\<lambda>u v. at_least (d_type (dm' u)) (d_type (dm' v))) ws =
      sorted_wrt (\<lambda>u v. at_least (d_type (dm u)) (d_type (dm v))) ws"
    using assms by (intro sorted_wrt_same) simp
  then show ?thesis using assms unfolding running_ok_def by auto
qed

lemma running_ok_remove_write:
  assumes "running_ok dm rs ws"
  shows "running_ok dm rs (remove1 d ws)"
proof -
  have s: "set (remove1 d ws) \<subseteq> set ws" by (rule set_remove1_subset)
  have "sorted_wrt P (remove1 d ws)" if "sorted_wrt P ws" for P :: "ptr \<Rightarrow> ptr \<Rightarrow> bool"
    using that by (induction ws) (auto dest: set_remove1_subset [THEN subsetD])
  moreover have "\<forall>v\<in>set (remove1 d ws). d_type (dm v) = TL_WRITE_DELAYED \<longrightarrow> remove1 d ws = [v]"
  proof (intro ballI impI)
    fix v assume v: "v \<in> set (remove1 d ws)" "d_type (dm v) = TL_WRITE_DELAYED"
    then have "ws = [v]" using assms s unfolding running_ok_def by blast
    with v(1) show "remove1 d ws = [v]" by (auto split: if_splits)
  qed
  ultimately show ?thesis using assms s unfolding running_ok_def by blast
qed

lemma running_ok_add_reads:
  "running_ok dm (rs @ rs') ws \<longleftrightarrow> running_ok dm rs ws \<and>
     (\<forall>r\<in>set rs'. \<forall>v\<in>set ws. d_owner (dm r) = d_owner (dm v) \<or> compatible (d_type (dm v)) (d_type (dm r)))"
  unfolding running_ok_def by auto

lemma running_ok_add_write:
  assumes "running_ok dm rs ws"
    and "\<And>r. r \<in> set rs \<Longrightarrow> d_owner (dm r) = d_owner (dm v) \<or> compatible (d_type (dm v)) (d_type (dm r))"
    and "\<And>u. u \<in> set ws \<Longrightarrow> d_owner (dm u) = d_owner (dm v) \<or>
      d_type (dm u) = TL_WRITE_ALLOW_WRITE \<and> d_type (dm v) = TL_WRITE_ALLOW_WRITE"
    and "\<And>u. u \<in> set ws \<Longrightarrow> at_least (d_type (dm u)) (d_type (dm v))"
    and "ws \<noteq> [] \<Longrightarrow> d_type (dm v) \<noteq> TL_WRITE_DELAYED \<and> (\<forall>u\<in>set ws. d_type (dm u) \<noteq> TL_WRITE_DELAYED)"
  shows "running_ok dm rs (ws @ [v])"
proof -
  have "sorted_wrt (\<lambda>u v. at_least (d_type (dm u)) (d_type (dm v))) (ws @ [v])"
    using assms(1,4) by (simp add: running_ok_def sorted_wrt_append)
  moreover have "\<forall>u\<in>set (ws @ [v]). d_type (dm u) = TL_WRITE_DELAYED \<longrightarrow> ws @ [v] = [u]"
    using assms(5) by (cases "ws = []") auto
  ultimately show ?thesis using assms(1-3) unfolding running_ok_def by (simp add: ball_Un) metis
qed

lemma compatible_simps [simp]:
  "compatible TL_WRITE_ALLOW_WRITE rt" "compatible TL_WRITE_DELAYED rt"
  "compatible TL_WRITE_CONCURRENT_INSERT rt \<longleftrightarrow> rt \<noteq> TL_READ_NO_INSERT"
  by (auto simp: compatible_def thr_lock_type_order)

definition in_chains :: "(lock_list \<Rightarrow> ptr list) \<Rightarrow> ptr \<Rightarrow> bool" where
  "in_chains ch d \<longleftrightarrow> (\<exists>q. d \<in> set (ch q))"

lemma in_chains_iff:
  "in_chains ch d \<longleftrightarrow> d \<in> set (ch Read_Wait) \<or> d \<in> set (ch Read) \<or> d \<in> set (ch Write_Wait) \<or> d \<in> set (ch Write)"
  unfolding in_chains_def by (metis lock_list.exhaust)

lemma no_insert_count_append [simp]:
  "no_insert_count dm (rs @ rs') = no_insert_count dm rs + no_insert_count dm rs'"
  by (simp add: no_insert_count_def)

lemma no_insert_count_cong:
  "(\<And>d. d \<in> set rs \<Longrightarrow> d_type (dm' d) = d_type (dm d)) \<Longrightarrow> no_insert_count dm' rs = no_insert_count dm rs"
  unfolding no_insert_count_def by (metis (mono_tags, lifting) filter_cong)

lemma no_insert_count_zero:
  "no_insert_count dm rs = 0 \<longleftrightarrow> (\<forall>r\<in>set rs. d_type (dm r) \<noteq> TL_READ_NO_INSERT)"
  by (simp add: no_insert_count_def filter_empty_conv)

lemma no_insert_count_le: "no_insert_count dm rs \<le> length rs"
  by (simp add: no_insert_count_def)

lemma no_insert_count_remove1:
  "d \<in> set rs \<Longrightarrow> no_insert_count dm (remove1 d rs) =
     (if d_type (dm d) = TL_READ_NO_INSERT then no_insert_count dm rs - 1 else no_insert_count dm rs)"
  by (simp add: no_insert_count_def filter_remove1 length_remove1 remove1_idem)

lemma lock_ok_fresh:
  assumes "\<not> in_chains ch d"
  shows "lock_ok (dm(d := x)) ch n = lock_ok dm ch n"
proof -
  have "chains_ok (dm(d := x)) ch = chains_ok dm ch"
    using assms unfolding chains_ok_def in_chains_iff by auto
  moreover have "running_ok (dm(d := x)) (ch Read) (ch Write) = running_ok dm (ch Read) (ch Write)"
    using assms unfolding in_chains_iff by (intro running_ok_cong) auto
  moreover have "no_insert_count (dm(d := x)) (ch Read) = no_insert_count dm (ch Read)"
    using assms unfolding in_chains_iff by (intro no_insert_count_cong) auto
  ultimately show ?thesis by (simp add: lock_ok_def)
qed

lemma lock_ok_grant_reads:
  assumes ok: "lock_ok dm ch n"
    and go: "go = filter P (ch Read_Wait)" "back = filter (\<lambda>d. \<not> P d) (ch Read_Wait)"
    and compat: "\<And>r v. r \<in> set go \<Longrightarrow> v \<in> set (ch Write) \<Longrightarrow> compatible (d_type (dm v)) (d_type (dm r))"
  shows "lock_ok (\<lambda>d. if d \<in> set go then (dm d)\<lparr>d_cond := 0\<rparr> else dm d)
    (ch(Read := ch Read @ go, Read_Wait := back)) (n + no_insert_count dm go)"
    (is "lock_ok ?dm ?ch _")
proof -
  have len: "length go + length back = length (ch Read_Wait)" unfolding go by (rule sum_length_filter_compl)
  have c: "chains_ok dm ch" and r: "running_ok dm (ch Read) (ch Write)" and n: "n = no_insert_count dm (ch Read)"
    using ok by (auto simp: lock_ok_def)
  have "chains_ok ?dm ?ch" using c len unfolding chains_ok_def go by auto
  moreover have "running_ok ?dm (?ch Read) (?ch Write)"
  proof -
    have "running_ok dm (ch Read @ go) (ch Write)"
      unfolding running_ok_add_reads using r compat by blast
    then show ?thesis by (subst running_ok_cong [where dm = dm]) auto
  qed
  moreover have "no_insert_count ?dm (?ch Read) = n + no_insert_count dm go"
    unfolding n by (simp add: no_insert_count_cong [where dm' = ?dm and dm = dm])
  ultimately show ?thesis by (simp add: lock_ok_def)
qed

lemma lock_ok_grant_write:
  assumes ok: "lock_ok dm ch n" and wait: "ch Write_Wait = d # rest" and ty: "is_write ty"
    and reads: "\<forall>r\<in>set (ch Read). compatible ty (d_type (dm r))"
    and writes: "\<forall>u\<in>set (ch Write). d_type (dm u) = TL_WRITE_ALLOW_WRITE \<and> ty = TL_WRITE_ALLOW_WRITE"
  shows "lock_ok (dm(d := (dm d)\<lparr>d_type := ty, d_cond := 0\<rparr>)) (ch(Write_Wait := rest, Write := ch Write @ [d])) n"
    (is "lock_ok ?dm ?ch _")
proof -
  have c: "chains_ok dm ch" and r: "running_ok dm (ch Read) (ch Write)" and n: "n = no_insert_count dm (ch Read)"
    using ok by (auto simp: lock_ok_def)
  have notin: "d \<notin> set (ch Read)" "d \<notin> set (ch Write)" "d \<notin> set (ch Read_Wait)" "d \<notin> set rest"
    using c wait by (auto simp: chains_ok_def)
  have "chains_ok ?dm ?ch" using c ty wait notin unfolding chains_ok_def by auto
  moreover have "running_ok ?dm (ch Read) (ch Write @ [d])"
  proof (rule running_ok_add_write)
    show "running_ok ?dm (ch Read) (ch Write)"
      using r notin by (subst running_ok_cong [where dm = dm]) auto
  qed (use reads writes notin in \<open>auto simp: at_least_def neq_Nil_conv\<close>)
  moreover have "no_insert_count ?dm (ch Read) = n"
    unfolding n using notin by (intro no_insert_count_cong) auto
  ultimately show ?thesis by (simp add: lock_ok_def)
qed

lemma lock_ok_unlink:
  assumes ok: "lock_ok dm ch n" and d: "d \<in> set (ch q)"
  shows "lock_ok (dm(d := x)) (ch(q := remove1 d (ch q)))
    (if q = Read \<and> d_type (dm d) = TL_READ_NO_INSERT then n - 1 else n)"
    "\<not> in_chains (ch(q := remove1 d (ch q))) d"
proof -
  let ?ch = "ch(q := remove1 d (ch q))"
  have c: "chains_ok dm ch" and r: "running_ok dm (ch Read) (ch Write)" and n: "n = no_insert_count dm (ch Read)"
    using ok by (auto simp: lock_ok_def)
  show out: "\<not> in_chains ?ch d"
    using c d unfolding in_chains_iff chains_ok_def by (cases q) (auto simp: disjoint_iff)
  have "chains_ok dm ?ch"
    using c d unfolding chains_ok_def
    by (cases q) (auto simp: length_remove1 ball_Un)
  moreover have "running_ok dm (?ch Read) (?ch Write)"
    using r running_ok_remove_write [OF r] running_ok_mono [OF r set_remove1_subset] by (cases q) auto
  moreover have "no_insert_count dm (?ch Read) =
      (if q = Read \<and> d_type (dm d) = TL_READ_NO_INSERT then n - 1 else n)"
    using no_insert_count_remove1 [of d "ch Read" dm] d n by (cases q) auto
  ultimately have "lock_ok dm ?ch (if q = Read \<and> d_type (dm d) = TL_READ_NO_INSERT then n - 1 else n)"
    by (simp add: lock_ok_def)
  then show "lock_ok (dm(d := x)) ?ch (if q = Read \<and> d_type (dm d) = TL_READ_NO_INSERT then n - 1 else n)"
    unfolding lock_ok_fresh [OF out] .
qed

lemma lock_ok_link_wait:
  assumes ok: "lock_ok dm ch n" and out: "\<not> in_chains ch d" and c: "d_cond x \<noteq> 0"
    and q: "q = Read_Wait \<and> is_read (d_type x) \<and> length (ch Read) + length (ch Read_Wait) + 1 < 2 ^ 32 \<or>
      q = Write_Wait \<and> is_write (d_type x)"
    and ds: "ds = ch q @ [d] \<or> ds = d # ch q"
  shows "lock_ok (dm(d := x)) (ch(q := ds)) n"
proof -
  have "lock_ok (dm(d := x)) ch n" using ok lock_ok_fresh [OF out] by blast
  moreover have "chains_ok (dm(d := x)) (ch(q := ds))"
    using ok out c q ds unfolding lock_ok_def chains_ok_def in_chains_iff by auto
  ultimately show ?thesis using q unfolding lock_ok_def by auto
qed

lemma lock_ok_retype_wait:
  assumes ok: "lock_ok dm ch n" and d: "d \<in> set (ch Write_Wait)" and ty: "is_write ty"
  shows "lock_ok (dm(d := (dm d)\<lparr>d_type := ty\<rparr>)) ch n"
proof -
  let ?dm = "dm(d := (dm d)\<lparr>d_type := ty\<rparr>)"
  have notin: "d \<notin> set (ch Read)" "d \<notin> set (ch Write)" "d \<notin> set (ch Read_Wait)"
    using ok d by (auto simp: lock_ok_def chains_ok_def)
  have "running_ok ?dm (ch Read) (ch Write) = running_ok dm (ch Read) (ch Write)"
    using notin by (intro running_ok_cong) auto
  moreover have "no_insert_count ?dm (ch Read) = no_insert_count dm (ch Read)"
    using notin by (intro no_insert_count_cong) auto
  moreover have "chains_ok ?dm ch" using ok ty notin unfolding lock_ok_def chains_ok_def by auto
  ultimately show ?thesis using ok by (simp add: lock_ok_def)
qed

lemmas lock_ops = set_chain_def link_last_def link_first_def set_type_def set_cond_def add_event_def
  call_get_status_def set_read_no_write_count_def set_write_lock_count_def inc_locks_immediate_def
  inc_locks_waited_def count_no_insert_def

text \<open>The parts of the state that no operation changes.\<close>

definition same_env :: "lock_world \<Rightarrow> lock_world \<Rightarrow> bool" where
  "same_env w w' \<longleftrightarrow> thread_id w' = thread_id w \<and> max_write_lock_count w' = max_write_lock_count w \<and>
     thr_upgraded_concurrent_insert_lock w' = thr_upgraded_concurrent_insert_lock w \<and>
     check_status (lock w') = check_status (lock w)"

definition held_back :: "bool \<Rightarrow> lock_world \<Rightarrow> ptr \<Rightarrow> bool" where
  "held_back ci w d \<longleftrightarrow> type_of w d = TL_READ_NO_INSERT \<and> ci"

text \<open>Of the readers \<open>ds\<close> behind the readers \<open>rs\<close>, the ones that are not held back are running.\<close>

definition reads_freed :: "bool \<Rightarrow> ptr list \<Rightarrow> ptr list \<Rightarrow> lock_world \<Rightarrow> lock_world \<Rightarrow> bool" where
  "reads_freed ci rs ds w w' \<longleftrightarrow>
     (let go = filter (\<lambda>d. \<not> held_back ci w d) ds in
      same_env w w' \<and> write_lock_count (lock w') = write_lock_count (lock w) \<and>
      chain (lock w') = (chain (lock w))(Read := rs @ go, Read_Wait := chain_of Read_Wait w @ filter (held_back ci w) ds) \<and>
      datas w' = (\<lambda>d. if d \<in> set go then (datas w d)\<lparr>d_cond := 0\<rparr> else datas w d) \<and>
      read_no_write_count (lock w') = read_no_write_count (lock w) + no_insert_count (datas w) go)"

lemma free_read_loop_spec:
  assumes "chain_of Read w = rs @ ds" "distinct (rs @ ds)"
    and "\<forall>d\<in>set ds. cond_of w d \<noteq> 0"
    and "read_no_write_count (lock w) + length ds < 2 ^ 32"
  shows "\<exists>w'. free_read_loop ds ci w = Some w' \<and> reads_freed ci rs ds w w'"
  using assms
proof (induction ds arbitrary: w rs)
  case Nil
  then show ?case by (simp add: reads_freed_def same_env_def no_insert_count_def fun_upd_idem)
next
  case (Cons d ds)
  have nd: "d \<notin> set ds" using Cons.prems by simp
  show ?case
  proof (cases "held_back ci w d")
    case True
    let ?w = "set_chain Read_Wait (chain_of Read_Wait w @ [d]) (set_chain Read (rs @ ds) w)"
    have "remove1 d (rs @ d # ds) = rs @ ds" using Cons.prems(2) by (simp add: remove1_append)
    then have "free_read_loop (d # ds) ci w = free_read_loop ds ci ?w"
      using True Cons.prems(1) by (simp add: held_back_def unlink_def lock_ops)
    moreover have "\<exists>w'. free_read_loop ds ci ?w = Some w' \<and> reads_freed ci rs ds ?w w'"
      using Cons.prems by (intro Cons.IH) (auto simp: lock_ops)
    moreover have "held_back ci ?w = held_back ci w" by (simp add: fun_eq_iff held_back_def lock_ops)
    ultimately show ?thesis using True
      by (auto simp: reads_freed_def Let_def lock_ops same_env_def fun_upd_twist cong: if_cong)
  next
    case False
    let ?n = "read_no_write_count (lock w) + (if type_of w d = TL_READ_NO_INSERT then 1 else 0)"
    let ?w = "add_event (Cond_signal (cond_of w d)) (set_cond d 0 (set_read_no_write_count ?n w))"
    have "free_read_loop (d # ds) ci w = free_read_loop ds ci ?w"
      using False Cons.prems(3,4) by (simp add: lock_ops held_back_def cond_signal_def uint_wrap_def Let_def)
    moreover have "\<exists>w'. free_read_loop ds ci ?w = Some w' \<and> reads_freed ci (rs @ [d]) ds ?w w'"
      using Cons.prems by (intro Cons.IH) (auto simp: lock_ops)
    moreover have "reads_freed ci rs (d # ds) w w'" if "reads_freed ci (rs @ [d]) ds ?w w'" for w'
    proof -
      have h: "held_back ci ?w = held_back ci w" by (simp add: fun_eq_iff held_back_def lock_ops)
      have n: "no_insert_count (datas ?w) xs = no_insert_count (datas w) xs" for xs
        by (rule no_insert_count_cong) (simp add: lock_ops)
      have n': "no_insert_count (datas w) (d # xs) =
          (if type_of w d = TL_READ_NO_INSERT then 1 else 0) + no_insert_count (datas w) xs" for xs
        by (simp add: no_insert_count_def)
      show ?thesis using that False nd unfolding reads_freed_def Let_def h n
        by (auto simp: n' same_env_def fun_eq_iff lock_ops cong: if_cong)
    qed
    ultimately show ?thesis by auto
  qed
qed

lemma all_lock_list: "(\<forall>q. P q) \<longleftrightarrow> P Read_Wait \<and> P Read \<and> P Write_Wait \<and> P Write"
  by (metis lock_list.exhaust)

fun running :: "lock_list \<Rightarrow> lock_list" where
  "running Read_Wait = Read"
| "running Read = Read"
| "running Write_Wait = Write"
| "running Write = Write"

text \<open>Instances only move from a wait chain to its running chain, and then their condition is
  cleared; instances outside the chains are not touched.\<close>

definition advanced :: "lock_world \<Rightarrow> lock_world \<Rightarrow> bool" where
  "advanced w w' \<longleftrightarrow> same_env w w' \<and> (\<forall>d. owner_of w' d = owner_of w d) \<and>
     (\<forall>q. \<forall>d\<in>set (chain_of q w). d \<in> set (chain_of q w') \<and> cond_of w' d = cond_of w d \<or>
        d \<in> set (chain_of (running q) w') \<and> cond_of w' d = 0) \<and>
     (\<forall>d. in_chains (chain (lock w')) d = in_chains (chain (lock w)) d) \<and>
     (\<forall>d. \<not> in_chains (chain (lock w)) d \<longrightarrow> datas w' d = datas w d)"

lemma running_running [simp]: "running (running q) = running q"
  by (cases q) simp_all

lemma advanced_refl: "advanced w w"
  by (simp add: advanced_def same_env_def)

lemma advancedD:
  assumes "advanced w w'" "d \<in> set (chain_of q w)"
  shows "d \<in> set (chain_of q w') \<and> cond_of w' d = cond_of w d \<or>
    d \<in> set (chain_of (running q) w') \<and> cond_of w' d = 0"
  using assms unfolding advanced_def by simp

lemma advanced_trans:
  assumes "advanced w w'" "advanced w' w''"
  shows "advanced w w''"
  unfolding advanced_def
proof (intro conjI allI ballI)
  fix q d assume d: "d \<in> set (chain_of q w)"
  show "d \<in> set (chain_of q w'') \<and> cond_of w'' d = cond_of w d \<or>
      d \<in> set (chain_of (running q) w'') \<and> cond_of w'' d = 0"
    using advancedD [OF assms(1) d]
  proof
    assume "d \<in> set (chain_of q w') \<and> cond_of w' d = cond_of w d"
    then show ?thesis using advancedD [OF assms(2), of d q] by auto
  next
    assume "d \<in> set (chain_of (running q) w') \<and> cond_of w' d = 0"
    then show ?thesis using advancedD [OF assms(2), of d "running q"] by auto
  qed
qed (use assms in \<open>auto simp: advanced_def same_env_def\<close>)

lemma world_ok_chains:
  assumes "world_ok w"
  shows "distinct (chain_of Read_Wait w @ chain_of Read w @ chain_of Write_Wait w @ chain_of Write w)"
    "\<And>d. d \<in> set (chain_of Read w) \<Longrightarrow> is_read (type_of w d) \<and> cond_of w d = 0"
    "\<And>d. d \<in> set (chain_of Read_Wait w) \<Longrightarrow> is_read (type_of w d) \<and> cond_of w d \<noteq> 0"
    "\<And>d. d \<in> set (chain_of Write w) \<Longrightarrow> is_write (type_of w d) \<and> cond_of w d = 0"
    "\<And>d. d \<in> set (chain_of Write_Wait w) \<Longrightarrow> is_write (type_of w d) \<and> cond_of w d \<noteq> 0"
    "length (chain_of Read w) + length (chain_of Read_Wait w) < 2 ^ 32"
    "running_ok (datas w) (chain_of Read w) (chain_of Write w)"
    "read_no_write_count (lock w) = no_insert_count (datas w) (chain_of Read w)"
  using assms unfolding world_ok_def lock_ok_def chains_ok_def by blast+

lemma release_waiting_reads_ok:
  assumes ok: "world_ok w"
    and compat: "\<forall>r\<in>set (chain_of Read_Wait w). held_back ci w r \<or> (\<forall>v\<in>set (chain_of Write w). compatible (type_of w v) (type_of w r))"
  shows "\<exists>w'. release_waiting_reads ci w = Some w' \<and> world_ok w' \<and> advanced w w' \<and>
    (\<forall>d. type_of w' d = type_of w d) \<and>
    chain (lock w') = (chain (lock w))(Read := chain_of Read w @ filter (\<lambda>d. \<not> held_back ci w d) (chain_of Read_Wait w),
      Read_Wait := filter (held_back ci w) (chain_of Read_Wait w))"
proof (cases "chain_of Read_Wait w = []")
  case True
  then show ?thesis using ok by (simp add: release_waiting_reads_def advanced_refl fun_upd_idem)
next
  case False
  note ch = world_ok_chains [OF ok]
  let ?ds = "chain_of Read_Wait w" and ?rs = "chain_of Read w"
  let ?go = "filter (\<lambda>d. \<not> held_back ci w d) ?ds"
  let ?w = "set_chain Read_Wait [] (set_chain Read (?rs @ ?ds) w)"
  have h: "held_back ci ?w = held_back ci w" by (simp add: fun_eq_iff held_back_def lock_ops)
  have "\<exists>w'. free_read_loop ?ds ci ?w = Some w' \<and> reads_freed ci ?rs ?ds ?w w'"
  proof (rule free_read_loop_spec)
    show "distinct (?rs @ ?ds)" using ch(1) by auto
    show "read_no_write_count (lock ?w) + length ?ds < 2 ^ 32"
      using ch(6,8) no_insert_count_le [of "datas w" ?rs] by (simp add: lock_ops)
  qed (use ch(3) in \<open>auto simp: lock_ops\<close>)
  then obtain w1 where w1: "free_read_loop ?ds ci ?w = Some w1" "reads_freed ci ?rs ?ds ?w w1" by blast
  let ?w' = "if chain_of Read_Wait w1 = [] then set_write_lock_count 0 w1 else w1"
  have f: "same_env w ?w'" "chain (lock ?w') = (chain (lock w))(Read := ?rs @ ?go, Read_Wait := filter (held_back ci w) ?ds)"
    "datas ?w' = (\<lambda>d. if d \<in> set ?go then (datas w d)\<lparr>d_cond := 0\<rparr> else datas w d)"
    "read_no_write_count (lock ?w') = read_no_write_count (lock w) + no_insert_count (datas w) ?go"
    using w1(2) unfolding reads_freed_def Let_def h
    by (auto simp: lock_ops same_env_def fun_eq_iff cong: if_cong)
  have "lock_ok (datas ?w') (chain (lock ?w')) (read_no_write_count (lock ?w'))"
    unfolding f(2-4)
    using ok compat by (intro lock_ok_grant_reads [where P = "\<lambda>d. \<not> held_back ci w d"]) (auto simp: world_ok_def)
  moreover have t: "\<forall>d. type_of ?w' d = type_of w d" unfolding f(3) by simp
  ultimately have "world_ok ?w'"
    using ok f(1,2) unfolding world_ok_def same_env_def by auto
  moreover have "advanced w ?w'"
    unfolding advanced_def in_chains_iff using f(1) ch(1) unfolding f(2,3) by (auto simp: all_lock_list)
  moreover have "release_waiting_reads ci w = Some ?w'"
    using False w1(1) by (simp add: release_waiting_reads_def free_all_read_locks_def Let_def)
  ultimately show ?thesis using t f(2) by blast
qed

text \<open>A waiting writer is started with the type \<open>ty\<close>.\<close>

definition grant_write :: "ptr \<Rightarrow> thr_lock_type \<Rightarrow> lock_world \<Rightarrow> lock_world" where
  "grant_write d ty w =
     add_event (Cond_signal (cond_of w d))
       (set_cond d 0
         ((if ty = type_of w d then id else set_type d ty)
           (link_last Write d (set_chain Write_Wait (remove1 d (chain_of Write_Wait w)) w))))"

lemma grant_write_simps:
  assumes "chain_of Write_Wait w = d # rest"
  shows "chain (lock (grant_write d ty w)) = (chain (lock w))(Write_Wait := rest, Write := chain_of Write w @ [d])"
    "datas (grant_write d ty w) = (datas w)(d := (datas w d)\<lparr>d_type := ty, d_cond := 0\<rparr>)"
    "read_no_write_count (lock (grant_write d ty w)) = read_no_write_count (lock w)"
    "same_env w (grant_write d ty w)"
  using assms by (simp_all add: grant_write_def lock_ops same_env_def)

lemma grant_write_ok:
  assumes ok: "world_ok w" and wait: "chain_of Write_Wait w = d # rest" and ty: "is_write ty"
    and reads: "\<forall>r\<in>set (chain_of Read w). compatible ty (type_of w r)"
    and writes: "\<forall>u\<in>set (chain_of Write w). type_of w u = TL_WRITE_ALLOW_WRITE \<and> ty = TL_WRITE_ALLOW_WRITE"
  shows "world_ok (grant_write d ty w)" "advanced w (grant_write d ty w)"
proof -
  note g = grant_write_simps [OF wait]
  note ch = world_ok_chains [OF ok]
  have "lock_ok (datas (grant_write d ty w)) (chain (lock (grant_write d ty w)))
      (read_no_write_count (lock (grant_write d ty w)))"
    unfolding g using ok wait ty reads writes by (intro lock_ok_grant_write) (auto simp: world_ok_def)
  moreover have "d \<notin> set rest" using ch(1) wait by auto
  ultimately show "world_ok (grant_write d ty w)"
    using ok g(4) wait unfolding world_ok_def same_env_def g(1,2) by auto
  show "advanced w (grant_write d ty w)"
    unfolding advanced_def in_chains_iff using ch(1) g(4) wait unfolding g by (auto simp: all_lock_list)
qed

lemma start_writers_step:
  assumes ok: "world_ok w" and wait: "chain_of Write_Wait w = d # rest"
  obtains ty where "ty = type_of w d \<or> type_of w d = TL_WRITE_CONCURRENT_INSERT \<and> ty = TL_WRITE"
    "is_write ty"
    "start_writers d w =
      (case rest of
         [] \<Rightarrow> Some (d, grant_write d ty w)
       | d' # _ \<Rightarrow>
           if ty \<noteq> TL_WRITE_ALLOW_WRITE \<or> type_of w d' \<noteq> TL_WRITE_ALLOW_WRITE
           then Some (d, grant_write d ty w) else start_writers d' (grant_write d ty w))"
proof -
  note ch = world_ok_chains [OF ok]
  let ?b = "type_of w d = TL_WRITE_CONCURRENT_INSERT \<and> the (check_status (lock w)) (d_status_param (datas w d))"
  let ?ty = "if ?b then TL_WRITE else type_of w d"
  have d: "cond_of w d \<noteq> 0" "is_write (type_of w d)" "d \<notin> set rest" using ch(1,5) wait by auto
  have c: "check_status (lock w) \<noteq> None" if "type_of w d = TL_WRITE_CONCURRENT_INSERT"
    using ok that wait unfolding world_ok_def by auto
  have "start_writers d w =
      (case rest of
         [] \<Rightarrow> Some (d, grant_write d ?ty w)
       | d' # _ \<Rightarrow>
           if ?ty \<noteq> TL_WRITE_ALLOW_WRITE \<or> type_of w d' \<noteq> TL_WRITE_ALLOW_WRITE
           then Some (d, grant_write d ?ty w) else start_writers d' (grant_write d ?ty w))"
    using d c wait
    by (subst start_writers.simps)
      (auto simp: unlink_def lock_ops call_check_status_def cond_signal_def grant_write_def Let_def split: list.split)
  moreover have "is_write ?ty" using d(2) by (simp add: is_write_def thr_lock_type_order)
  ultimately show ?thesis using that [of ?ty] by auto
qed

text \<open>Waiting writers of type \<open>ty\<close> have been started and the readers are as before.\<close>

definition writers_started :: "lock_world \<Rightarrow> thr_lock_type \<Rightarrow> lock_world \<Rightarrow> bool" where
  "writers_started w ty w' \<longleftrightarrow> world_ok w' \<and> advanced w w' \<and>
     chain_of Read w' = chain_of Read w \<and> chain_of Read_Wait w' = chain_of Read_Wait w \<and> chain_of Write w' \<noteq> [] \<and>
     (\<forall>v\<in>set (chain_of Write w'). type_of w' v = ty) \<and>
     (\<forall>r\<in>set (chain_of Read w) \<union> set (chain_of Read_Wait w). type_of w' r = type_of w r)"

lemma grant_write_started:
  assumes ok: "world_ok w" and wait: "chain_of Write_Wait w = d # rest" and ty: "is_write ty"
    and reads: "\<forall>r\<in>set (chain_of Read w). compatible ty (type_of w r)"
    and writes: "\<forall>u\<in>set (chain_of Write w). type_of w u = TL_WRITE_ALLOW_WRITE \<and> ty = TL_WRITE_ALLOW_WRITE"
  shows "writers_started w ty (grant_write d ty w)"
proof -
  have "d \<notin> set (chain_of Write w)" "d \<notin> set (chain_of Read_Wait w)" "d \<notin> set (chain_of Read w)"
    using world_ok_chains(1) [OF ok] wait by auto
  then show ?thesis
    using grant_write_ok [OF assms] writes unfolding writers_started_def grant_write_simps(1,2) [OF wait] by auto
qed

lemma writers_started_trans:
  assumes "writers_started w ty w'" "writers_started w' ty' w''"
  shows "writers_started w ty' w''"
proof -
  have "advanced w w''" using assms advanced_trans unfolding writers_started_def by blast
  then show ?thesis using assms unfolding writers_started_def by simp
qed

lemma start_writers_ok:
  assumes "world_ok w" "chain_of Write_Wait w = d # rest" "chain_of Read w = []"
    "\<forall>u\<in>set (chain_of Write w). type_of w u = TL_WRITE_ALLOW_WRITE \<and> type_of w d = TL_WRITE_ALLOW_WRITE"
  shows "\<exists>dl w'. start_writers d w = Some (dl, w') \<and> writers_started w (type_of w' dl) w'"
  using assms
proof (induction rest arbitrary: d w)
  case (Nil d w)
  obtain ty where ty: "ty = type_of w d \<or> type_of w d = TL_WRITE_CONCURRENT_INSERT \<and> ty = TL_WRITE" "is_write ty"
    "start_writers d w = Some (d, grant_write d ty w)"
    using start_writers_step [OF Nil.prems(1,2)] unfolding list.case by blast
  have "\<forall>u\<in>set (chain_of Write w). type_of w u = TL_WRITE_ALLOW_WRITE \<and> ty = TL_WRITE_ALLOW_WRITE"
    using Nil.prems(4) ty(1) by auto
  then have "writers_started w ty (grant_write d ty w)"
    using Nil.prems(3) by (intro grant_write_started [OF Nil.prems(1,2) ty(2)]) auto
  moreover have "type_of (grant_write d ty w) d = ty" by (simp add: grant_write_simps(2) [OF Nil.prems(2)])
  ultimately show ?case using ty(3) by auto
next
  case (Cons d' rest d w)
  obtain ty where ty: "ty = type_of w d \<or> type_of w d = TL_WRITE_CONCURRENT_INSERT \<and> ty = TL_WRITE" "is_write ty"
    "start_writers d w =
      (if ty \<noteq> TL_WRITE_ALLOW_WRITE \<or> type_of w d' \<noteq> TL_WRITE_ALLOW_WRITE
       then Some (d, grant_write d ty w) else start_writers d' (grant_write d ty w))"
    using start_writers_step [OF Cons.prems(1,2)] unfolding list.case by blast
  let ?w = "grant_write d ty w"
  note gs = grant_write_simps [OF Cons.prems(2)]
  have "\<forall>u\<in>set (chain_of Write w). type_of w u = TL_WRITE_ALLOW_WRITE \<and> ty = TL_WRITE_ALLOW_WRITE"
    using Cons.prems(4) ty(1) by auto
  then have st: "writers_started w ty ?w"
    using Cons.prems(3) by (intro grant_write_started [OF Cons.prems(1,2) ty(2)]) auto
  have t: "type_of ?w d = ty" by (simp add: gs)
  show ?case
  proof (cases "ty \<noteq> TL_WRITE_ALLOW_WRITE \<or> type_of w d' \<noteq> TL_WRITE_ALLOW_WRITE")
    case True
    then show ?thesis using ty(3) st t by auto
  next
    case False
    have "d' \<noteq> d" using world_ok_chains(1) [OF Cons.prems(1)] Cons.prems(2) by auto
    then have "type_of ?w d' = TL_WRITE_ALLOW_WRITE" using False by (simp add: gs)
    moreover have "\<forall>u\<in>set (chain_of Write ?w). type_of ?w u = TL_WRITE_ALLOW_WRITE"
      using st False by (simp add: writers_started_def)
    ultimately have "\<exists>dl w'. start_writers d' ?w = Some (dl, w') \<and> writers_started ?w (type_of w' dl) w'"
      using st gs(1) Cons.prems(3) by (intro Cons.IH) (auto simp: writers_started_def)
    then show ?thesis using False ty(3) writers_started_trans [OF st] by auto
  qed
qed

lemma start_writers_with_readers_step:
  assumes ok: "world_ok w" and wait: "chain_of Write_Wait w = d # rest"
  shows "start_writers_with_readers lt d w =
      (case rest of
         [] \<Rightarrow> Some (grant_write d (type_of w d) w)
       | d' # _ \<Rightarrow>
           if lt = TL_WRITE_ALLOW_WRITE \<and> type_of w d' = TL_WRITE_ALLOW_WRITE
           then start_writers_with_readers lt d' (grant_write d (type_of w d) w)
           else Some (grant_write d (type_of w d) w))"
proof -
  have d: "cond_of w d \<noteq> 0" "d \<notin> set rest" using world_ok_chains(1,5) [OF ok] wait by auto
  show ?thesis
    using d wait
    by (subst start_writers_with_readers.simps)
      (auto simp: unlink_def lock_ops cond_signal_def grant_write_def Let_def split: list.split)
qed

lemma start_writers_with_readers_ok:
  assumes "world_ok w" "chain_of Write_Wait w = d # rest" "type_of w d = lt"
    "\<forall>r\<in>set (chain_of Read w). compatible lt (type_of w r)"
    "\<forall>u\<in>set (chain_of Write w). type_of w u = TL_WRITE_ALLOW_WRITE \<and> lt = TL_WRITE_ALLOW_WRITE"
  shows "\<exists>w'. start_writers_with_readers lt d w = Some w' \<and> writers_started w lt w'"
  using assms
proof (induction rest arbitrary: d w)
  case (Nil d w)
  have "is_write (type_of w d)" using world_ok_chains(5) [OF Nil.prems(1)] Nil.prems(2) by auto
  then have "writers_started w lt (grant_write d (type_of w d) w)"
    using grant_write_started [OF Nil.prems(1,2)] Nil.prems(3-5) by auto
  then show ?case using start_writers_with_readers_step [OF Nil.prems(1,2)] by simp
next
  case (Cons d' rest d w)
  let ?w = "grant_write d (type_of w d) w"
  have "is_write (type_of w d)" using world_ok_chains(5) [OF Cons.prems(1)] Cons.prems(2) by auto
  then have st: "writers_started w lt ?w"
    using grant_write_started [OF Cons.prems(1,2)] Cons.prems(3-5) by auto
  note gs = grant_write_simps [OF Cons.prems(2)]
  note step = start_writers_with_readers_step [OF Cons.prems(1,2), of lt]
  show ?case
  proof (cases "lt = TL_WRITE_ALLOW_WRITE \<and> type_of w d' = TL_WRITE_ALLOW_WRITE")
    case False
    then show ?thesis using step st by auto
  next
    case True
    have "d' \<noteq> d" using world_ok_chains(1) [OF Cons.prems(1)] Cons.prems(2) by auto
    then have "type_of ?w d' = lt" using True by (simp add: gs)
    moreover have "\<forall>u\<in>set (chain_of Write ?w). type_of ?w u = TL_WRITE_ALLOW_WRITE"
      using st True by (simp add: writers_started_def)
    moreover have "\<forall>r\<in>set (chain_of Read ?w). compatible lt (type_of ?w r)"
      using st Cons.prems(4) by (simp add: writers_started_def)
    ultimately have "\<exists>w'. start_writers_with_readers lt d' ?w = Some w' \<and> writers_started ?w lt w'"
      using st gs(1) True by (intro Cons.IH) (auto simp: writers_started_def)
    then show ?thesis using True step writers_started_trans [OF st] by auto
  qed
qed

text \<open>No request waits on a lock that is free, and readers only wait for a writer.\<close>

definition not_stranded :: "(lock_list \<Rightarrow> ptr list) \<Rightarrow> bool" where
  "not_stranded ch \<longleftrightarrow>
     (ch Write = [] \<longrightarrow> (ch Read = [] \<longrightarrow> ch Write_Wait = [] \<and> ch Read_Wait = []) \<and>
        (ch Write_Wait = [] \<longrightarrow> ch Read_Wait = []))"

lemma write_below_low:
  assumes "is_write ty" "\<not> TL_WRITE_LOW_PRIORITY \<le> ty"
  shows "ty = TL_WRITE_ALLOW_WRITE \<or> ty = TL_WRITE_CONCURRENT_INSERT \<or> ty = TL_WRITE_DELAYED"
  using assms by (cases ty) (auto simp: is_write_def thr_lock_type_order)

lemma below_low_iff: "is_write ty \<Longrightarrow> ty \<le> TL_WRITE_DELAYED \<longleftrightarrow> \<not> TL_WRITE_LOW_PRIORITY \<le> ty"
  by (cases ty) (auto simp: is_write_def thr_lock_type_order)

lemma release_beside_writers:
  assumes "writers_started w ty w'" "is_write ty" "\<not> TL_WRITE_LOW_PRIORITY \<le> ty"
  shows "\<exists>w''. release_waiting_reads (shares_with_insert ty) w' = Some w'' \<and> world_ok w'' \<and> advanced w w'' \<and>
    not_stranded (chain (lock w''))"
proof -
  have s: "world_ok w'" "advanced w w'" "\<forall>v\<in>set (chain_of Write w'). type_of w' v = ty" "chain_of Write w' \<noteq> []"
    using assms(1) by (auto simp: writers_started_def)
  have "\<forall>r\<in>set (chain_of Read_Wait w'). held_back (shares_with_insert ty) w' r \<or>
      (\<forall>v\<in>set (chain_of Write w'). compatible (type_of w' v) (type_of w' r))"
    using s(3) write_below_low [OF assms(2,3)] by (auto simp: held_back_def shares_with_insert_def)
  from release_waiting_reads_ok [OF s(1) this] s(2,4) advanced_trans show ?thesis
    by (fastforce simp: not_stranded_def)
qed

lemma release_without_writers:
  assumes "world_ok w" "chain_of Write w = []" "chain_of Read w \<noteq> [] \<or> chain_of Read_Wait w \<noteq> [] \<or> chain_of Write_Wait w = []"
  shows "\<exists>w'. release_waiting_reads False w = Some w' \<and> world_ok w' \<and> advanced w w' \<and> not_stranded (chain (lock w'))"
proof -
  have h: "held_back False w = (\<lambda>_. False)" by (simp add: fun_eq_iff held_back_def)
  from release_waiting_reads_ok [OF assms(1), of False] assms(2,3) show ?thesis
    unfolding h by (auto simp: not_stranded_def)
qed

lemma set_write_lock_count_ok:
  "world_ok (set_write_lock_count n w) = world_ok w" "advanced (set_write_lock_count n w) w' = advanced w w'"
  "chain (lock (set_write_lock_count n w)) = chain (lock w)" "datas (set_write_lock_count n w) = datas w"
  by (simp_all add: world_ok_def advanced_def same_env_def set_write_lock_count_def)

lemma wake_up_unused_ok:
  assumes ok: "world_ok w" and un: "chain_of Write w = []" "chain_of Read w = []"
  shows "\<exists>w'. wake_up_unused w = Some w' \<and> world_ok w' \<and> advanced w w' \<and> not_stranded (chain (lock w'))"
proof (cases "chain_of Write_Wait w")
  case Nil
  then show ?thesis using release_without_writers [OF ok un(1)] by (simp add: wake_up_unused_def)
next
  case (Cons d rest)
  let ?first = "type_of w d \<noteq> TL_WRITE_LOW_PRIORITY \<or> chain_of Read_Wait w = [] \<or>
    type_of w (hd (chain_of Read_Wait w)) < TL_READ_HIGH_PRIORITY"
  let ?many = "write_lock_count (lock w) > max_write_lock_count w"
  let ?w = "if ?many then set_write_lock_count 0 (set_write_lock_count ((write_lock_count (lock w) + 1) mod 2 ^ 64) w)
    else set_write_lock_count ((write_lock_count (lock w) + 1) mod 2 ^ 64) w"
  have w: "world_ok ?w" "\<And>w'. advanced ?w w' \<Longrightarrow> advanced w w'" "chain (lock ?w) = chain (lock w)" "datas ?w = datas w"
    using ok by (simp_all add: set_write_lock_count_ok split: if_splits)
  show ?thesis
  proof (cases ?first)
    case False
    then have "wake_up_unused w = release_waiting_reads False w"
      using Cons by (simp add: wake_up_unused_def shares_with_insert_def)
    moreover have "chain_of Read_Wait w \<noteq> []" using False by blast
    ultimately show ?thesis using release_without_writers [OF ok un(1)] by simp
  next
    case first: True
    show ?thesis
    proof (cases "?many \<and> chain_of Read_Wait w \<noteq> []")
      case True
      then have "wake_up_unused w = release_waiting_reads False ?w"
        using Cons first w(3) by (simp add: wake_up_unused_def Let_def release_waiting_reads_def)
      then show ?thesis using release_without_writers [OF w(1)] w(2,3) un True by metis
    next
      case False
      obtain dl w1 where s: "start_writers d ?w = Some (dl, w1)" "writers_started ?w (type_of w1 dl) w1"
        using start_writers_ok [OF w(1)] w(3,4) Cons un by fastforce
      have eq: "wake_up_unused w =
          (if type_of w1 dl \<ge> TL_WRITE_LOW_PRIORITY then Some w1
           else release_waiting_reads (shares_with_insert (type_of w1 dl)) w1)"
        using Cons first False w(3) s(1) by (auto simp: wake_up_unused_def Let_def)
      have i: "is_write (type_of w1 dl)"
        using s(2) world_ok_chains(4) [of w1] unfolding writers_started_def by (metis hd_in_set)
      show ?thesis
      proof (cases "type_of w1 dl \<ge> TL_WRITE_LOW_PRIORITY")
        case True
        then show ?thesis using eq s(2) w(2) by (auto simp: writers_started_def not_stranded_def)
      next
        case False
        then show ?thesis using eq release_beside_writers [OF s(2) i] w(2) by metis
      qed
    qed
  qed
qed

lemma retype_wait_ok:
  assumes ok: "world_ok w" and d: "d \<in> set (chain_of Write_Wait w)" and ty: "is_write ty" "ty \<noteq> TL_WRITE_CONCURRENT_INSERT"
  shows "world_ok (set_type d ty w)" "advanced w (set_type d ty w)"
proof -
  have "lock_ok (datas (set_type d ty w)) (chain (lock w)) (read_no_write_count (lock w))"
    unfolding set_type_def using ok d ty lock_ok_retype_wait by (simp add: world_ok_def)
  then show "world_ok (set_type d ty w)" using ok ty by (auto simp: world_ok_def set_type_def)
  show "advanced w (set_type d ty w)"
    using d unfolding advanced_def in_chains_iff by (auto simp: set_type_def same_env_def)
qed

lemma wake_up_beside_readers_ok:
  assumes ok: "world_ok w" and un: "chain_of Write w = []" "chain_of Read w \<noteq> []"
  shows "\<exists>w'. wake_up_beside_readers w = Some w' \<and> world_ok w' \<and> advanced w w' \<and> not_stranded (chain (lock w'))"
proof (cases "chain_of Write_Wait w")
  case Nil
  then show ?thesis using release_without_writers [OF ok un(1)] by (simp add: wake_up_beside_readers_def)
next
  case (Cons d rest)
  note ch = world_ok_chains [OF ok]
  let ?lt = "type_of w d"
  have d: "is_write ?lt" "d \<in> set (chain_of Write_Wait w)" using ch(5) Cons by auto
  show ?thesis
  proof (cases "?lt \<le> TL_WRITE_DELAYED \<and> (\<not> shares_with_insert ?lt \<or> read_no_write_count (lock w) = 0)")
    case False
    then show ?thesis using Cons ok un by (auto simp: wake_up_beside_readers_def not_stranded_def advanced_refl Let_def)
  next
    case True
    have c: "check_status (lock w) \<noteq> None" if "?lt = TL_WRITE_CONCURRENT_INSERT"
      using ok that d unfolding world_ok_def by auto
    show ?thesis
    proof (cases "?lt = TL_WRITE_CONCURRENT_INSERT \<and> the (check_status (lock w)) (d_status_param (datas w d))")
      case upgrade: True
      have tw: "is_write TL_WRITE" "TL_WRITE \<noteq> TL_WRITE_CONCURRENT_INSERT" by (simp_all add: is_write_def thr_lock_type_order)
      note r = retype_wait_ok [OF ok d(2) tw]
      have "wake_up_beside_readers w = release_waiting_reads False (set_type d TL_WRITE w)"
        using Cons True upgrade c by (auto simp: wake_up_beside_readers_def Let_def call_check_status_def)
      then show ?thesis
        using release_without_writers [OF r(1)] un advanced_trans [OF r(2)] by (fastforce simp: set_type_def)
    next
      case start: False
      have lt: "?lt = TL_WRITE_ALLOW_WRITE \<or> ?lt = TL_WRITE_CONCURRENT_INSERT \<or> ?lt = TL_WRITE_DELAYED"
        using write_below_low [OF d(1)] below_low_iff [OF d(1)] True by blast
      then have "\<forall>r\<in>set (chain_of Read w). compatible ?lt (type_of w r)"
        using True ch(8) no_insert_count_zero [of "datas w"] by (auto simp: shares_with_insert_def)
      then obtain w1 where s: "start_writers_with_readers ?lt d w = Some w1" "writers_started w ?lt w1"
        using start_writers_with_readers_ok [OF ok Cons refl] un by auto
      have "wake_up_beside_readers w = release_waiting_reads (shares_with_insert ?lt) w1"
        using Cons True start c s(1) by (auto simp: wake_up_beside_readers_def Let_def call_check_status_def)
      then show ?thesis using release_beside_writers [OF s(2) d(1)] True below_low_iff [OF d(1)] by simp
    qed
  qed
qed

lemma wake_up_waiters_ok:
  assumes "world_ok w"
  shows "\<exists>w'. wake_up_waiters w = Some w' \<and> world_ok w' \<and> advanced w w' \<and> not_stranded (chain (lock w'))"
  using assms wake_up_unused_ok [OF assms] wake_up_beside_readers_ok [OF assms] advanced_refl [of w]
  unfolding wake_up_waiters_def by (auto simp: not_stranded_def)

section \<open>What an operation leaves alone\<close>

text \<open>An instance keeps its type, or is marked as killed, or goes from one write type to another.\<close>

definition type_kept :: "lock_world \<Rightarrow> lock_world \<Rightarrow> ptr \<Rightarrow> bool" where
  "type_kept w w' x \<longleftrightarrow> type_of w' x = type_of w x \<or> type_of w' x = TL_UNLOCK \<or>
     is_write (type_of w x) \<and> is_write (type_of w' x)"

lemma type_kept_refl [simp]: "type_kept w w x"
  by (simp add: type_kept_def)

lemma type_kept_trans: "type_kept w w1 x \<Longrightarrow> type_kept w1 w2 x \<Longrightarrow> type_kept w w2 x"
  by (auto simp: type_kept_def is_write_def thr_lock_type_order)

definition types_kept :: "lock_world \<Rightarrow> lock_world \<Rightarrow> bool" where
  "types_kept w w' \<longleftrightarrow> (\<forall>x. type_kept w w' x)"

lemma types_kept_refl [simp]: "types_kept w w"
  by (simp add: types_kept_def)

lemma types_kept_trans [trans]: "types_kept w w1 \<Longrightarrow> types_kept w1 w2 \<Longrightarrow> types_kept w w2"
  unfolding types_kept_def using type_kept_trans by blast

lemma types_kept_same: "(\<And>x. type_of w' x = type_of w x) \<Longrightarrow> types_kept w w'"
  by (simp add: types_kept_def type_kept_def)

lemma types_kept_write:
  "type_of w d = TL_WRITE_CONCURRENT_INSERT \<Longrightarrow> types_kept w (set_type d TL_WRITE w)"
  by (auto simp: types_kept_def type_kept_def lock_ops is_write_def thr_lock_type_order)

lemma unlink_same: "unlink q d w = Some w' \<Longrightarrow> datas w' = datas w \<and> events w' = events w"
  by (auto simp: unlink_def lock_ops split: if_splits)

lemma cond_signal_same:
  "cond_signal c w = Some w' \<Longrightarrow> datas w' = datas w \<and> events w' = events w @ [Cond_signal c]"
  by (auto simp: cond_signal_def lock_ops split: if_splits)

text \<open>
  What \<open>wake_up_waiters\<close> does to the instances, apart from moving them between chains, is made of two
  steps: it signals the condition variable of an instance and clears the pointer to it, and it
  turns a concurrent insert into a plain write lock. A relation that these steps and sequences of
  them respect holds for all functions \<open>wake_up_waiters\<close> is composed of.
\<close>

locale wake_relation =
  fixes K :: "lock_world \<Rightarrow> lock_world \<Rightarrow> bool"
  assumes K_trans: "K w w1 \<Longrightarrow> K w1 w2 \<Longrightarrow> K w w2"
    and K_same: "datas w' = datas w \<Longrightarrow> events w' = events w \<Longrightarrow> K w w'"
    and K_upgrade: "type_of w d = TL_WRITE_CONCURRENT_INSERT \<Longrightarrow> K w (set_type d TL_WRITE w)"
    and K_signal: "datas w' = (datas w)(d := (datas w d)\<lparr>d_cond := 0\<rparr>) \<Longrightarrow>
      events w' = events w @ [Cond_signal (cond_of w d)] \<Longrightarrow> K w w'"
begin

lemma K_refl: "K w w"
  by (simp add: K_same)

lemma signalled_step:
  assumes "cond_signal (cond_of w d) (set_cond d 0 w1) = Some w'" "datas w1 = datas w" "events w1 = events w"
  shows "K w w'"
  using cond_signal_same [OF assms(1)] assms(2,3) by (intro K_signal [of w' w d]) (simp_all add: lock_ops)

lemma free_read_loop_K: "free_read_loop ds ci w = Some w' \<Longrightarrow> K w w'"
proof (induction ds ci w rule: free_read_loop.induct)
  case (2 d ds ci w)
  show ?case
  proof (cases "type_of w d = TL_READ_NO_INSERT \<and> ci")
    case True
    then obtain w1 where w1: "unlink Read d w = Some w1" "free_read_loop ds ci (link_last Read_Wait d w1) = Some w'"
      using 2(3) by (auto split: bind_splits)
    have "K w (link_last Read_Wait d w1)"
      using unlink_same [OF w1(1)] by (intro K_same) (simp_all add: lock_ops)
    then show ?thesis using 2(1) [OF True w1] by (rule K_trans)
  next
    case False
    let ?w = "if type_of w d = TL_READ_NO_INSERT
      then set_read_no_write_count (uint_wrap (read_no_write_count (lock w) + 1)) w else w"
    obtain w1 where w1: "cond_signal (cond_of w d) (set_cond d 0 ?w) = Some w1" "free_read_loop ds ci w1 = Some w'"
      using 2(3) False by (auto simp: Let_def split: bind_splits)
    have "K w w1" by (rule signalled_step [OF w1(1)]) (simp_all add: lock_ops)
    then show ?thesis using 2(2) [OF False refl refl w1] by (rule K_trans)
  qed
qed (simp add: K_refl)

lemma free_all_read_locks_K:
  assumes "free_all_read_locks ci w = Some w'"
  shows "K w w'"
proof -
  let ?w = "set_chain Read_Wait [] (set_chain Read (chain_of Read w @ chain_of Read_Wait w) w)"
  obtain w1 where w1: "free_read_loop (chain_of Read_Wait w) ci ?w = Some w1"
    "w' = (if chain_of Read_Wait w1 = [] then set_write_lock_count 0 w1 else w1)"
    using assms by (auto simp: free_all_read_locks_def Let_def split: bind_splits if_splits)
  have "K w ?w" by (rule K_same) (simp_all add: lock_ops)
  moreover have "K w1 w'" by (rule K_same) (simp_all add: w1(2) lock_ops)
  ultimately show ?thesis using free_read_loop_K [OF w1(1)] K_trans by blast
qed

lemma release_waiting_reads_K: "release_waiting_reads ci w = Some w' \<Longrightarrow> K w w'"
  by (auto simp: release_waiting_reads_def K_refl dest: free_all_read_locks_K split: if_splits)

lemma start_writers_K: "start_writers d w = Some r \<Longrightarrow> K w (snd r)"
proof (induction rule: start_writers.raw_induct [rotated, consumes 1, case_names 1])
  case (1 start d w r)
  obtain w1 upgrade w2 where w1: "unlink Write_Wait d w = Some w1"
    "(if type_of (link_last Write d w1) d = TL_WRITE_CONCURRENT_INSERT
      then call_check_status d (link_last Write d w1) else Some False) = Some upgrade"
    and w2: "cond_signal (cond_of (if upgrade then set_type d TL_WRITE (link_last Write d w1) else link_last Write d w1) d)
      (set_cond d 0 (if upgrade then set_type d TL_WRITE (link_last Write d w1) else link_last Write d w1)) = Some w2"
    and r: "(case chain_of Write_Wait w2 of [] \<Rightarrow> Some (d, w2)
        | d' # _ \<Rightarrow> if type_of w2 d \<noteq> TL_WRITE_ALLOW_WRITE \<or> type_of w2 d' \<noteq> TL_WRITE_ALLOW_WRITE
            then Some (d, w2) else start d' w2) = Some r"
    using 1(2) unfolding Let_def bind_eq_Some_conv by blast
  let ?w = "link_last Write d w1"
  have "K w ?w" using unlink_same [OF w1(1)] by (intro K_same) (simp_all add: lock_ops)
  moreover have "K ?w (if upgrade then set_type d TL_WRITE ?w else ?w)"
    using w1(2) K_upgrade [of ?w d] K_refl by (auto split: if_splits)
  moreover have "K (if upgrade then set_type d TL_WRITE ?w else ?w) w2" by (rule signalled_step [OF w2]) simp_all
  ultimately have k: "K w w2" using K_trans by blast
  have "r = (d, w2) \<or> (\<exists>d'. start d' w2 = Some r)"
    using r by (cases "chain_of Write_Wait w2") (auto split: if_splits)
  then show ?case using k K_trans [OF k 1(1)] by (cases r) auto
qed

lemma start_writers_with_readers_K: "start_writers_with_readers ty d w = Some w' \<Longrightarrow> K w w'"
proof (induction rule: start_writers_with_readers.raw_induct [rotated, consumes 1, case_names 1])
  case (1 start ty d w w')
  obtain w1 w2 where w1: "unlink Write_Wait d w = Some w1"
    and w2: "cond_signal (cond_of w d) (set_cond d 0 (link_last Write d w1)) = Some w2"
    and r: "(case chain_of Write_Wait w2 of [] \<Rightarrow> Some w2
        | d' # _ \<Rightarrow> if ty = TL_WRITE_ALLOW_WRITE \<and> type_of w2 d' = TL_WRITE_ALLOW_WRITE
            then start ty d' w2 else Some w2) = Some w'"
    using 1(2) unfolding Let_def bind_eq_Some_conv by blast
  have k: "K w w2"
    using unlink_same [OF w1] by (intro signalled_step [OF w2]) (simp_all add: lock_ops)
  have "w' = w2 \<or> (\<exists>d'. start ty d' w2 = Some w')"
    using r by (cases "chain_of Write_Wait w2") (auto split: if_splits)
  then show ?case using k K_trans [OF k 1(1)] by auto
qed

lemma started_K:
  assumes "start_writers d w \<bind> (\<lambda>(d, w). if type_of w d \<ge> TL_WRITE_LOW_PRIORITY then Some w
      else release_waiting_reads (shares_with_insert (type_of w d)) w) = Some w'"
  shows "K w w'"
proof -
  obtain dl w1 where w1: "start_writers d w = Some (dl, w1)"
    "(if type_of w1 dl \<ge> TL_WRITE_LOW_PRIORITY then Some w1
      else release_waiting_reads (shares_with_insert (type_of w1 dl)) w1) = Some w'"
    using assms by (auto split: bind_splits)
  have "K w w1" using start_writers_K [OF w1(1)] by simp
  moreover have "K w1 w'" using w1(2) release_waiting_reads_K K_refl by (auto split: if_splits)
  ultimately show ?thesis by (rule K_trans)
qed

lemma wake_up_unused_K:
  assumes "wake_up_unused w = Some w'" shows "K w w'"
proof (cases "chain_of Write_Wait w")
  case Nil
  then show ?thesis using assms release_waiting_reads_K by (simp add: wake_up_unused_def)
next
  case (Cons d ds)
  let ?many = "write_lock_count (lock w) > max_write_lock_count w"
  let ?w = "if ?many then set_write_lock_count 0 (set_write_lock_count ((write_lock_count (lock w) + 1) mod 2 ^ 64) w)
    else set_write_lock_count ((write_lock_count (lock w) + 1) mod 2 ^ 64) w"
  have k: "K w ?w" by (rule K_same) (simp_all add: lock_ops)
  consider "release_waiting_reads (shares_with_insert (type_of w d)) w = Some w'"
    | "free_all_read_locks False ?w = Some w'"
    | "start_writers d ?w \<bind> (\<lambda>(d, w). if type_of w d \<ge> TL_WRITE_LOW_PRIORITY then Some w
      else release_waiting_reads (shares_with_insert (type_of w d)) w) = Some w'"
    using assms Cons by (auto simp: wake_up_unused_def Let_def split: if_splits)
  then show ?thesis
    by cases (use started_K release_waiting_reads_K free_all_read_locks_K K_trans [OF k] in blast)+
qed

lemma wake_up_beside_readers_K:
  assumes "wake_up_beside_readers w = Some w'" shows "K w w'"
proof (cases "chain_of Write_Wait w")
  case Nil
  then show ?thesis using assms release_waiting_reads_K by (simp add: wake_up_beside_readers_def)
next
  case (Cons d ds)
  consider "w' = w"
    | "type_of w d = TL_WRITE_CONCURRENT_INSERT" "release_waiting_reads False (set_type d TL_WRITE w) = Some w'"
    | w1 where "start_writers_with_readers (type_of w d) d w = Some w1"
        "release_waiting_reads (shares_with_insert (type_of w d)) w1 = Some w'"
    using assms Cons by (auto simp: wake_up_beside_readers_def Let_def split: if_splits bind_splits)
  then show ?thesis
  proof cases
    case 2
    then show ?thesis using K_trans [OF K_upgrade] release_waiting_reads_K by blast
  next
    case 3
    then show ?thesis using K_trans start_writers_with_readers_K release_waiting_reads_K by blast
  qed (simp add: K_refl)
qed

lemma wake_up_waiters_K: "wake_up_waiters w = Some w' \<Longrightarrow> K w w'"
  by (auto simp: wake_up_waiters_def K_refl dest: wake_up_unused_K wake_up_beside_readers_K split: if_splits)

end

interpretation types: wake_relation types_kept
proof
  show "types_kept w w2" if "types_kept w w1" "types_kept w1 w2" for w w1 w2
    using that by (rule types_kept_trans)
  show "types_kept w (set_type d TL_WRITE w)" if "type_of w d = TL_WRITE_CONCURRENT_INSERT" for w d
    using that by (rule types_kept_write)
qed (rule types_kept_same, simp)+

text \<open>A pointer to a condition variable is cleared only when the variable has been signalled.\<close>

definition signalled :: "lock_world \<Rightarrow> lock_world \<Rightarrow> bool" where
  "signalled w w' \<longleftrightarrow> (\<exists>es. events w' = events w @ es \<and>
     (\<forall>d. cond_of w' d = cond_of w d \<or> cond_of w' d = 0 \<and> Cond_signal (cond_of w d) \<in> set es))"

lemma signalled_trans [trans]:
  assumes "signalled w w1" "signalled w1 w2"
  shows "signalled w w2"
proof -
  obtain es fs where e: "events w1 = events w @ es" "events w2 = events w1 @ fs"
    and c: "\<And>d. cond_of w1 d = cond_of w d \<or> cond_of w1 d = 0 \<and> Cond_signal (cond_of w d) \<in> set es"
      "\<And>d. cond_of w2 d = cond_of w1 d \<or> cond_of w2 d = 0 \<and> Cond_signal (cond_of w1 d) \<in> set fs"
    using assms unfolding signalled_def by blast
  have "cond_of w2 d = cond_of w d \<or> cond_of w2 d = 0 \<and> Cond_signal (cond_of w d) \<in> set (es @ fs)" for d
    using c [of d] by auto
  then show ?thesis unfolding signalled_def e by (intro exI [of _ "es @ fs"]) simp
qed

interpretation signals: wake_relation signalled
proof
  show "signalled w w2" if "signalled w w1" "signalled w1 w2" for w w1 w2
    using that by (rule signalled_trans)
  show "signalled w (set_type d TL_WRITE w)" for w d
    by (auto simp: signalled_def lock_ops)
qed (auto simp: signalled_def)

lemma thr_unlock_signals:
  assumes "thr_unlock d w = Some w'"
  shows "signalled w w'"
proof -
  obtain w1 where w1: "wake_up_waiters w1 = Some w'" "\<And>x. cond_of w1 x = cond_of w x" "\<exists>es. events w1 = events w @ es"
    using assms by (auto simp: thr_unlock_def Let_def unlink_def lock_ops bind_eq_Some_conv split: if_splits)
  have "signalled w w1" using w1(2,3) by (auto simp: signalled_def)
  then show ?thesis using signals.wake_up_waiters_K [OF w1(1)] by (rule signalled_trans)
qed

text \<open>The instances outside a set: they keep their owners, and in substance their types; the running ones
  stay in their chains, and the ones in no chain stay there.\<close>

definition frame :: "lock_world \<Rightarrow> ptr set \<Rightarrow> lock_world \<Rightarrow> bool" where
  "frame w D w' \<longleftrightarrow> (\<forall>x. x \<notin> D \<longrightarrow> owner_of w' x = owner_of w x \<and> type_kept w w' x \<and>
     (in_chains (chain (lock w')) x \<longrightarrow> in_chains (chain (lock w)) x) \<and>
     (x \<in> set (chain_of Read w) \<longrightarrow> x \<in> set (chain_of Read w')) \<and>
     (x \<in> set (chain_of Write w) \<longrightarrow> x \<in> set (chain_of Write w')))"

lemma frame_trans: "frame w D w1 \<Longrightarrow> frame w1 D w2 \<Longrightarrow> frame w D w2"
  unfolding frame_def by (auto intro: type_kept_trans)

lemma wake_up_frame:
  assumes "world_ok w" "wake_up_waiters w = Some w'"
  shows "frame w D w'"
proof -
  have a: "advanced w w'" using wake_up_waiters_ok [OF assms(1)] assms(2) by auto
  have "x \<in> set (chain_of q w')" if "x \<in> set (chain_of q w)" "q \<in> {Read, Write}" for x q
    using advancedD [OF a that(1)] that(2) by auto
  then show ?thesis
    using a types.wake_up_waiters_K [OF assms(2)] unfolding frame_def advanced_def types_kept_def by blast
qed

section \<open>Every operation keeps the invariant\<close>

text \<open>An instance whose thread waits in the chain \<open>q\<close>: it is in that chain, or it has been given the
  lock, or it has been aborted.\<close>

definition wait_ok :: "lock_world \<Rightarrow> lock_list \<Rightarrow> ptr \<Rightarrow> bool" where
  "wait_ok w q d \<longleftrightarrow> d \<in> set (chain_of q w) \<or>
     cond_of w d = 0 \<and> (d \<in> set (chain_of Read w) \<union> set (chain_of Write w) \<or> type_of w d = TL_UNLOCK)"

definition waits_kept :: "lock_world \<Rightarrow> ptr set \<Rightarrow> lock_world \<Rightarrow> bool" where
  "waits_kept w D w' \<longleftrightarrow> (\<forall>q\<in>{Read_Wait, Write_Wait}. \<forall>x. x \<notin> D \<longrightarrow> wait_ok w q x \<longrightarrow> wait_ok w' q x)"

lemma waits_kept_refl [simp]: "waits_kept w D w"
  by (simp add: waits_kept_def)

lemma waits_kept_trans: "waits_kept w D w' \<Longrightarrow> waits_kept w' D w'' \<Longrightarrow> waits_kept w D w''"
  unfolding waits_kept_def by blast

lemma not_read_write_unlock [simp]: "\<not> is_read TL_UNLOCK" "\<not> is_write TL_UNLOCK"
  by (simp_all add: is_read_def is_write_def thr_lock_type_order)

lemma unlocked_outside:
  assumes ok: "world_ok w" and "type_of w d = TL_UNLOCK"
  shows "\<not> in_chains (chain (lock w)) d"
  using assms(2) world_ok_chains(2-5) [OF ok, of d] unfolding in_chains_iff by auto

lemma advanced_waits_kept:
  assumes ok: "world_ok w" and adv: "advanced w w'"
  shows "waits_kept w D w'"
  unfolding waits_kept_def
proof (intro ballI allI impI)
  fix q x assume q: "q \<in> {Read_Wait, Write_Wait}" and "wait_ok w q x"
  then consider "x \<in> set (chain_of q w)" | "cond_of w x = 0" "x \<in> set (chain_of Read w)"
    | "cond_of w x = 0" "x \<in> set (chain_of Write w)" | "cond_of w x = 0" "type_of w x = TL_UNLOCK"
    unfolding wait_ok_def by auto
  then show "wait_ok w' q x"
  proof cases
    case 1
    then show ?thesis using advancedD [OF adv 1] q by (auto simp: wait_ok_def)
  next
    case 2
    then show ?thesis using advancedD [OF adv 2(2)] by (auto simp: wait_ok_def)
  next
    case 3
    then show ?thesis using advancedD [OF adv 3(2)] by (auto simp: wait_ok_def)
  next
    case 4
    then show ?thesis using adv unlocked_outside [OF ok 4(2)] by (auto simp: wait_ok_def advanced_def)
  qed
qed

text \<open>Taking an instance out of a chain and waking up waiters.\<close>

lemma unlink_ok:
  assumes ok: "world_ok w" and d: "d \<in> set (chain_of q w)"
    and w1: "chain (lock w1) = (chain (lock w))(q := remove1 d (chain_of q w))"
      "datas w1 = (datas w)(d := x)" "same_env w w1"
      "read_no_write_count (lock w1) =
        (if q = Read \<and> type_of w d = TL_READ_NO_INSERT then read_no_write_count (lock w) - 1
         else read_no_write_count (lock w))"
  shows "world_ok w1" "\<not> in_chains (chain (lock w1)) d" "waits_kept w {d} w1"
proof -
  have l0: "lock_ok (datas w) (chain (lock w)) (read_no_write_count (lock w))" using ok by (simp add: world_ok_def)
  have l: "lock_ok (datas w1) (chain (lock w1)) (read_no_write_count (lock w1))"
    and out: "\<not> in_chains (chain (lock w1)) d"
    using lock_ok_unlink(1) [OF l0 d, of x] lock_ok_unlink(2) [OF l0 d] unfolding w1 by auto
  have "y \<noteq> d \<and> y \<in> set (chain_of Write_Wait w)" if "y \<in> set (chain_of Write_Wait w1)" for y
  proof -
    have "y \<noteq> d" using that out unfolding in_chains_def by blast
    then show ?thesis using that unfolding w1(1) by (simp split: if_splits)
  qed
  then show "world_ok w1" using ok l w1(3) unfolding world_ok_def same_env_def w1(2) by auto
  show "\<not> in_chains (chain (lock w1)) d" by (rule out)
  show "waits_kept w {d} w1"
    unfolding waits_kept_def wait_ok_def by (auto simp: w1(1,2) in_set_remove1)
qed

lemma wake_up_after_unlink:
  assumes ok: "world_ok w" and d: "d \<in> set (chain_of q w)"
    and w1: "chain (lock w1) = (chain (lock w))(q := remove1 d (chain_of q w))"
      "datas w1 = (datas w)(d := x)" "same_env w w1"
      "read_no_write_count (lock w1) =
        (if q = Read \<and> type_of w d = TL_READ_NO_INSERT then read_no_write_count (lock w) - 1
         else read_no_write_count (lock w))"
  shows "\<exists>w'. wake_up_waiters w1 = Some w' \<and> world_ok w' \<and> not_stranded (chain (lock w')) \<and>
    waits_kept w {d} w' \<and> frame w {d} w' \<and> datas w' d = x \<and>
    (\<forall>y. in_chains (chain (lock w')) y \<longleftrightarrow> in_chains (chain (lock w)) y \<and> y \<noteq> d)"
proof -
  note u = unlink_ok [OF assms]
  obtain w' where w': "wake_up_waiters w1 = Some w'" "world_ok w'" "advanced w1 w'" "not_stranded (chain (lock w'))"
    using wake_up_waiters_ok [OF u(1)] by blast
  have "datas w' d = x" using w'(3) u(2) by (simp add: advanced_def w1(2))
  moreover have "in_chains (chain (lock w')) y \<longleftrightarrow> in_chains (chain (lock w)) y \<and> y \<noteq> d" for y
  proof (cases "y = d")
    case True
    then show ?thesis using w'(3) u(2) by (simp add: advanced_def)
  next
    case False
    have "in_chains (chain (lock w1)) y = in_chains (chain (lock w)) y"
      unfolding in_chains_def w1(1) using False by (auto simp: in_set_remove1 fun_upd_def)
    then show ?thesis using w'(3) False by (simp add: advanced_def)
  qed
  moreover have "frame w {d} w1"
    unfolding frame_def type_kept_def in_chains_def w1(1,2) by (auto simp: in_set_remove1 split: if_splits)
  then have "frame w {d} w'" using wake_up_frame [OF u(1) w'(1)] by (rule frame_trans)
  ultimately show ?thesis
    using w' waits_kept_trans [OF u(3) advanced_waits_kept [OF u(1) w'(3)]] by blast
qed

lemma thr_unlock_ok:
  assumes ok: "world_ok w"
    and d: "d \<in> set (chain_of Read w) \<union> set (chain_of Write w) \<or>
      d \<in> set (chain_of Write_Wait w) \<and> type_of w d = TL_WRITE_DELAYED"
  shows "\<exists>w'. thr_unlock d w = Some w' \<and> world_ok w' \<and> not_stranded (chain (lock w')) \<and>
    waits_kept w {d} w' \<and> frame w {d} w' \<and> type_of w' d = TL_UNLOCK \<and>
    (\<forall>y. in_chains (chain (lock w')) y \<longleftrightarrow> in_chains (chain (lock w)) y \<and> y \<noteq> d)"
proof -
  note ch = world_ok_chains [OF ok]
  obtain q where qd: "q = (if type_of w d \<le> TL_READ_NO_INSERT then Read
    else if type_of w d = TL_WRITE_DELAYED \<and> cond_of w d \<noteq> 0 then Write_Wait else Write)" by blast
  have ord: "\<And>ty. is_write ty \<Longrightarrow> \<not> ty \<le> TL_READ_NO_INSERT" "\<And>ty. is_read ty \<Longrightarrow> ty \<le> TL_READ_NO_INSERT"
    by (auto simp: is_read_def is_write_def thr_lock_type_order)
  have q: "d \<in> set (chain_of q w)" using d ord [of "type_of w d"] ch(2,4,5) [of d] unfolding qd by auto
  have n: "type_of w d = TL_READ_NO_INSERT \<Longrightarrow> q = Read" by (simp add: qd)
  have c: "type_of w d = TL_READ_NO_INSERT \<Longrightarrow> read_no_write_count (lock w) \<noteq> 0"
    using q n unfolding ch(8) no_insert_count_zero by auto
  let ?w = "set_chain q (remove1 d (chain_of q w)) w"
  let ?e = "if type_of w d \<ge> TL_WRITE_CONCURRENT_INSERT
    then if update_status (lock ?w) then add_event (Update_status (d_status_param (datas ?w d))) ?w else ?w
    else if restore_status (lock ?w) then add_event (Restore_status (d_status_param (datas ?w d))) ?w else ?w"
  obtain w1 where w1: "w1 = set_type d TL_UNLOCK (if type_of w d = TL_READ_NO_INSERT
    then set_read_no_write_count (uint_dec (read_no_write_count (lock ?e))) ?e else ?e)" by blast
  have f: "chain (lock w1) = (chain (lock w))(q := remove1 d (chain_of q w))" "same_env w w1"
    "datas w1 = (datas w)(d := (datas w d)\<lparr>d_type := TL_UNLOCK\<rparr>)"
    "read_no_write_count (lock w1) =
        (if q = Read \<and> type_of w d = TL_READ_NO_INSERT then read_no_write_count (lock w) - 1
         else read_no_write_count (lock w))"
    unfolding w1 using c n by (simp_all add: lock_ops same_env_def uint_dec_def)
  have "thr_unlock d w = wake_up_waiters w1"
    unfolding w1 thr_unlock_def Let_def qd [symmetric] unlink_def using q by simp
  then show ?thesis
    using wake_up_after_unlink [OF ok q f(1,3,2,4)] by fastforce
qed

end
