(* ===== verification/Lock_Operations.thy ===== *)
theory Lock_Operations
  imports Lock_Invariant
begin

text \<open>
  Every operation on a table lock keeps the invariant: the end of a wait, the requests for read and
  write locks, \<open>thr_lock\<close>, \<open>thr_unlock\<close>, the aborts, the downgrade, the upgrade and the rescheduling of a
  write lock.
\<close>

lemma wait_for_lock_exit_ok:
  assumes ok: "world_ok w" and ns: "not_stranded (chain (lock w))"
    and q: "q \<in> {Read_Wait, Write_Wait}" and wt: "wait_ok w q d"
  shows "\<exists>r w'. wait_for_lock_exit q d res w = Some (r, w') \<and> world_ok w' \<and> not_stranded (chain (lock w')) \<and>
    waits_kept w {d} w' \<and> frame w {d} w' \<and>
    (r = THR_LOCK_SUCCESS \<and> d \<in> set (chain_of Read w') \<union> set (chain_of Write w') \<or>
     r = res \<and> \<not> in_chains (chain (lock w')) d)"
proof (cases "cond_of w d = 0")
  case False
  then have d: "d \<in> set (chain_of q w)" using wt by (simp add: wait_ok_def)
  let ?w1 = "set_type d TL_UNLOCK (set_chain q (remove1 d (chain_of q w)) w)"
  have eq: "wait_for_lock_exit q d res w = do { w' \<leftarrow> wake_up_waiters ?w1; Some (res, w') }"
    using False d by (simp add: wait_for_lock_exit_def unlink_def)
  have "\<exists>w'. wake_up_waiters ?w1 = Some w' \<and> world_ok w' \<and> not_stranded (chain (lock w')) \<and>
    waits_kept w {d} w' \<and> frame w {d} w' \<and> datas w' d = (datas w d)\<lparr>d_type := TL_UNLOCK\<rparr> \<and>
    (\<forall>y. in_chains (chain (lock w')) y \<longleftrightarrow> in_chains (chain (lock w)) y \<and> y \<noteq> d)"
    using q by (intro wake_up_after_unlink [OF ok d]) (auto simp: lock_ops same_env_def)
  then show ?thesis unfolding eq by auto
next
  case True
  have "d \<notin> set (chain_of q w)" using world_ok_chains(3,5) [OF ok, of d] q True by auto
  then have d: "d \<in> set (chain_of Read w) \<union> set (chain_of Write w) \<or> type_of w d = TL_UNLOCK"
    using wt by (auto simp: wait_ok_def)
  show ?thesis
  proof (cases "type_of w d = TL_UNLOCK")
    case unlocked: True
    then show ?thesis using True ok ns unlocked_outside [OF ok unlocked] by (simp add: wait_for_lock_exit_def frame_def)
  next
    case False
    let ?w = "call_get_status d False w"
    have "world_ok ?w" "chain (lock ?w) = chain (lock w)" "waits_kept w {d} ?w" "frame w {d} ?w"
      using ok by (simp_all add: lock_ops world_ok_def waits_kept_def wait_ok_def frame_def type_kept_def)
    then show ?thesis using True False d ns by (auto simp: wait_for_lock_exit_def)
  qed
qed

lemma lock_ok_link_run:
  assumes ok: "lock_ok dm ch n" and out: "\<not> in_chains ch d" and c: "d_cond (dm d) = 0"
  shows "is_read (d_type (dm d)) \<Longrightarrow> length (ch Read) + length (ch Read_Wait) + 1 < 2 ^ 32 \<Longrightarrow>
      \<forall>v\<in>set (ch Write). d_owner (dm d) = d_owner (dm v) \<or> compatible (d_type (dm v)) (d_type (dm d)) \<Longrightarrow>
      lock_ok dm (ch(Read := ch Read @ [d])) (if d_type (dm d) = TL_READ_NO_INSERT then n + 1 else n)"
    "is_write (d_type (dm d)) \<Longrightarrow> running_ok dm (ch Read) (ch Write @ [d]) \<Longrightarrow> lock_ok dm (ch(Write := ch Write @ [d])) n"
proof -
  assume a: "is_read (d_type (dm d))" "length (ch Read) + length (ch Read_Wait) + 1 < 2 ^ 32"
    "\<forall>v\<in>set (ch Write). d_owner (dm d) = d_owner (dm v) \<or> compatible (d_type (dm v)) (d_type (dm d))"
  have "chains_ok dm (ch(Read := ch Read @ [d]))"
    using ok out c a(1,2) unfolding lock_ok_def chains_ok_def in_chains_iff by auto
  moreover have "running_ok dm (ch Read @ [d]) (ch Write)"
    unfolding running_ok_add_reads using ok a(3) by (simp add: lock_ok_def)
  moreover have "no_insert_count dm (ch Read @ [d]) = (if d_type (dm d) = TL_READ_NO_INSERT then n + 1 else n)"
    using ok by (simp add: lock_ok_def no_insert_count_def)
  ultimately show "lock_ok dm (ch(Read := ch Read @ [d])) (if d_type (dm d) = TL_READ_NO_INSERT then n + 1 else n)"
    by (simp add: lock_ok_def)
next
  assume a: "is_write (d_type (dm d))" "running_ok dm (ch Read) (ch Write @ [d])"
  have "chains_ok dm (ch(Write := ch Write @ [d]))"
    using ok out c a(1) unfolding lock_ok_def chains_ok_def in_chains_iff by auto
  then show "lock_ok dm (ch(Write := ch Write @ [d])) n" using ok a by (simp add: lock_ok_def)
qed

text \<open>What a request leaves behind, for each of its outcomes.\<close>

definition request_done :: "lock_world \<Rightarrow> ptr \<Rightarrow> lock_outcome \<Rightarrow> lock_world \<Rightarrow> bool" where
  "request_done w d out w' \<longleftrightarrow> world_ok w' \<and> not_stranded (chain (lock w')) \<and> waits_kept w {d} w' \<and>
     (case out of
        Done r \<Rightarrow>
          if r = THR_LOCK_SUCCESS
          then d \<in> set (chain_of Read w') \<union> set (chain_of Write w') \<or>
            d \<in> set (chain_of Write_Wait w') \<and> type_of w' d = TL_WRITE_DELAYED
          else \<not> in_chains (chain (lock w')) d
      | Wait q \<Rightarrow> q \<in> {Read_Wait, Write_Wait} \<and> d \<in> set (chain_of q w'))"

lemma waits_kept_new:
  assumes "\<And>q x. x \<in> set (chain_of q w) \<Longrightarrow> x \<in> set (chain_of q w')" "\<And>x. x \<noteq> d \<Longrightarrow> datas w' x = datas w x"
  shows "waits_kept w {d} w'"
  using assms unfolding waits_kept_def wait_ok_def by auto

lemma granted_read:
  assumes ok: "world_ok w" and ns: "not_stranded (chain (lock w))" and out: "\<not> in_chains (chain (lock w)) d"
    and ty: "is_read (type_of w d)" "cond_of w d = 0"
    and len: "length (chain_of Read w) + length (chain_of Read_Wait w) + 1 < 2 ^ 32"
    and compat: "\<forall>v\<in>set (chain_of Write w). owner_of w d = owner_of w v \<or> compatible (type_of w v) (type_of w d)"
  shows "\<exists>w'. grant_now Read d False (count_no_insert (type_of w d) w) = Some (Done THR_LOCK_SUCCESS, w') \<and>
    request_done w d (Done THR_LOCK_SUCCESS) w'"
proof -
  obtain w' where w': "grant_now Read d False (count_no_insert (type_of w d) w) = Some (Done THR_LOCK_SUCCESS, w')"
    by (simp add: grant_now_def)
  have "read_no_write_count (lock w) + 1 < 2 ^ 32"
    using world_ok_chains(8) [OF ok] no_insert_count_le [of "datas w" "chain_of Read w"] len by linarith
  then have f: "chain (lock w') = (chain (lock w))(Read := chain_of Read w @ [d])" "datas w' = datas w" "same_env w w'"
    "read_no_write_count (lock w') =
      (if type_of w d = TL_READ_NO_INSERT then read_no_write_count (lock w) + 1 else read_no_write_count (lock w))"
    using w' by (auto simp: grant_now_def lock_ops uint_wrap_def same_env_def)
  have "lock_ok (datas w') (chain (lock w')) (read_no_write_count (lock w'))"
    unfolding f using ok out ty len compat by (intro lock_ok_link_run) (auto simp: world_ok_def)
  then have "world_ok w'" using ok f(1-3) by (simp add: world_ok_def same_env_def)
  moreover have "waits_kept w {d} w'" by (rule waits_kept_new) (auto simp: f)
  moreover have "not_stranded (chain (lock w'))" using ns unfolding f not_stranded_def by simp
  ultimately show ?thesis using w' f(1) by (auto simp: request_done_def)
qed

lemma granted_write:
  assumes ok: "world_ok w" and out: "\<not> in_chains (chain (lock w)) d"
    and ty: "is_write (type_of w d)" "cond_of w d = 0"
    and run: "running_ok (datas w) (chain_of Read w) (chain_of Write w @ [d])"
  shows "\<exists>w'. grant_now Write d ci w = Some (Done THR_LOCK_SUCCESS, w') \<and> request_done w d (Done THR_LOCK_SUCCESS) w'"
proof -
  obtain w' where w': "grant_now Write d ci w = Some (Done THR_LOCK_SUCCESS, w')" by (simp add: grant_now_def)
  then have f: "chain (lock w') = (chain (lock w))(Write := chain_of Write w @ [d])" "datas w' = datas w" "same_env w w'"
    "read_no_write_count (lock w') = read_no_write_count (lock w)"
    by (auto simp: grant_now_def lock_ops same_env_def)
  have "lock_ok (datas w') (chain (lock w')) (read_no_write_count (lock w'))"
    unfolding f using ok out ty run by (intro lock_ok_link_run) (auto simp: world_ok_def)
  then have "world_ok w'" using ok f(1-3) by (simp add: world_ok_def same_env_def)
  moreover have "waits_kept w {d} w'" by (rule waits_kept_new) (auto simp: f)
  ultimately show ?thesis using w' f(1) by (auto simp: request_done_def not_stranded_def)
qed

lemma refused:
  assumes ok: "world_ok w" and ns: "not_stranded (chain (lock w))" and out: "\<not> in_chains (chain (lock w)) d"
  shows "\<exists>w'. refuse d w = Some (Done THR_LOCK_ABORTED, w') \<and> request_done w d (Done THR_LOCK_ABORTED) w'"
proof -
  let ?w = "set_type d TL_UNLOCK w"
  have "world_ok ?w"
    using ok out lock_ok_fresh [OF out] unfolding world_ok_def set_type_def in_chains_iff by auto
  moreover have "waits_kept w {d} ?w" by (rule waits_kept_new) (auto simp: set_type_def)
  ultimately show ?thesis using ns out by (simp add: refuse_def request_done_def set_type_def)
qed

lemma wait_linked:
  assumes ok: "world_ok w" and out: "\<not> in_chains (chain (lock w)) d" and c: "c \<noteq> 0"
    and q: "q = Read_Wait \<and> is_read (type_of w d) \<and>
        length (chain_of Read w) + length (chain_of Read_Wait w) + 1 < 2 ^ 32 \<or>
      q = Write_Wait \<and> is_write (type_of w d) \<and>
        (check_status (lock w) = None \<longrightarrow> type_of w d \<noteq> TL_WRITE_CONCURRENT_INSERT)"
    and w': "chain (lock w') = (chain (lock w))(q := ds)" "ds = chain_of q w @ [d] \<or> ds = d # chain_of q w"
      "datas w' = (datas w)(d := (datas w d)\<lparr>d_cond := c\<rparr>)"
      "same_env w w'" "read_no_write_count (lock w') = read_no_write_count (lock w)"
  shows "world_ok w'" "waits_kept w {d} w'" "d \<in> set (chain_of q w')"
    "chain_of Write w \<noteq> [] \<or> chain_of Read w \<noteq> [] \<and> (q = Write_Wait \<or> chain_of Write_Wait w \<noteq> []) \<Longrightarrow>
      not_stranded (chain (lock w'))"
proof -
  have "lock_ok (datas w') (chain (lock w')) (read_no_write_count (lock w'))"
    unfolding w'(1,3,5) using ok out c q w'(2) by (intro lock_ok_link_wait) (auto simp: world_ok_def)
  moreover have "d \<notin> set (chain_of Write_Wait w)" using out by (auto simp: in_chains_iff)
  ultimately show "world_ok w'"
    using ok q w'(2,4) unfolding world_ok_def w'(1,3) same_env_def by auto
  show "not_stranded (chain (lock w'))"
    if "chain_of Write w \<noteq> [] \<or> chain_of Read w \<noteq> [] \<and> (q = Write_Wait \<or> chain_of Write_Wait w \<noteq> [])"
    using that q w'(2) unfolding w'(1) not_stranded_def by auto
  show "waits_kept w {d} w'" by (rule waits_kept_new) (use w'(2) in \<open>auto simp: w'(1,3)\<close>)
  show "d \<in> set (chain_of q w')" using w'(2) unfolding w'(1) by auto
qed

lemma has_old_lock_iff: "has_old_lock dm ds owner \<longleftrightarrow> (\<exists>d\<in>set ds. d_owner (dm d) = owner)"
  by (induction ds) (auto simp: thr_lock_owner_equal_def)

lemma running_ok_head:
  assumes "running_ok dm rs (wr # ws)" "v \<in> set (wr # ws)"
  shows "at_least (d_type (dm wr)) (d_type (dm v))"
    "d_type (dm wr) = TL_WRITE_DELAYED \<Longrightarrow> v = wr"
    "d_owner (dm wr) = d_owner (dm v) \<or> d_type (dm wr) = TL_WRITE_ALLOW_WRITE \<and> d_type (dm v) = TL_WRITE_ALLOW_WRITE"
  using assms unfolding running_ok_def by (auto simp: at_least_def)

lemma at_least_below:
  assumes "at_least a b" "\<not> TL_WRITE_LOW_PRIORITY \<le> a"
  shows "b \<le> a"
  using assms by (simp add: at_least_def)

lemma write_le_cases:
  assumes "is_write b" "b \<le> a" "a = TL_WRITE_ALLOW_WRITE \<or> a = TL_WRITE_CONCURRENT_INSERT"
  shows "b = TL_WRITE_ALLOW_WRITE \<or> b = TL_WRITE_CONCURRENT_INSERT \<and> a = TL_WRITE_CONCURRENT_INSERT"
  using assms by (cases b) (auto simp: is_write_def thr_lock_type_order)

definition effective_type :: "thr_lock_type \<Rightarrow> lock_world \<Rightarrow> thr_lock_type" where
  "effective_type ty w =
     (if ty = TL_WRITE_CONCURRENT_INSERT \<and> check_status (lock w) = None
      then thr_upgraded_concurrent_insert_lock w else ty)"

text \<open>The callers' rule for requests: an owner asks for its write locks of one table from the
  strongest to the weakest.\<close>

definition request_ok :: "ptr \<Rightarrow> thr_lock_type \<Rightarrow> lock_world \<Rightarrow> bool" where
  "request_ok owner ty w \<longleftrightarrow>
     (\<forall>v\<in>set (chain_of Write w). owner_of w v = owner \<longrightarrow> type_of w v \<noteq> TL_WRITE_DELAYED \<and>
        (effective_type ty w \<le> type_of w v \<or> effective_type ty w = TL_WRITE \<and> type_of w v = TL_WRITE_LOW_PRIORITY))"

definition wait_done :: "lock_world \<Rightarrow> ptr \<Rightarrow> ptr \<Rightarrow> (lock_outcome \<times> lock_world) option \<Rightarrow> bool" where
  "wait_done w d self res \<longleftrightarrow> (\<exists>out w'. map_option (begin_wait d False self) res = Some (out, w') \<and> request_done w d out w')"

lemma wait_doneI:
  "res = Some (Done r, w') \<Longrightarrow> request_done w d (Done r) w' \<Longrightarrow> wait_done w d self res"
  by (simp add: wait_done_def begin_wait_def)

lemma wait_done_wait:
  assumes ok: "world_ok w" and ns: "not_stranded (chain (lock w))" and out: "\<not> in_chains (chain (lock w)) d"
    and self: "self \<noteq> 0"
    and q: "q = Read_Wait \<and> is_read (type_of w d) \<and>
        length (chain_of Read w) + length (chain_of Read_Wait w) + 1 < 2 ^ 32 \<or>
      q = Write_Wait \<and> is_write (type_of w d) \<and>
        (check_status (lock w) = None \<longrightarrow> type_of w d \<noteq> TL_WRITE_CONCURRENT_INSERT)"
    and held: "chain_of Write w \<noteq> [] \<or> chain_of Write_Wait w \<noteq> [] \<or> q = Write_Wait \<and> chain_of Read w \<noteq> []"
  shows "wait_done w d self (Some (Wait q, w))"
proof -
  let ?w = "wait_for_lock_enter q d False self w"
  have h: "chain_of Write w \<noteq> [] \<or> chain_of Read w \<noteq> [] \<and> (q = Write_Wait \<or> chain_of Write_Wait w \<noteq> [])"
    using held ns unfolding not_stranded_def by auto
  have f: "chain (lock ?w) = (chain (lock w))(q := chain_of q w @ [d])"
    "datas ?w = (datas w)(d := (datas w d)\<lparr>d_cond := self\<rparr>)" "same_env w ?w"
    "read_no_write_count (lock ?w) = read_no_write_count (lock w)"
    by (simp_all add: wait_for_lock_enter_def lock_ops same_env_def)
  have "request_done w d (Wait q) ?w"
    using wait_linked [OF ok out self q f(1) disjI1 [OF refl] f(2-4)] h q by (auto simp: request_done_def)
  then show ?thesis by (simp add: wait_done_def begin_wait_def)
qed

lemma thr_lock_read_ok:
  assumes ok: "world_ok w" and ns: "not_stranded (chain (lock w))" and out: "\<not> in_chains (chain (lock w)) d"
    and ty: "is_read (type_of w d)" "cond_of w d = 0" and self: "self \<noteq> 0"
    and len: "length (chain_of Read w) + length (chain_of Read_Wait w) + 1 < 2 ^ 32"
  shows "wait_done w d self (thr_lock_read d (type_of w d) w)"
proof (cases "chain_of Write w")
  case Nil
  then show ?thesis
    using granted_read [OF ok ns out ty len] wait_done_wait [OF ok ns out self, of Read_Wait] ty(1) len
    by (auto simp: thr_lock_read_def intro: wait_doneI)
next
  case (Cons wr ws)
  note run = world_ok_chains(7) [OF ok, unfolded Cons]
  have wr: "is_write (type_of w wr)" using world_ok_chains(4) [OF ok, of wr] Cons by simp
  show ?thesis
  proof (cases "owner_of w d = owner_of w wr \<or>
      type_of w wr \<le> TL_WRITE_DELAYED \<and> (type_of w d \<le> TL_READ_HIGH_PRIORITY \<or> type_of w wr \<noteq> TL_WRITE_CONCURRENT_INSERT)")
    case True
    have "owner_of w d = owner_of w v \<or> compatible (type_of w v) (type_of w d)" if v: "v \<in> set (chain_of Write w)" for v
    proof (cases "owner_of w d = owner_of w wr")
      case True
      then show ?thesis using running_ok_head(3) [OF run, of v] v Cons by auto
    next
      case False
      with True have t: "\<not> TL_WRITE_LOW_PRIORITY \<le> type_of w wr"
        "type_of w d \<le> TL_READ_HIGH_PRIORITY \<or> type_of w wr \<noteq> TL_WRITE_CONCURRENT_INSERT"
        using below_low_iff [OF wr] by auto
      have iv: "is_write (type_of w v)" "type_of w v \<le> type_of w wr"
        using world_ok_chains(4) [OF ok v] at_least_below [OF running_ok_head(1) [OF run] t(1)] v Cons by auto
      have ni: "\<not> TL_READ_NO_INSERT \<le> TL_READ_HIGH_PRIORITY" by (simp add: thr_lock_type_order)
      show ?thesis
        using write_below_low [OF wr t(1)] write_le_cases [OF iv] running_ok_head(2) [OF run, of v] v Cons t(2) ni by auto
    qed
    then show ?thesis
      using True Cons granted_read [OF ok ns out ty len]
      by (auto simp: thr_lock_read_def thr_lock_owner_equal_def intro: wait_doneI)
  next
    case False
    show ?thesis
    proof (cases "type_of w wr = TL_WRITE_ONLY")
      case True
      then show ?thesis using False Cons refused [OF ok ns out]
        by (auto simp: thr_lock_read_def thr_lock_owner_equal_def intro: wait_doneI)
    next
      case wait: False
      have "thr_lock_read d (type_of w d) w = Some (Wait Read_Wait, w)"
        using False wait Cons by (auto simp: thr_lock_read_def thr_lock_owner_equal_def)
      then show ?thesis using wait_done_wait [OF ok ns out self, of Read_Wait] ty(1) len Cons by simp
    qed
  qed
qed

lemma thr_lock_write_locked_ok:
  assumes ok: "world_ok w" and ns: "not_stranded (chain (lock w))" and out: "\<not> in_chains (chain (lock w)) d"
    and ty: "is_write (type_of w d)" "cond_of w d = 0" and self: "self \<noteq> 0"
    and ci: "check_status (lock w) = None \<longrightarrow> type_of w d \<noteq> TL_WRITE_CONCURRENT_INSERT"
    and wr: "chain_of Write w = wr # ws"
    and req: "\<forall>v\<in>set (chain_of Write w). owner_of w v = owner_of w d \<longrightarrow> type_of w v \<noteq> TL_WRITE_DELAYED \<and>
        (type_of w d \<le> type_of w v \<or> type_of w d = TL_WRITE \<and> type_of w v = TL_WRITE_LOW_PRIORITY)"
    and nd: "type_of w d \<noteq> TL_WRITE_DELAYED"
  shows "wait_done w d self (thr_lock_write_locked d (type_of w d) wr w)"
proof -
  let ?ws = "chain_of Write w"
  let ?old = "has_old_lock (datas w) ?ws (owner_of w d)"
  let ?shared = "type_of w d = TL_WRITE_ALLOW_WRITE \<and> chain_of Write_Wait w = [] \<and> type_of w wr = TL_WRITE_ALLOW_WRITE"
  note run = world_ok_chains(7) [OF ok]
  have wv: "is_write (type_of w v)" if "v \<in> set ?ws" for v using world_ok_chains(4) [OF ok that] by simp
  have pair: "owner_of w u = owner_of w v \<or> type_of w u = TL_WRITE_ALLOW_WRITE \<and> type_of w v = TL_WRITE_ALLOW_WRITE"
    if "u \<in> set ?ws" "v \<in> set ?ws" for u v using run that unfolding running_ok_def by blast
  have nl: "\<not> TL_WRITE_LOW_PRIORITY \<le> TL_WRITE_ALLOW_WRITE" "\<not> TL_WRITE_LOW_PRIORITY \<le> TL_WRITE_DELAYED"
    "\<not> TL_WRITE \<le> TL_WRITE_DELAYED" by (simp_all add: thr_lock_type_order)
  have all: "(\<forall>v\<in>set ?ws. type_of w v = TL_WRITE_ALLOW_WRITE) \<and> type_of w d = TL_WRITE_ALLOW_WRITE \<or>
      (\<forall>v\<in>set ?ws. owner_of w v = owner_of w d)" if g: "?shared \<or> ?old"
  proof (cases ?shared)
    case True
    have "type_of w v = TL_WRITE_ALLOW_WRITE" if v: "v \<in> set ?ws" for v
      using write_le_cases [OF wv [OF v], of TL_WRITE_ALLOW_WRITE] at_least_below [OF running_ok_head(1) [OF run [unfolded wr]], of v]
        True nl v wr by auto
    then show ?thesis using True by blast
  next
    case False
    then obtain v where v: "v \<in> set ?ws" "owner_of w v = owner_of w d" using g unfolding has_old_lock_iff by auto
    show ?thesis
    proof (cases "\<forall>u\<in>set ?ws. owner_of w u = owner_of w d")
      case False
      then obtain u where u: "u \<in> set ?ws" "owner_of w u \<noteq> owner_of w d" by blast
      have aw: "type_of w x = TL_WRITE_ALLOW_WRITE" if "x \<in> set ?ws" for x
        using pair [OF that v(1)] pair [OF that u(1)] u(2) v(2) by auto
      moreover have "type_of w d = TL_WRITE_ALLOW_WRITE"
        using req v aw [OF v(1)] write_le_cases [OF ty(1), of TL_WRITE_ALLOW_WRITE] by auto
      ultimately show ?thesis by blast
    qed blast
  qed
  have grant: "running_ok (datas w) (chain_of Read w) (?ws @ [d])" if g: "?shared \<or> ?old"
    using all [OF g]
  proof
    assume "(\<forall>v\<in>set ?ws. type_of w v = TL_WRITE_ALLOW_WRITE) \<and> type_of w d = TL_WRITE_ALLOW_WRITE"
    then show ?thesis by (intro running_ok_add_write [OF run]) (auto simp: at_least_def)
  next
    assume own: "\<forall>v\<in>set ?ws. owner_of w v = owner_of w d"
    have wrs: "wr \<in> set ?ws" using wr by simp
    have "compatible (type_of w d) (type_of w r)" if r: "r \<in> set (chain_of Read w)" "owner_of w r \<noteq> owner_of w d" for r
    proof -
      have c: "compatible (type_of w wr) (type_of w r)" using run own wrs r unfolding running_ok_def by metis
      have "type_of w wr = TL_WRITE_ALLOW_WRITE \<or> type_of w wr = TL_WRITE_CONCURRENT_INSERT"
        using c write_below_low [OF wv [OF wrs]] below_low_iff [OF wv [OF wrs]] req own wrs
        by (auto simp: compatible_def)
      moreover from this have "type_of w d \<le> type_of w wr" using req own wrs by auto
      ultimately show ?thesis using write_le_cases [OF ty(1), of "type_of w wr"] c by auto
    qed
    then show ?thesis using own req nd by (intro running_ok_add_write [OF run]) (auto simp: at_least_def)
  qed
  have "\<not> ?old \<or> (type_of w d \<le> type_of w wr \<or> type_of w d = TL_WRITE \<and> type_of w wr = TL_WRITE_LOW_PRIORITY) \<and>
      type_of w wr \<noteq> TL_WRITE_DELAYED"
    using all req wr by auto
  moreover have "wait_done w d self (Some (Wait Write_Wait, w))"
    using wait_done_wait [OF ok ns out self, of Write_Wait] ty(1) ci wr by simp
  ultimately show ?thesis
    using granted_write [OF ok out ty grant] refused [OF ok ns out]
    by (auto simp: thr_lock_write_locked_def intro: wait_doneI)
qed

lemma thr_lock_write_free_ok:
  assumes ok: "world_ok w" and ns: "not_stranded (chain (lock w))" and out: "\<not> in_chains (chain (lock w)) d"
    and ty: "is_write (type_of w d)" "cond_of w d = 0" and self: "self \<noteq> 0"
    and ci: "check_status (lock w) = None \<longrightarrow> type_of w d \<noteq> TL_WRITE_CONCURRENT_INSERT"
    and free: "chain_of Write w = []"
  shows "wait_done w d self (thr_lock_write_free d (type_of w d) w)"
proof (cases "chain_of Write_Wait w = []")
  case False
  then show ?thesis using wait_done_wait [OF ok ns out self, of Write_Wait] ty(1) ci
    by (simp add: thr_lock_write_free_def)
next
  case True
  let ?bad = "type_of w d = TL_WRITE_CONCURRENT_INSERT \<and> the (check_status (lock w)) (d_status_param (datas w d))"
  let ?lt = "if ?bad then thr_upgraded_concurrent_insert_lock w else type_of w d"
  let ?ci = "type_of w d = TL_WRITE_CONCURRENT_INSERT \<and> \<not> ?bad"
  obtain w1 where w1: "w1 = (if ?bad then set_type d ?lt w else w)" by blast
  have up: "is_write (thr_upgraded_concurrent_insert_lock w)" "thr_upgraded_concurrent_insert_lock w \<noteq> TL_WRITE_CONCURRENT_INSERT"
    using ok unfolding world_ok_def by (auto simp: is_write_def thr_lock_type_order)
  have f: "chain (lock w1) = chain (lock w)" "type_of w1 d = ?lt" "cond_of w1 d = 0" "lock w1 = lock w"
    "\<And>x. x \<noteq> d \<Longrightarrow> datas w1 x = datas w x"
    using ty(2) by (simp_all add: w1 set_type_def)
  have ok1: "world_ok w1"
    using ok lock_ok_fresh [OF out] out unfolding world_ok_def w1 set_type_def in_chains_iff by auto
  have k: "waits_kept w {d} w1" by (rule waits_kept_new) (simp_all add: f)
  have lt: "is_write ?lt" using ty(1) up by simp
  have eq: "thr_lock_write_free d (type_of w d) w =
      (if chain_of Read w = [] \<or> (?lt \<le> TL_WRITE_DELAYED \<and> (\<not> shares_with_insert ?lt \<or> read_no_write_count (lock w) = 0))
       then grant_now Write d ?ci w1 else Some (Wait Write_Wait, w1))"
    using True ci by (auto simp: thr_lock_write_free_def call_check_status_def w1 set_type_def Let_def)
  have "wait_done w1 d self (thr_lock_write_free d (type_of w d) w)"
  proof (cases "chain_of Read w = [] \<or> (?lt \<le> TL_WRITE_DELAYED \<and> (\<not> shares_with_insert ?lt \<or> read_no_write_count (lock w) = 0))")
    case g: True
    have "compatible ?lt (type_of w1 r)" if "r \<in> set (chain_of Read w1)" for r
    proof -
      have "?lt \<le> TL_WRITE_DELAYED \<and> (\<not> shares_with_insert ?lt \<or> (\<forall>r\<in>set (chain_of Read w1). type_of w1 r \<noteq> TL_READ_NO_INSERT))"
        using g that f(1,4) world_ok_chains(8) [OF ok1] no_insert_count_zero [of "datas w1" "chain_of Read w1"] by auto
      then show ?thesis using that write_below_low [OF lt] below_low_iff [OF lt] by (auto simp: shares_with_insert_def)
    qed
    then have "running_ok (datas w1) (chain_of Read w1) (chain_of Write w1 @ [d])"
      using free f(1,2) by (intro running_ok_add_write) auto
    then show ?thesis
      using granted_write [OF ok1, of d ?ci] out lt f eq g by (auto intro: wait_doneI)
  next
    case False
    then have "thr_lock_write_free d (type_of w d) w = Some (Wait Write_Wait, w1)" unfolding eq by (simp only: if_False)
    then show ?thesis
      using wait_done_wait [OF ok1, of d self Write_Wait] ns out self lt up ci f False by simp
  qed
  then show ?thesis
    using waits_kept_trans [OF k] unfolding wait_done_def request_done_def by blast
qed

lemma thr_lock_write_ok:
  assumes ok: "world_ok w" and ns: "not_stranded (chain (lock w))" and out: "\<not> in_chains (chain (lock w)) d"
    and ty: "is_write (type_of w d)" "cond_of w d = 0" and self: "self \<noteq> 0"
    and req: "request_ok (owner_of w d) (type_of w d) w"
  shows "wait_done w d self (thr_lock_write d (type_of w d) self w)"
proof -
  let ?delayed = "type_of w d = TL_WRITE_DELAYED \<and> (chain_of Write w \<noteq> [] \<or> chain_of Read w \<noteq> [])"
  let ?only = "type_of w d = TL_WRITE_DELAYED \<and> chain_of Write w \<noteq> [] \<and> type_of w (hd (chain_of Write w)) = TL_WRITE_ONLY"
  consider "?only" | "\<not> ?only" "?delayed" | "\<not> ?delayed" by blast
  then show ?thesis
  proof cases
    case 1
    then show ?thesis using refused [OF ok ns out] by (auto simp: thr_lock_write_def intro: wait_doneI)
  next
    case 2
    let ?w = "inc_locks_immediate (set_cond d self (link_last Write_Wait d w))"
    have f: "chain (lock ?w) = (chain (lock w))(Write_Wait := chain_of Write_Wait w @ [d])"
      "datas ?w = (datas w)(d := (datas w d)\<lparr>d_cond := self\<rparr>)" "same_env w ?w"
      "read_no_write_count (lock ?w) = read_no_write_count (lock w)"
      by (simp_all add: lock_ops same_env_def)
    have "request_done w d (Done THR_LOCK_SUCCESS) ?w"
      using wait_linked [OF ok out self _ f(1) disjI1 [OF refl] f(2-4)] 2 ty(1)
      by (auto simp: request_done_def f(2))
    moreover have "thr_lock_write d (type_of w d) self w = Some (Done THR_LOCK_SUCCESS, ?w)"
      using 2 by (auto simp: thr_lock_write_def)
    ultimately show ?thesis by (intro wait_doneI)
  next
    case 3
    let ?up = "type_of w d = TL_WRITE_CONCURRENT_INSERT \<and> check_status (lock w) = None"
    let ?lt = "effective_type (type_of w d) w"
    obtain w1 where w1: "w1 = (if ?up then set_type d ?lt w else w)" by blast
    have f: "lock w1 = lock w" "type_of w1 d = ?lt" "cond_of w1 d = 0" "owner_of w1 d = owner_of w d"
      "\<And>x. x \<noteq> d \<Longrightarrow> datas w1 x = datas w x"
      using ty(2) by (auto simp: w1 set_type_def effective_type_def)
    have ok1: "world_ok w1"
      using ok lock_ok_fresh [OF out] out unfolding world_ok_def w1 set_type_def in_chains_iff by auto
    have k: "waits_kept w {d} w1" by (rule waits_kept_new) (simp_all add: f)
    have up: "thr_upgraded_concurrent_insert_lock w \<in> {TL_WRITE_LOW_PRIORITY, TL_WRITE}"
      using ok unfolding world_ok_def by auto
    have lt: "is_write (type_of w1 d)" "check_status (lock w1) = None \<longrightarrow> type_of w1 d \<noteq> TL_WRITE_CONCURRENT_INSERT"
      unfolding f(1,2) using ty(1) up by (auto simp: effective_type_def is_write_def thr_lock_type_order)
    have "thr_lock_write d (type_of w d) self w =
        (case chain_of Write w1 of wr # _ \<Rightarrow> thr_lock_write_locked d (type_of w1 d) wr w1
         | [] \<Rightarrow> thr_lock_write_free d (type_of w1 d) w1)"
      using 3 unfolding f(2) by (auto simp: thr_lock_write_def w1 Let_def effective_type_def set_type_def split: list.split)
    moreover have "wait_done w1 d self (thr_lock_write_free d (type_of w1 d) w1)" if "chain_of Write w1 = []"
      using thr_lock_write_free_ok [OF ok1 _ _ lt(1) f(3) self lt(2) that] ns out f(1) by simp
    moreover have "wait_done w1 d self (thr_lock_write_locked d (type_of w1 d) wr w1)" if wr: "chain_of Write w1 = wr # ws" for wr ws
    proof (rule thr_lock_write_locked_ok [OF ok1 _ _ lt(1) f(3) self lt(2) wr])
      have "type_of w1 v = type_of w v" "owner_of w1 v = owner_of w v" if "v \<in> set (chain_of Write w)" for v
        using that out f(5) [of v] by (cases "v = d"; auto simp: in_chains_iff)+
      then show "\<forall>v\<in>set (chain_of Write w1). owner_of w1 v = owner_of w1 d \<longrightarrow> type_of w1 v \<noteq> TL_WRITE_DELAYED \<and>
          (type_of w1 d \<le> type_of w1 v \<or> type_of w1 d = TL_WRITE \<and> type_of w1 v = TL_WRITE_LOW_PRIORITY)"
        using req unfolding request_ok_def f(1,2,4) by auto
      show "type_of w1 d \<noteq> TL_WRITE_DELAYED" using 3 wr up unfolding f(1,2) by (auto simp: effective_type_def)
    qed (use ns out f(1) in auto)
    ultimately have "wait_done w1 d self (thr_lock_write d (type_of w d) self w)"
      by (cases "chain_of Write w1") auto
    then show ?thesis using waits_kept_trans [OF k] unfolding wait_done_def request_done_def by blast
  qed
qed

lemma thr_lock_ok:
  assumes ok: "world_ok w" and ns: "not_stranded (chain (lock w))" and out: "\<not> in_chains (chain (lock w)) d"
    and ty: "is_read ty \<or> is_write ty" and self: "self \<noteq> 0"
    and len: "length (chain_of Read w) + length (chain_of Read_Wait w) + 1 < 2 ^ 32"
    and req: "is_write ty \<longrightarrow> request_ok owner ty w"
  shows "\<exists>res w'. thr_lock d owner ty self w = Some (res, w') \<and> request_done w d res w'"
proof -
  obtain w1 where w1: "w1 = w\<lparr>datas := (datas w)(d := (datas w d)\<lparr>d_cond := 0, d_type := ty, d_owner := owner\<rparr>)\<rparr>" by blast
  have f: "lock w1 = lock w" "type_of w1 d = ty" "cond_of w1 d = 0" "owner_of w1 d = owner"
    "\<And>x. x \<noteq> d \<Longrightarrow> datas w1 x = datas w x" by (simp_all add: w1)
  have ok1: "world_ok w1"
    using ok lock_ok_fresh [OF out] out unfolding world_ok_def w1 in_chains_iff by auto
  have k: "waits_kept w {d} w1" by (rule waits_kept_new) (simp_all add: f)
  have ord: "is_read ty \<Longrightarrow> ty \<le> TL_READ_NO_INSERT" "is_write ty \<Longrightarrow> \<not> ty \<le> TL_READ_NO_INSERT"
    by (auto simp: is_read_def is_write_def thr_lock_type_order)
  have eq: "thr_lock d owner ty self w = map_option (begin_wait d False self)
      (if ty \<le> TL_READ_NO_INSERT then thr_lock_read d (type_of w1 d) w1 else thr_lock_write d (type_of w1 d) self w1)"
    by (simp add: thr_lock_def w1)
  have "wait_done w1 d self
      (if ty \<le> TL_READ_NO_INSERT then thr_lock_read d (type_of w1 d) w1 else thr_lock_write d (type_of w1 d) self w1)"
  proof (cases "is_read ty")
    case True
    then show ?thesis using thr_lock_read_ok [OF ok1, of d self] ns out f self len ord(1) by simp
  next
    case False
    then have wt: "is_write ty" using ty by blast
    have e: "effective_type ty w1 = effective_type ty w" by (simp add: effective_type_def w1)
    have "\<forall>v\<in>set (chain_of Write w). datas w1 v = datas w v"
      using out f(5) by (metis in_chains_iff)
    then have "request_ok (owner_of w1 d) (type_of w1 d) w1"
      using req wt e unfolding request_ok_def f(1,2,4) by simp
    then show ?thesis using thr_lock_write_ok [OF ok1, of d self] ns out f self wt ord(2) by simp
  qed
  then show ?thesis using waits_kept_trans [OF k] unfolding eq wait_done_def request_done_def by blast
qed

lemma abort_loop_spec:
  assumes "distinct ds" "\<forall>d\<in>set ds. cond_of w d \<noteq> 0"
  shows "\<exists>w'. abort_loop ds w = Some w' \<and> same_env w w' \<and> lock w' = lock w \<and>
    datas w' = (\<lambda>d. if d \<in> set ds then (datas w d)\<lparr>d_type := TL_UNLOCK, d_cond := 0\<rparr> else datas w d)"
  using assms
proof (induction ds arbitrary: w)
  case Nil
  then show ?case by (simp add: same_env_def)
next
  case (Cons d ds)
  let ?w = "set_cond d 0 (add_event (Cond_signal (cond_of w d)) (set_type d TL_UNLOCK w))"
  have "abort_loop (d # ds) w = abort_loop ds ?w"
    using Cons.prems by (simp add: lock_ops cond_signal_def)
  moreover have "\<exists>w'. abort_loop ds ?w = Some w' \<and> same_env ?w w' \<and> lock w' = lock ?w \<and>
    datas w' = (\<lambda>d. if d \<in> set ds then (datas ?w d)\<lparr>d_type := TL_UNLOCK, d_cond := 0\<rparr> else datas ?w d)"
    using Cons.prems by (intro Cons.IH) (auto simp: lock_ops)
  ultimately show ?case using Cons.prems(1)
    by (auto simp: lock_ops same_env_def fun_eq_iff cong: if_cong)
qed

lemma lock_ok_retype_run:
  assumes ok: "lock_ok dm ch n" and d: "d \<in> set (ch Write)" and ty: "is_write ty"
    and run: "running_ok (dm(d := (dm d)\<lparr>d_type := ty\<rparr>)) (ch Read) (ch Write)"
  shows "lock_ok (dm(d := (dm d)\<lparr>d_type := ty\<rparr>)) ch n"
proof -
  let ?dm = "dm(d := (dm d)\<lparr>d_type := ty\<rparr>)"
  have notin: "d \<notin> set (ch Read)" "d \<notin> set (ch Write_Wait)" "d \<notin> set (ch Read_Wait)"
    using ok d by (auto simp: lock_ok_def chains_ok_def)
  have "no_insert_count ?dm (ch Read) = no_insert_count dm (ch Read)"
    using notin by (intro no_insert_count_cong) auto
  moreover have "chains_ok ?dm ch" using ok ty notin unfolding lock_ok_def chains_ok_def by auto
  ultimately show ?thesis using ok run by (simp add: lock_ok_def)
qed

text \<open>The strength of a running write lock is changed while no other owner holds a lock.\<close>

lemma retype_run_ok:
  assumes ok: "world_ok w" and d: "d \<in> set (chain_of Write w)" and ty: "is_write ty"
    and sole: "\<forall>x\<in>set (chain_of Read w) \<union> set (chain_of Write w). owner_of w x = owner_of w d"
    and sorted: "sorted_wrt (\<lambda>u v. at_least (if u = d then ty else type_of w u) (if v = d then ty else type_of w v)) (chain_of Write w)"
    and delayed: "chain_of Write w = [d] \<or> ty \<noteq> TL_WRITE_DELAYED"
  shows "world_ok (set_type d ty w)" "waits_kept w D (set_type d ty w)"
proof -
  let ?dm = "(datas w)(d := (datas w d)\<lparr>d_type := ty\<rparr>)"
  have o: "d_owner (?dm x) = owner_of w x" for x by simp
  have "sorted_wrt (\<lambda>u v. at_least (d_type (?dm u)) (d_type (?dm v))) (chain_of Write w)"
    using sorted by (simp add: if_distrib cong: if_cong)
  moreover have "\<forall>v\<in>set (chain_of Write w). d_type (?dm v) = TL_WRITE_DELAYED \<longrightarrow> chain_of Write w = [v]"
    using world_ok_chains(7) [OF ok] delayed unfolding running_ok_def by auto
  ultimately have "running_ok ?dm (chain_of Read w) (chain_of Write w)"
    using sole unfolding running_ok_def o by auto
  then have "lock_ok ?dm (chain (lock w)) (read_no_write_count (lock w))"
    using ok d ty by (intro lock_ok_retype_run) (auto simp: world_ok_def)
  moreover have "d \<notin> set (chain_of Write_Wait w)" using world_ok_chains(1) [OF ok] d by auto
  ultimately show "world_ok (set_type d ty w)" using ok by (auto simp: world_ok_def set_type_def)
  show "waits_kept w D (set_type d ty w)"
    using d world_ok_chains(4) [OF ok d] by (auto simp: waits_kept_def wait_ok_def set_type_def)
qed

lemma lock_ok_clear_waits:
  assumes "lock_ok dm ch n"
    and "\<And>d. d \<in> set (ch Read) \<union> set (ch Write) \<Longrightarrow> dm' d = dm d"
  shows "lock_ok dm' (ch(Read_Wait := [], Write_Wait := [])) n"
proof -
  have "running_ok dm' (ch Read) (ch Write) = running_ok dm (ch Read) (ch Write)"
    using assms(2) by (intro running_ok_cong) auto
  moreover have "no_insert_count dm' (ch Read) = no_insert_count dm (ch Read)"
    using assms(2) by (intro no_insert_count_cong) auto
  moreover have "chains_ok dm' (ch(Read_Wait := [], Write_Wait := []))"
    using assms unfolding lock_ok_def chains_ok_def by auto
  ultimately show ?thesis using assms(1) by (simp add: lock_ok_def)
qed

text \<open>A lock may be made exclusive only when no other owner holds a lock.\<close>

definition sole_owner :: "ptr \<Rightarrow> lock_world \<Rightarrow> bool" where
  "sole_owner d w \<longleftrightarrow> (\<forall>x\<in>set (chain_of Read w) \<union> set (chain_of Write w). owner_of w x = owner_of w d)"

lemma thr_abort_locks_ok:
  assumes ok: "world_ok w"
    and up: "up \<Longrightarrow> chain_of Write w \<noteq> [] \<Longrightarrow> sole_owner (hd (chain_of Write w)) w"
  shows "\<exists>w'. thr_abort_locks up w = Some w' \<and> world_ok w' \<and> not_stranded (chain (lock w')) \<and> waits_kept w {} w' \<and>
    frame w {} w'"
proof -
  note ch = world_ok_chains [OF ok]
  let ?rw = "chain_of Read_Wait w" and ?ww = "chain_of Write_Wait w"
  obtain w1 where w1: "abort_loop ?rw w = Some w1" "same_env w w1" "lock w1 = lock w"
    "datas w1 = (\<lambda>d. if d \<in> set ?rw then (datas w d)\<lparr>d_type := TL_UNLOCK, d_cond := 0\<rparr> else datas w d)"
    using abort_loop_spec [of ?rw w] ch(1,3) by auto
  have c2: "\<forall>d\<in>set ?ww. cond_of w1 d \<noteq> 0" unfolding w1(4) using ch(1,5) by auto
  obtain w2 where w2: "abort_loop ?ww w1 = Some w2" "same_env w1 w2" "lock w2 = lock w1"
    "datas w2 = (\<lambda>d. if d \<in> set ?ww then (datas w1 d)\<lparr>d_type := TL_UNLOCK, d_cond := 0\<rparr> else datas w1 d)"
    using abort_loop_spec [OF _ c2] ch(1) by auto
  let ?w3 = "set_chain Write_Wait [] (set_chain Read_Wait [] w2)"
  have d3: "datas ?w3 = (\<lambda>d. if d \<in> set ?rw \<union> set ?ww then (datas w d)\<lparr>d_type := TL_UNLOCK, d_cond := 0\<rparr> else datas w d)"
    by (auto simp: lock_ops w1(4) w2(4) fun_eq_iff)
  have c3: "chain (lock ?w3) = (chain (lock w))(Read_Wait := [], Write_Wait := [])"
    "read_no_write_count (lock ?w3) = read_no_write_count (lock w)" "same_env w ?w3"
    using w1(2,3) w2(2,3) by (simp_all add: lock_ops same_env_def)
  have "lock_ok (datas ?w3) (chain (lock ?w3)) (read_no_write_count (lock ?w3))"
    unfolding c3 d3 using ok ch(1) by (intro lock_ok_clear_waits [where dm = "datas w"]) (auto simp: world_ok_def)
  then have ok3: "world_ok ?w3" using ok c3 unfolding world_ok_def same_env_def by simp
  have k3: "waits_kept w {} ?w3"
    using ch(1) unfolding waits_kept_def wait_ok_def c3 d3 by auto
  have f3: "frame w {} ?w3"
    unfolding frame_def type_kept_def in_chains_iff c3 d3 by auto
  have eq: "thr_abort_locks up w =
      Some (if up \<and> chain_of Write w \<noteq> [] then set_type (hd (chain_of Write w)) TL_WRITE_ONLY ?w3 else ?w3)"
    using w1(1,3) w2(1,3) by (simp add: thr_abort_locks_def lock_ops Let_def)
  show ?thesis
  proof (cases "up \<and> chain_of Write w \<noteq> []")
    case False
    then show ?thesis using eq ok3 k3 f3 c3 by (auto simp: not_stranded_def)
  next
    case True
    then obtain wr ws where wr: "chain_of Write w = wr # ws" by (cases "chain_of Write w") auto
    let ?w4 = "set_type wr TL_WRITE_ONLY ?w3"
    have same: "datas ?w3 x = datas w x" if "x \<in> set (chain_of Read w) \<union> set (wr # ws)" for x
      unfolding d3 using that ch(1) wr by auto
    have t: "is_write TL_WRITE_ONLY" "TL_WRITE_ONLY \<noteq> TL_WRITE_DELAYED" "\<And>x. at_least TL_WRITE_ONLY x"
    proof -
      show "at_least TL_WRITE_ONLY x" for x by (cases x) (simp_all add: at_least_def thr_lock_type_order)
    qed (simp_all add: is_write_def thr_lock_type_order)
    have s0: "sorted_wrt (\<lambda>u v. at_least (type_of w u) (type_of w v)) ws" "wr \<notin> set ws"
      using ch(1,7) wr unfolding running_ok_def by auto
    have "sorted_wrt (\<lambda>u v. at_least (if u = wr then TL_WRITE_ONLY else type_of ?w3 u)
        (if v = wr then TL_WRITE_ONLY else type_of ?w3 v)) ws =
      sorted_wrt (\<lambda>u v. at_least (type_of w u) (type_of w v)) ws"
      using s0(2) same by (intro sorted_wrt_same) auto
    then have srt: "sorted_wrt (\<lambda>u v. at_least (if u = wr then TL_WRITE_ONLY else type_of ?w3 u)
        (if v = wr then TL_WRITE_ONLY else type_of ?w3 v)) (chain_of Write ?w3)"
      using s0 t(3) by (simp add: c3 wr)
    have "\<forall>x\<in>set (chain_of Read ?w3) \<union> set (chain_of Write ?w3). owner_of ?w3 x = owner_of ?w3 wr"
      using up True wr same by (simp add: c3 sole_owner_def)
    then have "world_ok ?w4" "waits_kept ?w3 {} ?w4"
      using retype_run_ok [OF ok3 _ t(1) _ srt] t(2) by (auto simp: c3 wr)
    moreover from this have "waits_kept w {} ?w4" using waits_kept_trans [OF k3] by blast
    moreover have "is_write (type_of ?w3 wr)" using ch(4) [of wr] same [of wr] wr by simp
    then have "frame ?w3 {} ?w4" by (simp add: frame_def type_kept_def set_type_def t(1))
    then have "frame w {} ?w4" by (rule frame_trans [OF f3])
    ultimately show ?thesis using eq True wr c3 by (auto simp: not_stranded_def set_type_def)
  qed
qed

lemma abort_thread_loop_ok:
  assumes "world_ok w" "distinct ds" "set ds \<subseteq> set (chain_of q w)" "q \<in> {Read_Wait, Write_Wait}"
  shows "\<exists>f' w'. abort_thread_loop q tid ds f w = Some (f', w') \<and> world_ok w' \<and> waits_kept w {} w' \<and>
    frame w {} w' \<and> (\<forall>p. p \<noteq> q \<longrightarrow> chain_of p w' = chain_of p w)"
  using assms
proof (induction ds arbitrary: w f)
  case Nil
  then show ?case by (simp add: frame_def)
next
  case (Cons d ds)
  show ?case
  proof (cases "thread_id w (owner_of w d) = tid")
    case False
    then show ?thesis using Cons by simp
  next
    case True
    have d: "d \<in> set (chain_of q w)" "cond_of w d \<noteq> 0"
      using Cons.prems(3,4) world_ok_chains(3,5) [OF Cons.prems(1), of d] by auto
    obtain w1 where w1: "w1 = set_chain q (remove1 d (chain_of q w))
      (set_cond d 0 (add_event (Cond_signal (cond_of w d)) (set_type d TL_UNLOCK w)))" by blast
    have f: "chain (lock w1) = (chain (lock w))(q := remove1 d (chain_of q w))"
      "datas w1 = (datas w)(d := (datas w d)\<lparr>d_type := TL_UNLOCK, d_cond := 0\<rparr>)" "same_env w w1"
      "read_no_write_count (lock w1) =
        (if q = Read \<and> type_of w d = TL_READ_NO_INSERT then read_no_write_count (lock w) - 1
         else read_no_write_count (lock w))"
      using Cons.prems(4) by (auto simp: w1 lock_ops same_env_def)
    note u = unlink_ok [OF Cons.prems(1) d(1) f]
    have k: "waits_kept w {} w1" using u(3) f(2) by (auto simp: waits_kept_def wait_ok_def)
    have fr: "frame w {} w1"
      using Cons.prems(4) unfolding frame_def type_kept_def in_chains_iff f(1,2) by (auto dest!: subsetD [OF set_remove1_subset])
    have sub: "set ds \<subseteq> set (chain_of q w1)"
    proof
      fix x assume "x \<in> set ds"
      then have "x \<noteq> d" "x \<in> set (chain_of q w)" using Cons.prems(2,3) by auto
      then show "x \<in> set (chain_of q w1)" by (simp add: f(1) in_set_remove1)
    qed
    have "abort_thread_loop q tid (d # ds) f w = abort_thread_loop q tid ds True w1"
      using True d by (simp add: w1 cond_signal_def unlink_def lock_ops)
    moreover have "\<exists>f' w'. abort_thread_loop q tid ds True w1 = Some (f', w') \<and> world_ok w' \<and> waits_kept w1 {} w' \<and>
        frame w1 {} w' \<and> (\<forall>p. p \<noteq> q \<longrightarrow> chain_of p w' = chain_of p w1)"
      using Cons.prems sub by (intro Cons.IH u(1)) auto
    ultimately show ?thesis using waits_kept_trans [OF k] frame_trans [OF fr] f(1) by auto
  qed
qed

lemma thr_abort_locks_for_thread_ok:
  assumes ok: "world_ok w"
  shows "\<exists>f w'. thr_abort_locks_for_thread tid w = Some (f, w') \<and> world_ok w' \<and> not_stranded (chain (lock w')) \<and>
    waits_kept w {} w' \<and> frame w {} w'"
proof -
  have dist: "distinct (chain_of Read_Wait w)" "distinct (chain_of Write_Wait w)" using world_ok_chains(1) [OF ok] by auto
  obtain f1 w1 where 1: "abort_thread_loop Read_Wait tid (chain_of Read_Wait w) False w = Some (f1, w1)" "world_ok w1"
    "waits_kept w {} w1" "chain_of Write_Wait w1 = chain_of Write_Wait w" "frame w {} w1"
    using abort_thread_loop_ok [OF ok dist(1), of Read_Wait tid False] by auto
  obtain f2 w2 where 2: "abort_thread_loop Write_Wait tid (chain_of Write_Wait w1) f1 w1 = Some (f2, w2)" "world_ok w2"
    "waits_kept w1 {} w2" "frame w1 {} w2"
    using abort_thread_loop_ok [OF 1(2), of "chain_of Write_Wait w1" Write_Wait tid f1] dist(2) 1(4) by auto
  obtain w3 where 3: "wake_up_waiters w2 = Some w3" "world_ok w3" "advanced w2 w3" "not_stranded (chain (lock w3))"
    using wake_up_waiters_ok [OF 2(2)] by blast
  have "waits_kept w {} w3"
    using waits_kept_trans [OF waits_kept_trans [OF 1(3) 2(3)] advanced_waits_kept [OF 2(2) 3(3)]] .
  moreover have "frame w {} w3" by (rule frame_trans [OF frame_trans [OF 1(5) 2(4)] wake_up_frame [OF 2(2) 3(1)]])
  ultimately show ?thesis using 1(1) 2(1) 3 by (simp add: thr_abort_locks_for_thread_def)
qed

lemma thr_downgrade_write_lock_ok:
  assumes ok: "world_ok w" and d: "d \<in> set (chain_of Write w)" and ty: "type_of w d = TL_WRITE_ONLY"
    and new: "is_write new" "new < TL_WRITE_ONLY" "new \<noteq> TL_WRITE_DELAYED"
    and weaker: "\<forall>v\<in>set (chain_of Write w). v \<noteq> d \<longrightarrow> type_of w v \<le> new"
  shows "\<exists>w'. thr_downgrade_write_lock d new w = Some w' \<and> world_ok w' \<and> chain (lock w') = chain (lock w) \<and> waits_kept w {} w'"
proof -
  note run = world_ok_chains(7) [OF ok]
  have "\<not> compatible TL_WRITE_ONLY x" for x by (simp add: compatible_def thr_lock_type_order)
  then have sole: "\<forall>x\<in>set (chain_of Read w) \<union> set (chain_of Write w). owner_of w x = owner_of w d"
    using run d ty unfolding running_ok_def by (metis Un_iff thr_lock_type.distinct)
  have only: "at_least a new" if "at_least a TL_WRITE_ONLY" for a
    using that by (cases a; cases new) (simp_all add: at_least_def thr_lock_type_order)
  have "sorted_wrt (\<lambda>u v. at_least (if u = d then new else type_of w u) (if v = d then new else type_of w v)) (chain_of Write w)"
  proof (rule sorted_wrt_mono_rel)
    show "sorted_wrt (\<lambda>u v. at_least (type_of w u) (type_of w v)) (chain_of Write w)"
      using run by (simp add: running_ok_def)
    show "at_least (if u = d then new else type_of w u) (if v = d then new else type_of w v)"
      if "u \<in> set (chain_of Write w)" "v \<in> set (chain_of Write w)" "at_least (type_of w u) (type_of w v)" for u v
    proof (cases "v = d")
      case True
      then show ?thesis using that(3) only ty by (cases "u = d") (simp_all add: at_least_def)
    next
      case False
      then show ?thesis using that weaker by (cases "u = d") (simp_all add: at_least_def)
    qed
  qed
  then show ?thesis
    using retype_run_ok [OF ok d new(1) sole] new ty by (simp add: thr_downgrade_write_lock_def set_type_def)
qed

lemma set_cond_wait_ok:
  assumes ok: "world_ok w" and d: "d \<in> set (chain_of Write_Wait w)" and c: "c \<noteq> 0"
  shows "world_ok (set_cond d c w)" "waits_kept w D (set_cond d c w)"
proof -
  let ?dm = "(datas w)(d := (datas w d)\<lparr>d_cond := c\<rparr>)"
  note ch = world_ok_chains [OF ok]
  have notin: "d \<notin> set (chain_of Read w)" "d \<notin> set (chain_of Write w)" "d \<notin> set (chain_of Read_Wait w)"
    using ch(1) d by auto
  have "running_ok ?dm (chain_of Read w) (chain_of Write w) = running_ok (datas w) (chain_of Read w) (chain_of Write w)"
    by (rule running_ok_cong) auto
  moreover have "no_insert_count ?dm (chain_of Read w) = no_insert_count (datas w) (chain_of Read w)"
    by (rule no_insert_count_cong) auto
  moreover have "chains_ok ?dm (chain (lock w))"
    using ok c notin unfolding world_ok_def lock_ok_def chains_ok_def by auto
  ultimately have "lock_ok ?dm (chain (lock w)) (read_no_write_count (lock w))" using ok by (simp add: world_ok_def lock_ok_def)
  then show "world_ok (set_cond d c w)" using ok by (auto simp: world_ok_def set_cond_def)
  have "cond_of w d \<noteq> 0" using ch(5) [OF d] by blast
  then show "waits_kept w D (set_cond d c w)"
    using c d by (auto simp: waits_kept_def wait_ok_def set_cond_def)
qed

lemma low_is_write: "TL_WRITE_LOW_PRIORITY \<le> ty \<Longrightarrow> is_write ty \<and> ty \<noteq> TL_WRITE_DELAYED \<and> ty \<noteq> TL_WRITE_CONCURRENT_INSERT"
  by (cases ty) (simp_all add: is_write_def thr_lock_type_order)

lemma thr_upgrade_write_delay_lock_ok:
  assumes ok: "world_ok w" and ns: "not_stranded (chain (lock w))" and self: "self \<noteq> 0"
    and d: "d \<in> set (chain_of Write w) \<and> (type_of w d = TL_WRITE_DELAYED \<or> TL_WRITE_LOW_PRIORITY \<le> type_of w d) \<or>
      d \<in> set (chain_of Write_Wait w) \<and> type_of w d = TL_WRITE_DELAYED \<or> type_of w d = TL_UNLOCK"
    and new: "TL_WRITE_LOW_PRIORITY \<le> new"
  shows "\<exists>res w'. thr_upgrade_write_delay_lock d new self w = Some (res, w') \<and> request_done w d res w'"
proof -
  note ch = world_ok_chains [OF ok]
  note nw = low_is_write [OF new]
  have nl: "\<not> TL_WRITE_LOW_PRIORITY \<le> TL_WRITE_DELAYED" by (simp add: thr_lock_type_order)
  consider "type_of w d = TL_UNLOCK" | "d \<in> set (chain_of Write w)" "TL_WRITE_LOW_PRIORITY \<le> type_of w d"
    | "d \<in> set (chain_of Write w)" "type_of w d = TL_WRITE_DELAYED"
    | "d \<in> set (chain_of Write_Wait w)" "type_of w d = TL_WRITE_DELAYED"
    using d by blast
  then show ?thesis
  proof cases
    case 1
    then show ?thesis using ok ns unlocked_outside [OF ok 1]
      by (simp add: thr_upgrade_write_delay_lock_def request_done_def)
  next
    case 2
    have "type_of w d \<noteq> TL_UNLOCK" using ch(4) [OF 2(1)] by auto
    then show ?thesis using 2 ok ns by (simp add: thr_upgrade_write_delay_lock_def request_done_def)
  next
    case 3
    have one: "chain_of Write w = [d]" using ch(7) 3 unfolding running_ok_def by blast
    have c: "cond_of w d = 0" using ch(4) [OF 3(1)] by blast
    show ?thesis
    proof (cases "chain_of Read w = []")
      case True
      let ?w = "call_get_status d False (set_type d new w)"
      have r: "world_ok (set_type d new w)" "waits_kept w {d} (set_type d new w)"
        using retype_run_ok [OF ok 3(1), of new] nw True one by auto
      have "chain (lock ?w) = chain (lock w)" "datas ?w = datas (set_type d new w)" "same_env (set_type d new w) ?w"
        "read_no_write_count (lock ?w) = read_no_write_count (lock w)"
        by (simp_all add: lock_ops same_env_def)
      then have "world_ok ?w" "waits_kept w {d} ?w" "chain (lock ?w) = chain (lock w)"
        using r by (auto simp: world_ok_def same_env_def waits_kept_def wait_ok_def set_type_def)
      moreover have "thr_upgrade_write_delay_lock d new self w = Some (Done THR_LOCK_SUCCESS, ?w)"
        using 3 c nl True by (simp add: thr_upgrade_write_delay_lock_def Let_def begin_wait_def set_type_def)
      ultimately show ?thesis using ns 3(1) by (simp add: request_done_def)
    next
      case False
      obtain w1 where w1: "w1 = set_chain Write (remove1 d (chain_of Write w)) (set_type d new w)" by blast
      have f: "chain (lock w1) = (chain (lock w))(Write := remove1 d (chain_of Write w))"
        "datas w1 = (datas w)(d := (datas w d)\<lparr>d_type := new\<rparr>)" "same_env w w1"
        "read_no_write_count (lock w1) =
          (if Write = Read \<and> type_of w d = TL_READ_NO_INSERT then read_no_write_count (lock w) - 1
           else read_no_write_count (lock w))"
        by (simp_all add: w1 lock_ops same_env_def)
      note u = unlink_ok [OF ok 3(1) f]
      let ?w = "wait_for_lock_enter Write_Wait d True self (link_first Write_Wait d w1)"
      have g: "chain (lock ?w) = (chain (lock w1))(Write_Wait := d # chain_of Write_Wait w1)"
        "datas ?w = (datas w1)(d := (datas w1 d)\<lparr>d_cond := self\<rparr>)" "same_env w1 ?w"
        "read_no_write_count (lock ?w) = read_no_write_count (lock w1)"
        by (simp_all add: wait_for_lock_enter_def lock_ops same_env_def)
      have "world_ok ?w" "waits_kept w1 {d} ?w" "d \<in> set (chain_of Write_Wait ?w)" "not_stranded (chain (lock ?w))"
        using wait_linked [OF u(1,2) self _ g(1) disjI2 [OF refl] g(2-4)] nw False by (auto simp: f)
      moreover have "thr_upgrade_write_delay_lock d new self w = Some (Wait Write_Wait, ?w)"
        using 3 c nl False
        by (simp add: thr_upgrade_write_delay_lock_def Let_def begin_wait_def set_type_def unlink_def w1 set_chain_def)
      ultimately show ?thesis using waits_kept_trans [OF u(3)] by (simp add: request_done_def)
    qed
  next
    case 4
    let ?w1 = "set_type d new w"
    note r = retype_wait_ok [OF ok 4(1), of new]
    let ?w = "set_cond d self (inc_locks_waited ?w1)"
    have c: "cond_of w d \<noteq> 0" using ch(5) [OF 4(1)] by blast
    have i: "world_ok (inc_locks_waited ?w1)" "waits_kept w {d} (inc_locks_waited ?w1)"
      using r nw advanced_waits_kept [OF ok, of ?w1 "{d}"]
      by (auto simp: inc_locks_waited_def world_ok_def waits_kept_def wait_ok_def)
    have m: "d \<in> set (chain_of Write_Wait (inc_locks_waited ?w1))" using 4 by (simp add: lock_ops)
    note s = set_cond_wait_ok [OF i(1) m self]
    have "thr_upgrade_write_delay_lock d new self w = Some (Wait Write_Wait, ?w)"
      using 4 c nl
      by (simp add: thr_upgrade_write_delay_lock_def Let_def begin_wait_def wait_for_lock_enter_def set_type_def)
    then show ?thesis
      using s waits_kept_trans [OF i(2) s(2)] ns 4(1) by (simp add: request_done_def lock_ops)
  qed
qed

lemma thr_reschedule_write_lock_ok:
  assumes ok: "world_ok w" and ns: "not_stranded (chain (lock w))" and self: "self \<noteq> 0"
    and d: "chain_of Write w = [d]"
  shows "\<exists>ty w'. thr_reschedule_write_lock d self w = Some (ty, w') \<and> world_ok w' \<and> not_stranded (chain (lock w')) \<and>
    waits_kept w {d} w'"
proof (cases "chain_of Read_Wait w = []")
  case True
  then show ?thesis using ok ns by (simp add: thr_reschedule_write_lock_def)
next
  case False
  let ?w0 = "set_type d TL_WRITE_DELAYED w"
  let ?e = "if update_status (lock w) then add_event (Update_status (d_status_param (datas w d))) ?w0 else ?w0"
  obtain w1 where w1: "w1 = set_chain Write (remove1 d (chain_of Write w)) ?e" by blast
  have f: "chain (lock w1) = (chain (lock w))(Write := remove1 d (chain_of Write w))"
    "datas w1 = (datas w)(d := (datas w d)\<lparr>d_type := TL_WRITE_DELAYED\<rparr>)" "same_env w w1"
    "read_no_write_count (lock w1) =
      (if Write = Read \<and> type_of w d = TL_READ_NO_INSERT then read_no_write_count (lock w) - 1
       else read_no_write_count (lock w))"
    by (simp_all add: w1 lock_ops same_env_def)
  have u: "world_ok w1" "\<not> in_chains (chain (lock w1)) d" "waits_kept w {d} w1"
    using unlink_ok [OF ok _ f] d by auto
  let ?w2 = "link_first Write_Wait d (set_cond d self w1)"
  have g: "chain (lock ?w2) = (chain (lock w1))(Write_Wait := d # chain_of Write_Wait w1)"
    "datas ?w2 = (datas w1)(d := (datas w1 d)\<lparr>d_cond := self\<rparr>)" "same_env w1 ?w2"
    "read_no_write_count (lock ?w2) = read_no_write_count (lock w1)"
    by (simp_all add: lock_ops same_env_def)
  have "is_write TL_WRITE_DELAYED" by (simp add: is_write_def thr_lock_type_order)
  then have l: "world_ok ?w2" "waits_kept w1 {d} ?w2"
    using wait_linked [OF u(1,2) self _ g(1) disjI2 [OF refl] g(2-4)] by (auto simp: f)
  have c: "chain_of Write ?w2 = []" "chain_of Read_Wait ?w2 \<noteq> []" using False d by (simp_all add: g f)
  then obtain w3 where w3: "release_waiting_reads False ?w2 = Some w3" "world_ok w3" "advanced ?w2 w3" "not_stranded (chain (lock w3))"
    using release_without_writers [OF l(1)] by blast
  have "thr_reschedule_write_lock d self w = Some (Some (type_of w d), w3)"
    using False w3(1) c(2) d
    by (auto simp: thr_reschedule_write_lock_def Let_def unlink_def w1 release_waiting_reads_def lock_ops split: if_splits)
  then show ?thesis
    using w3 waits_kept_trans [OF waits_kept_trans [OF u(3) l(2)] advanced_waits_kept [OF l(1) w3(3)]] by blast
qed

end
