(* ===== verification/Lock_Protocol.thy ===== *)
theory Lock_Protocol
  imports Lock_Operations
begin

text \<open>
  Threads that share a table lock, as a step relation over the operations, and the properties of every
  reachable state; the consistency check of the debug build; the order in which the locks of a statement
  are requested.
\<close>

section \<open>Threads\<close>

text \<open>The lock and the instances whose threads wait in \<open>wait_for_lock\<close>: in which chain, and whether the
  instance was in the chain before. \<open>forced\<close> records that \<open>thr_abort_locks\<close> has made a lock exclusive
  while others held locks; nothing in the code depends on it.\<close>

record lock_proto =
  world :: lock_world
  waiting :: "ptr \<Rightarrow> (lock_list \<times> bool) option"
  forced :: bool

text \<open>A call of \<open>thr_abort_locks\<close> that turns the first write lock into \<open>TL_WRITE_ONLY\<close> although a
  lock of another owner is held.\<close>

definition takes_over :: "bool \<Rightarrow> lock_world \<Rightarrow> bool" where
  "takes_over upgrade w \<longleftrightarrow> upgrade \<and> chain_of Write w \<noteq> [] \<and> \<not> sole_owner (hd (chain_of Write w)) w"

definition note_wait ::
  "ptr \<Rightarrow> bool \<Rightarrow> lock_outcome \<Rightarrow> (ptr \<Rightarrow> (lock_list \<times> bool) option) \<Rightarrow> ptr \<Rightarrow> (lock_list \<times> bool) option" where
  "note_wait d in_wait_list out wt = (case out of Done _ \<Rightarrow> wt(d := None) | Wait q \<Rightarrow> wt(d := Some (q, in_wait_list)))"

text \<open>The calls threads can make, each from the mutex to its release, with the rules callers obey.\<close>

inductive lock_step :: "lock_proto \<Rightarrow> lock_proto \<Rightarrow> bool" where
  request: "\<not> in_chains (chain (lock (world p))) d \<Longrightarrow> waiting p d = None \<Longrightarrow> is_read ty \<or> is_write ty \<Longrightarrow>
    self \<noteq> 0 \<Longrightarrow> length (chain_of Read (world p)) + length (chain_of Read_Wait (world p)) + 1 < 2 ^ 32 \<Longrightarrow>
    is_write ty \<longrightarrow> request_ok owner ty (world p) \<Longrightarrow>
    thr_lock d owner ty self (world p) = Some (out, w) \<Longrightarrow>
    lock_step p (p\<lparr>world := w, waiting := note_wait d False out (waiting p)\<rparr>)"
| leave_wait: "waiting p d = Some (q, in_wait_list) \<Longrightarrow>
    wait_for_lock_lap d in_wait_list abort timed_out (world p) = Some res \<Longrightarrow>
    wait_for_lock_exit q d res (world p) = Some (r, w) \<Longrightarrow>
    lock_step p (p\<lparr>world := w, waiting := (waiting p)(d := None)\<rparr>)"
| unlock: "waiting p d = None \<Longrightarrow>
    d \<in> set (chain_of Read (world p)) \<union> set (chain_of Write (world p)) \<or>
      d \<in> set (chain_of Write_Wait (world p)) \<and> type_of (world p) d = TL_WRITE_DELAYED \<Longrightarrow>
    thr_unlock d (world p) = Some w \<Longrightarrow> lock_step p (p\<lparr>world := w\<rparr>)"
| abort_all: "thr_abort_locks upgrade (world p) = Some w \<Longrightarrow>
    lock_step p (p\<lparr>world := w, forced := forced p \<or> takes_over upgrade (world p)\<rparr>)"
| abort_thread: "thr_abort_locks_for_thread tid (world p) = Some (found, w) \<Longrightarrow> lock_step p (p\<lparr>world := w\<rparr>)"
| downgrade: "d \<in> set (chain_of Write (world p)) \<Longrightarrow> type_of (world p) d = TL_WRITE_ONLY \<Longrightarrow>
    is_write new \<Longrightarrow> new < TL_WRITE_ONLY \<Longrightarrow> new \<noteq> TL_WRITE_DELAYED \<Longrightarrow>
    \<forall>v\<in>set (chain_of Write (world p)). v \<noteq> d \<longrightarrow> type_of (world p) v \<le> new \<Longrightarrow>
    thr_downgrade_write_lock d new (world p) = Some w \<Longrightarrow> lock_step p (p\<lparr>world := w\<rparr>)"
| upgrade_delayed: "waiting p d = None \<Longrightarrow>
    d \<in> set (chain_of Write (world p)) \<and>
        (type_of (world p) d = TL_WRITE_DELAYED \<or> TL_WRITE_LOW_PRIORITY \<le> type_of (world p) d) \<or>
      d \<in> set (chain_of Write_Wait (world p)) \<and> type_of (world p) d = TL_WRITE_DELAYED \<or>
      type_of (world p) d = TL_UNLOCK \<Longrightarrow>
    TL_WRITE_LOW_PRIORITY \<le> new \<Longrightarrow> self \<noteq> 0 \<Longrightarrow>
    thr_upgrade_write_delay_lock d new self (world p) = Some (out, w) \<Longrightarrow>
    lock_step p (p\<lparr>world := w, waiting := note_wait d True out (waiting p)\<rparr>)"
| reschedule: "waiting p d = None \<Longrightarrow> chain_of Write (world p) = [d] \<Longrightarrow> self \<noteq> 0 \<Longrightarrow>
    thr_reschedule_write_lock d self (world p) = Some (ty, w) \<Longrightarrow> lock_step p (p\<lparr>world := w\<rparr>)"
| engine: "check_status (lock (world p)) = Some f \<Longrightarrow>
    lock_step p (p\<lparr>world := (world p)\<lparr>lock := (lock (world p))\<lparr>check_status := Some g\<rparr>\<rparr>\<rparr>)"

definition proto_ok :: "lock_proto \<Rightarrow> bool" where
  "proto_ok p \<longleftrightarrow> \<not> forced p \<and> world_ok (world p) \<and> not_stranded (chain (lock (world p))) \<and>
     (\<forall>d q i. waiting p d = Some (q, i) \<longrightarrow> q \<in> {Read_Wait, Write_Wait} \<and> wait_ok (world p) q d)"

text \<open>The state after \<open>thr_lock_init\<close>, when the engine has stored its callbacks.\<close>

definition initial :: "lock_proto \<Rightarrow> bool" where
  "initial p \<longleftrightarrow> (\<exists>w gs us rs cs.
     world p = (thr_lock_init w)\<lparr>lock := (lock (thr_lock_init w))\<lparr>get_status := gs, update_status := us,
       restore_status := rs, check_status := cs\<rparr>\<rparr> \<and>
     thr_upgraded_concurrent_insert_lock w \<in> {TL_WRITE_LOW_PRIORITY, TL_WRITE}) \<and>
   waiting p = (\<lambda>_. None) \<and> \<not> forced p"

lemma initial_ok: "initial p \<Longrightarrow> proto_ok p"
  by (auto simp: initial_def proto_ok_def world_ok_def lock_ok_def chains_ok_def thr_lock_init_def
      not_stranded_def no_insert_count_def)

lemma request_done_waiting:
  assumes p: "proto_ok p" and r: "request_done (world p) d out w"
  shows "proto_ok (p\<lparr>world := w, waiting := note_wait d i out (waiting p)\<rparr>)"
proof -
  have "q \<in> {Read_Wait, Write_Wait} \<and> wait_ok w q x" if "note_wait d i out (waiting p) x = Some (q, j)" for x q j
  proof (cases "x = d")
    case True
    then show ?thesis using that r
      by (cases out) (auto simp: note_wait_def request_done_def wait_ok_def)
  next
    case False
    then have "waiting p x = Some (q, j)" using that by (cases out) (auto simp: note_wait_def)
    then show ?thesis using p r False unfolding proto_ok_def request_done_def waits_kept_def by blast
  qed
  then show ?thesis using p r by (simp add: proto_ok_def request_done_def)
qed

lemma kept_waiting:
  assumes p: "proto_ok p" and w: "world_ok w" "not_stranded (chain (lock w))" "waits_kept (world p) D w"
    and D: "\<And>d. d \<in> D \<Longrightarrow> wt d = None" and wt: "\<And>x. wt x = waiting p x \<or> wt x = None"
  shows "proto_ok (p\<lparr>world := w, waiting := wt\<rparr>)"
proof -
  have "q \<in> {Read_Wait, Write_Wait} \<and> wait_ok w q x" if x: "wt x = Some (q, j)" for x q j
  proof -
    have "waiting p x = Some (q, j)" "x \<notin> D" using wt [of x] D [of x] x by auto
    then show ?thesis using p w(3) unfolding proto_ok_def waits_kept_def by blast
  qed
  then show ?thesis using p w by (simp add: proto_ok_def)
qed

lemma kept_world:
  assumes "proto_ok p" "world_ok w" "not_stranded (chain (lock w))" "waits_kept (world p) D w"
    and "\<And>d. d \<in> D \<Longrightarrow> waiting p d = None"
  shows "proto_ok (p\<lparr>world := w\<rparr>)"
  using kept_waiting [OF assms(1-4), of "waiting p"] assms(5) by (cases p) simp

lemma lock_step_ok:
  assumes "lock_step p p'" "proto_ok p" "\<not> forced p'"
  shows "proto_ok p'"
  using assms
proof (induction rule: lock_step.induct)
  case (request p d ty self owner out w)
  have w: "world_ok (world p)" "not_stranded (chain (lock (world p)))" using request.prems(1) by (auto simp: proto_ok_def)
  have "request_done (world p) d out w"
    using thr_lock_ok [OF w request.hyps(1,3,4,5,6)] request.hyps(7) by auto
  then show ?case by (rule request_done_waiting [OF request.prems(1)])
next
  case (leave_wait p d q i abort timed_out res r w)
  have w: "world_ok (world p)" "not_stranded (chain (lock (world p)))" "q \<in> {Read_Wait, Write_Wait}" "wait_ok (world p) q d"
    using leave_wait.prems(1) leave_wait.hyps(1) by (auto simp: proto_ok_def)
  have "world_ok w" "not_stranded (chain (lock w))" "waits_kept (world p) {d} w"
    using wait_for_lock_exit_ok [OF w, of res] leave_wait.hyps(3) by auto
  then show ?case by (intro kept_waiting [OF leave_wait.prems(1)]) auto
next
  case (unlock p d w)
  have "world_ok (world p)" using unlock.prems(1) by (simp add: proto_ok_def)
  then have "world_ok w" "not_stranded (chain (lock w))" "waits_kept (world p) {d} w"
    using thr_unlock_ok [OF _ unlock.hyps(2)] unlock.hyps(3) by auto
  then show ?case using unlock.hyps(1) by (intro kept_world [OF unlock.prems(1)]) auto
next
  case (abort_all upgrade p w)
  have "world_ok (world p)" using abort_all.prems(1) by (simp add: proto_ok_def)
  then have "world_ok w" "not_stranded (chain (lock w))" "waits_kept (world p) {} w"
    using thr_abort_locks_ok [of "world p" upgrade] abort_all.hyps abort_all.prems(2) by (auto simp: takes_over_def)
  then have "proto_ok (p\<lparr>world := w\<rparr>)" by (intro kept_world [OF abort_all.prems(1)]) auto
  then show ?case using abort_all.prems(2) by (auto simp: proto_ok_def)
next
  case (abort_thread tid p found w)
  have "world_ok (world p)" using abort_thread.prems(1) by (simp add: proto_ok_def)
  then have "world_ok w" "not_stranded (chain (lock w))" "waits_kept (world p) {} w"
    using thr_abort_locks_for_thread_ok [of "world p" tid] abort_thread.hyps by auto
  then show ?case by (intro kept_world [OF abort_thread.prems(1)]) auto
next
  case (downgrade d p new w)
  have "world_ok (world p)" using downgrade.prems(1) by (simp add: proto_ok_def)
  then have "world_ok w" "chain (lock w) = chain (lock (world p))" "waits_kept (world p) {} w"
    using thr_downgrade_write_lock_ok [OF _ downgrade.hyps(1-6)] downgrade.hyps(7) by auto
  then show ?case using downgrade.prems(1) by (intro kept_world [OF downgrade.prems(1)]) (auto simp: proto_ok_def)
next
  case (upgrade_delayed p d new self out w)
  have w: "world_ok (world p)" "not_stranded (chain (lock (world p)))" using upgrade_delayed.prems(1) by (auto simp: proto_ok_def)
  have "request_done (world p) d out w"
    using thr_upgrade_write_delay_lock_ok [OF w upgrade_delayed.hyps(4,2,3)] upgrade_delayed.hyps(5) by auto
  then show ?case by (rule request_done_waiting [OF upgrade_delayed.prems(1)])
next
  case (reschedule p d self ty w)
  have w: "world_ok (world p)" "not_stranded (chain (lock (world p)))" using reschedule.prems(1) by (auto simp: proto_ok_def)
  then have "world_ok w" "not_stranded (chain (lock w))" "waits_kept (world p) {d} w"
    using thr_reschedule_write_lock_ok [OF w reschedule.hyps(3,2)] reschedule.hyps(4) by auto
  then show ?case using reschedule.hyps(1) by (intro kept_world [OF reschedule.prems(1)]) auto
next
  case (engine p f g)
  then show ?case by (auto simp: proto_ok_def world_ok_def wait_ok_def)
qed

lemma forced_stays: "lock_step p p' \<Longrightarrow> forced p \<Longrightarrow> forced p'"
  by (induction rule: lock_step.induct) simp_all

lemma reachable_ok:
  assumes "lock_step\<^sup>*\<^sup>* p0 p" "initial p0" "\<not> forced p"
  shows "proto_ok p"
  using assms(1,3)
proof (induction rule: rtranclp_induct)
  case base
  then show ?case using assms(2) by (intro initial_ok)
next
  case (step p p')
  then show ?case using lock_step_ok [OF step.hyps(2)] forced_stays [OF step.hyps(2)] by blast
qed

text \<open>Releasing running locks, one after the other, in an order chosen by \<open>pick\<close>; the released instances
  are returned in this order.\<close>

fun unlock_running :: "(ptr list \<Rightarrow> ptr) \<Rightarrow> nat \<Rightarrow> lock_world \<Rightarrow> (ptr list \<times> lock_world) option" where
  "unlock_running pick 0 w = Some ([], w)"
| "unlock_running pick (Suc n) w =
     (let run = chain_of Read w @ chain_of Write w in
      if run = [] then Some ([], w)
      else
        do { w \<leftarrow> thr_unlock (pick run) w;
             (ds, w) \<leftarrow> unlock_running pick n w;
             Some (pick run # ds, w) })"

definition instances :: "lock_world \<Rightarrow> ptr set" where
  "instances w = {d. in_chains (chain (lock w)) d}"

lemma instances_alt:
  "instances w = set (chain_of Read_Wait w @ chain_of Read w @ chain_of Write_Wait w @ chain_of Write w)"
  by (auto simp: instances_def in_chains_iff)

text \<open>The instances with a condition variable in \<open>w\<close> whose variable has been signalled by the time of
  \<open>w'\<close>.\<close>

definition waiters_signalled :: "lock_world \<Rightarrow> lock_world \<Rightarrow> bool" where
  "waiters_signalled w w' \<longleftrightarrow> (\<exists>es. events w' = events w @ es \<and>
     (\<forall>d\<in>instances w. cond_of w d \<noteq> 0 \<longrightarrow> Cond_signal (cond_of w d) \<in> set es))"

lemma waiters_signalled_step:
  assumes "signalled w w1" "waiters_signalled w1 w2" "\<And>x. x \<in> instances w \<Longrightarrow> cond_of w x \<noteq> 0 \<Longrightarrow> x \<in> instances w1"
  shows "waiters_signalled w w2"
proof -
  obtain es fs where e: "events w1 = events w @ es" "events w2 = events w1 @ fs"
    and c: "\<And>d. cond_of w1 d = cond_of w d \<or> cond_of w1 d = 0 \<and> Cond_signal (cond_of w d) \<in> set es"
      "\<And>d. d \<in> instances w1 \<Longrightarrow> cond_of w1 d \<noteq> 0 \<Longrightarrow> Cond_signal (cond_of w1 d) \<in> set fs"
    using assms(1,2) unfolding signalled_def waiters_signalled_def by blast
  have "Cond_signal (cond_of w d) \<in> set (es @ fs)" if "d \<in> instances w" "cond_of w d \<noteq> 0" for d
    using c(1) [of d] c(2) [OF assms(3) [OF that]] that(2) by auto
  then show ?thesis unfolding waiters_signalled_def e by (intro exI [of _ "es @ fs"]) simp
qed

lemma unlock_running_serves:
  assumes pick: "\<And>ds. ds \<noteq> [] \<Longrightarrow> pick ds \<in> set ds"
    and "world_ok w" "not_stranded (chain (lock w))" "card (instances w) \<le> n"
  shows "\<exists>ds w'. unlock_running pick n w = Some (ds, w') \<and> (\<forall>q. chain_of q w' = []) \<and>
    distinct ds \<and> set ds = instances w \<and> waiters_signalled w w'"
  using assms(2-4)
proof (induction n arbitrary: w)
  case 0
  then have "instances w = {}" by (simp add: instances_alt)
  then show ?case by (simp add: instances_alt all_lock_list waiters_signalled_def)
next
  case (Suc n)
  let ?run = "chain_of Read w @ chain_of Write w"
  show ?case
  proof (cases "?run = []")
    case True
    then show ?thesis using Suc.prems(2)
      by (simp add: all_lock_list not_stranded_def instances_alt waiters_signalled_def)
  next
    case False
    let ?d = "pick ?run"
    have d: "?d \<in> set (chain_of Read w) \<union> set (chain_of Write w)" using pick [OF False] by simp
    then have c: "cond_of w ?d = 0" using world_ok_chains(2,4) [OF Suc.prems(1), of ?d] by auto
    obtain w' where w': "thr_unlock ?d w = Some w'" "world_ok w'" "not_stranded (chain (lock w'))"
      "\<forall>y. in_chains (chain (lock w')) y \<longleftrightarrow> in_chains (chain (lock w)) y \<and> y \<noteq> ?d"
      using thr_unlock_ok [OF Suc.prems(1)] d by blast
    have i: "instances w' = instances w - {?d}" using w'(4) by (auto simp: instances_def)
    have di: "?d \<in> instances w" using d by (auto simp: instances_alt)
    have "card (instances w') \<le> n"
      using i di Suc.prems(3) card_Suc_Diff1 [of "instances w" ?d] by (simp add: instances_alt)
    from Suc.IH [OF w'(2,3) this] obtain ds w2 where r: "unlock_running pick n w' = Some (ds, w2)"
      "\<forall>q. chain_of q w2 = []" "distinct ds" "set ds = instances w'" "waiters_signalled w' w2" by blast
    have "x \<in> instances w'" if x: "x \<in> instances w" "cond_of w x \<noteq> 0" for x
    proof -
      have "x \<noteq> ?d"
      proof
        assume "x = ?d"
        then show False using x(2) by (simp only: c)
      qed
      then show ?thesis using x(1) unfolding i by blast
    qed
    then have "waiters_signalled w w2"
      by (rule waiters_signalled_step [OF thr_unlock_signals [OF w'(1)] r(5)])
    moreover have "unlock_running pick (Suc n) w = Some (?d # ds, w2)" using False w'(1) r(1) by (auto simp: Let_def)
    moreover have "distinct (?d # ds)" "set (?d # ds) = instances w" using r(3,4) i di by auto
    ultimately show ?thesis using r(2) by blast
  qed
qed

definition sample_lock :: lock_world where
  "sample_lock =
     \<lparr>lock = \<lparr>chain = (\<lambda>_. []), write_lock_count = 0, read_no_write_count = 0, get_status = False,
        copy_status = False, update_status = False, restore_status = False, check_status = None\<rparr>,
      datas = (\<lambda>_. \<lparr>d_owner = 0, d_cond = 0, d_type = TL_UNLOCK, d_status_param = 0\<rparr>), thread_id = (\<lambda>i. i),
      locks_immediate = 0, locks_waited = 0, max_write_lock_count = 100,
      thr_upgraded_concurrent_insert_lock = TL_WRITE, events = []\<rparr>"

lemmas eval_lock = thr_lock_def thr_lock_read_def thr_lock_write_def thr_lock_write_free_def
  thr_lock_write_locked_def begin_wait_def grant_now_def refuse_def wait_for_lock_enter_def lock_ops
  thr_lock_owner_equal_def thr_lock_type_order shares_with_insert_def Let_def

definition sample_start :: lock_proto where
  "sample_start = \<lparr>world = sample_lock, waiting = (\<lambda>_. None), forced = False\<rparr>"

lemma sample_initial: "initial sample_start"
  unfolding initial_def
proof (intro conjI)
  show "waiting sample_start = (\<lambda>_. None)" "\<not> forced sample_start" by (simp_all add: sample_start_def)
  show "\<exists>w gs us rs cs.
     world sample_start = (thr_lock_init w)\<lparr>lock := (lock (thr_lock_init w))\<lparr>get_status := gs, update_status := us,
       restore_status := rs, check_status := cs\<rparr>\<rparr> \<and>
     thr_upgraded_concurrent_insert_lock w \<in> {TL_WRITE_LOW_PRIORITY, TL_WRITE}"
    by (rule exI [of _ sample_lock], rule exI [of _ False], rule exI [of _ False], rule exI [of _ False],
        rule exI [of _ None]) (simp add: sample_start_def sample_lock_def thr_lock_init_def)
qed

text \<open>One thread holds a shared write lock, another one waits for an exclusive lock.\<close>

lemma sample_reachable:
  obtains p where "lock_step\<^sup>*\<^sup>* sample_start p" "waiting p 2 = Some (Write_Wait, False)"
    "chain_of Write (world p) = [1]" "chain_of Write_Wait (world p) = [2]" "chain_of Read (world p) = []"
    "chain_of Read_Wait (world p) = []" "cond_of (world p) 2 = 102" "\<not> forced p"
proof -
  obtain w1 where w1: "thr_lock 1 1 TL_WRITE_ALLOW_WRITE 101 sample_lock = Some (Done THR_LOCK_SUCCESS, w1)"
    and c1: "chain_of Write w1 = [1]" "chain_of Read w1 = []" "chain_of Read_Wait w1 = []" "chain_of Write_Wait w1 = []"
      "owner_of w1 1 = 1" "type_of w1 1 = TL_WRITE_ALLOW_WRITE"
    by (simp add: eval_lock sample_lock_def)
  have s1: "lock_step sample_start (sample_start\<lparr>world := w1, waiting := note_wait 1 False (Done THR_LOCK_SUCCESS) (waiting sample_start)\<rparr>)"
    by (rule lock_step.request [where ty = TL_WRITE_ALLOW_WRITE and owner = 1 and self = 101])
      (use w1 in \<open>auto simp: sample_start_def sample_lock_def in_chains_def is_write_def thr_lock_type_order request_ok_def\<close>)
  let ?p1 = "(sample_start\<lparr>world := w1, waiting := note_wait 1 False (Done THR_LOCK_SUCCESS) (waiting sample_start)\<rparr>)"
  obtain w2 where w2: "thr_lock 2 2 TL_WRITE 102 w1 = Some (Wait Write_Wait, w2)"
    and c2: "chain_of Write w2 = [1]" "chain_of Read w2 = []" "chain_of Read_Wait w2 = []" "chain_of Write_Wait w2 = [2]"
      "cond_of w2 2 = 102"
    using c1 by (simp add: eval_lock)
  have "lock_step ?p1 (?p1\<lparr>world := w2, waiting := note_wait 2 False (Wait Write_Wait) (waiting ?p1)\<rparr>)"
    by (rule lock_step.request [where ty = TL_WRITE and owner = 2 and self = 102])
      (use w2 c1 in \<open>auto simp: sample_start_def note_wait_def in_chains_iff is_write_def thr_lock_type_order request_ok_def\<close>)
  with s1 have "lock_step\<^sup>*\<^sup>* sample_start (?p1\<lparr>world := w2, waiting := note_wait 2 False (Wait Write_Wait) (waiting ?p1)\<rparr>)" by auto
  then show ?thesis by (rule that) (use c2 in \<open>simp_all add: note_wait_def sample_start_def\<close>)
qed

section \<open>Properties\<close>

text \<open>C2: In every state the threads can reach, unless \<open>thr_abort_locks\<close> has turned a write lock into
  \<open>TL_WRITE_ONLY\<close> while another owner held a lock, the locks that are held at the same time go together. A
  read lock and a write lock of different owners are held together only if the write lock lets
  readers in, and a \<open>TL_WRITE_CONCURRENT_INSERT\<close> lock never beside a \<open>TL_READ_NO_INSERT\<close> lock; write
  locks of different owners are all \<open>TL_WRITE_ALLOW_WRITE\<close>. The counter of read locks that forbid
  inserts is exact.\<close>

theorem granted_locks_go_together:
  assumes "initial p0" "lock_step\<^sup>*\<^sup>* p0 p" "\<not> forced p"
  defines "w \<equiv> world p"
  shows "(\<forall>r\<in>set (chain_of Read w). \<forall>v\<in>set (chain_of Write w). owner_of w r = owner_of w v \<or>
      type_of w v \<le> TL_WRITE_DELAYED \<and> \<not> (type_of w r = TL_READ_NO_INSERT \<and> type_of w v = TL_WRITE_CONCURRENT_INSERT)) \<and>
    (\<forall>u\<in>set (chain_of Write w). \<forall>v\<in>set (chain_of Write w). owner_of w u = owner_of w v \<or>
      type_of w u = TL_WRITE_ALLOW_WRITE \<and> type_of w v = TL_WRITE_ALLOW_WRITE) \<and>
    read_no_write_count (lock w) = length (filter (\<lambda>r. type_of w r = TL_READ_NO_INSERT) (chain_of Read w))"
proof -
  have "world_ok w" using reachable_ok [OF assms(2,1,3)] by (simp add: w_def proto_ok_def)
  from world_ok_chains(7,8) [OF this] show ?thesis
    unfolding running_ok_def compatible_def no_insert_count_def by blast
qed

theorem granted_locks_go_together_witness:
  "\<exists>p. lock_step\<^sup>*\<^sup>* sample_start p \<and> chain_of Write (world p) = [1] \<and> chain_of Write_Wait (world p) = [2] \<and>
     read_no_write_count (lock (world p)) = length (filter (\<lambda>r. type_of (world p) r = TL_READ_NO_INSERT) (chain_of Read (world p)))"
proof -
  obtain p where p: "lock_step\<^sup>*\<^sup>* sample_start p" "chain_of Write (world p) = [1]" "chain_of Write_Wait (world p) = [2]"
    "\<not> forced p"
    by (rule sample_reachable)
  then show ?thesis using granted_locks_go_together [OF sample_initial p(1,4)] by blast
qed

text \<open>The rule is needed: an upgrade that takes over leaves a \<open>TL_WRITE_ONLY\<close> lock beside the read lock
  of another owner, which \<open>check_locks\<close> accepts.\<close>

lemma take_over_beside_reader:
  "do { (_, w) \<leftarrow> thr_lock 1 1 TL_WRITE_ALLOW_WRITE 101 sample_lock;
        (_, w) \<leftarrow> thr_lock 2 2 TL_READ 102 w;
        w' \<leftarrow> thr_abort_locks True w;
        n \<leftarrow> check_locks False w';
        Some (takes_over True w, chain_of Write w', type_of w' 1, chain_of Read w', type_of w' 2, n) } =
   Some (True, [1], TL_WRITE_ONLY, [2], TL_READ, 0)"
  by (simp add: eval_lock sample_lock_def thr_abort_locks_def takes_over_def sole_owner_def check_locks_def
      check_lock_def check_writer_def MAX_LOCKS_def)

text \<open>C3: Every waiter is served. From every state the threads can reach (unless an abort has forced its way, as above),
  releasing running locks, one at a time and in any order, never fails and goes on until every
  instance, waiting or running, has been released as a running one, each once: every waiting request is given
  the lock on the way. Its condition variable has been signalled by then, and no instance is left in any
  chain.\<close>

theorem waiters_are_served:
  assumes "initial p0" "lock_step\<^sup>*\<^sup>* p0 p" "\<not> forced p" and "\<And>ds. ds \<noteq> [] \<Longrightarrow> pick ds \<in> set ds"
  defines "w \<equiv> world p"
  shows "\<exists>ds w' es. unlock_running pick (card (instances w)) w = Some (ds, w') \<and>
    distinct ds \<and> set ds = instances w \<and> (\<forall>q. chain_of q w' = []) \<and> events w' = events w @ es \<and>
    (\<forall>d\<in>set (chain_of Read_Wait w) \<union> set (chain_of Write_Wait w). Cond_signal (cond_of w d) \<in> set es)"
proof -
  have w: "world_ok w" "not_stranded (chain (lock w))"
    using reachable_ok [OF assms(2,1,3)] by (simp_all add: w_def proto_ok_def)
  obtain ds w' where r: "unlock_running pick (card (instances w)) w = Some (ds, w')" "\<forall>q. chain_of q w' = []"
    "distinct ds" "set ds = instances w" "waiters_signalled w w'"
    using unlock_running_serves [OF assms(4) w order_refl] by blast
  have "d \<in> instances w \<and> cond_of w d \<noteq> 0" if "d \<in> set (chain_of Read_Wait w) \<union> set (chain_of Write_Wait w)" for d
    using that world_ok_chains(3,5) [OF w(1), of d] by (auto simp: instances_alt)
  then show ?thesis using r unfolding waiters_signalled_def by blast
qed

theorem waiters_are_served_witness:
  "\<exists>p ds w' es. lock_step\<^sup>*\<^sup>* sample_start p \<and> chain_of Write_Wait (world p) = [2] \<and>
     unlock_running hd 2 (world p) = Some (ds, w') \<and> set ds = {1, 2} \<and> (\<forall>q. chain_of q w' = []) \<and>
     events w' = events (world p) @ es \<and> Cond_signal 102 \<in> set es"
proof -
  obtain p where p: "lock_step\<^sup>*\<^sup>* sample_start p" "chain_of Write (world p) = [1]" "chain_of Write_Wait (world p) = [2]"
    "chain_of Read (world p) = []" "chain_of Read_Wait (world p) = []" "cond_of (world p) 2 = 102" "\<not> forced p"
    by (rule sample_reachable)
  have i: "instances (world p) = {1, 2}" using p by (auto simp: instances_alt)
  then have c: "card (instances (world p)) = 2" by simp
  obtain ds w' es where r: "unlock_running hd 2 (world p) = Some (ds, w')" "set ds = instances (world p)"
    "\<forall>q. chain_of q w' = []" "events w' = events (world p) @ es"
    "\<forall>d\<in>set (chain_of Read_Wait (world p)) \<union> set (chain_of Write_Wait (world p)). Cond_signal (cond_of (world p) d) \<in> set es"
    using waiters_are_served [OF sample_initial p(1,7) hd_in_set] unfolding c by blast
  have "Cond_signal 102 \<in> set es" using r(5) p(3,6) by simp
  then show ?thesis using r p(1,3) i by blast
qed

text \<open>C18: A thread that comes back from its wait with success holds the lock; with any other result its
  request is in no chain (unless an abort has forced its way, as above).\<close>

theorem wait_result_is_right:
  assumes "initial p0" "lock_step\<^sup>*\<^sup>* p0 p" "\<not> forced p" "waiting p d = Some (q, i)"
    and "wait_for_lock_lap d i abort timed_out (world p) = Some res"
  shows "\<exists>r w'. wait_for_lock_exit q d res (world p) = Some (r, w') \<and>
    (r = THR_LOCK_SUCCESS \<longleftrightarrow> d \<in> set (chain_of Read w') \<union> set (chain_of Write w')) \<and>
    (r \<noteq> THR_LOCK_SUCCESS \<longrightarrow> (\<forall>c. d \<notin> set (chain_of c w')))"
proof -
  have p: "world_ok (world p)" "not_stranded (chain (lock (world p)))" "q \<in> {Read_Wait, Write_Wait}" "wait_ok (world p) q d"
    using reachable_ok [OF assms(2,1,3)] assms(4) by (auto simp: proto_ok_def)
  have "res \<noteq> THR_LOCK_SUCCESS" using assms(5) by (auto simp: wait_for_lock_lap_def split: if_splits)
  then show ?thesis using wait_for_lock_exit_ok [OF p, of res] by (fastforce simp: in_chains_def)
qed

theorem wait_result_is_right_witness:
  "\<exists>p r w'. lock_step\<^sup>*\<^sup>* sample_start p \<and> waiting p 2 = Some (Write_Wait, False) \<and>
     wait_for_lock_exit Write_Wait 2 THR_LOCK_WAIT_TIMEOUT (world p) = Some (r, w') \<and>
     (r = THR_LOCK_SUCCESS \<longleftrightarrow> 2 \<in> set (chain_of Read w') \<union> set (chain_of Write w'))"
proof -
  obtain p where p: "lock_step\<^sup>*\<^sup>* sample_start p" "waiting p 2 = Some (Write_Wait, False)" "cond_of (world p) 2 = 102"
    "\<not> forced p"
    by (rule sample_reachable)
  have "wait_for_lock_lap 2 False False True (world p) = Some THR_LOCK_WAIT_TIMEOUT"
    using p(3) by (simp add: wait_for_lock_lap_def)
  from wait_result_is_right [OF sample_initial p(1,4,2) this] p show ?thesis by blast
qed

text \<open>When a waiting writer gives up, the requests behind it are not looked at as long as a write lock
  is held. Here a \<open>TL_WRITE_ALLOW_WRITE\<close> request goes on waiting although the only lock that is held is
  of the same, shared type.\<close>

lemma shared_writer_left_waiting:
  "do { (_, w) \<leftarrow> thr_lock 1 1 TL_WRITE_ALLOW_WRITE 101 sample_lock;
        (_, w) \<leftarrow> thr_lock 2 2 TL_WRITE 102 w;
        (_, w) \<leftarrow> thr_lock 3 3 TL_WRITE_ALLOW_WRITE 103 w;
        (_, w) \<leftarrow> wait_for_lock_exit Write_Wait 2 THR_LOCK_WAIT_TIMEOUT w;
        Some (chain_of Write w, chain_of Write_Wait w, type_of w 1, type_of w 3) } =
   Some ([1], [3], TL_WRITE_ALLOW_WRITE, TL_WRITE_ALLOW_WRITE)"
  by (simp add: eval_lock sample_lock_def wait_for_lock_exit_def unlink_def wake_up_waiters_def)





text \<open>The request of \<open>shared_writer_left_waiting\<close> is one that the check reports without \<open>allow_no_locks\<close>.\<close>

lemma check_locks_shared_writer:
  "do { (_, w) \<leftarrow> thr_lock 1 1 TL_WRITE_ALLOW_WRITE 101 sample_lock;
        (_, w) \<leftarrow> thr_lock 2 2 TL_WRITE 102 w;
        (_, w) \<leftarrow> thr_lock 3 3 TL_WRITE_ALLOW_WRITE 103 w;
        (_, w) \<leftarrow> wait_for_lock_exit Write_Wait 2 THR_LOCK_WAIT_TIMEOUT w;
        n \<leftarrow> check_locks False w;
        Some (read_no_write_count (lock w), n) } = Some (0, 1)"
  by (simp add: eval_lock sample_lock_def wait_for_lock_exit_def unlink_def wake_up_waiters_def check_locks_def
      check_lock_def check_writer_def MAX_LOCKS_def)

text \<open>The check still expects readers that forbid inserts to exclude \<open>TL_WRITE_ALLOW_WRITE\<close> locks, which
  \<open>thr_lock\<close> no longer does.\<close>

lemma check_locks_false_alarm:
  "do { (_, w) \<leftarrow> thr_lock 1 1 TL_WRITE_ALLOW_WRITE 101 sample_lock;
        (r, w) \<leftarrow> thr_lock 2 2 TL_READ_NO_INSERT 102 w;
        n \<leftarrow> check_locks True w;
        Some (r, n) } = Some (Done THR_LOCK_SUCCESS, 1)"
  by (simp add: eval_lock sample_lock_def check_locks_def check_lock_def check_writer_def uint_wrap_def
      MAX_LOCKS_def)

text \<open>The key that \<open>LOCK_CMP\<close> compares.\<close>

definition lock_key :: "lock_request \<Rightarrow> int" where
  "lock_key a = int (r_lock a) - tl_value (r_type a) mod 2 ^ 32"

text \<open>Insertion behind the elements that are not greater.\<close>

definition insert_behind :: "lock_request \<Rightarrow> lock_request list \<Rightarrow> lock_request list" where
  "insert_behind x ys = filter (\<lambda>y. lock_key y \<le> lock_key x) ys @ x # filter (\<lambda>y. lock_key x < lock_key y) ys"

lemma sort_shift_eq:
  assumes "sorted (map lock_key (ys @ [y]))" "lock_key tmp < lock_key y"
  shows "sort_shift tmp (length (ys @ [y])) (ys @ [y] @ z # zs) = Some (insert_behind tmp (ys @ [y]) @ zs)"
  using assms
proof (induction ys arbitrary: y z zs rule: rev_induct)
  case Nil
  then show ?case by (simp add: insert_behind_def aget_def aset_def)
next
  case (snoc y' ys)
  have s: "sorted (map lock_key (ys @ [y']))" "lock_key y' \<le> lock_key y"
    using snoc.prems(1) by (auto simp: sorted_append)
  show ?case
  proof (cases "LOCK_CMP tmp y'")
    case True
    then have lt: "lock_key tmp < lock_key y'" by (simp add: LOCK_CMP_def lock_key_def)
    have "sort_shift tmp (length ((ys @ [y']) @ [y])) ((ys @ [y']) @ [y] @ z # zs) =
        sort_shift tmp (length (ys @ [y'])) (ys @ [y'] @ y # (y # zs))"
      using True by (simp add: aget_def aset_def nth_append list_update_append)
    also have "\<dots> = Some (insert_behind tmp (ys @ [y']) @ y # zs)" by (rule snoc.IH [OF s(1) lt])
    also have "insert_behind tmp (ys @ [y']) @ y # zs = insert_behind tmp ((ys @ [y']) @ [y]) @ zs"
      using snoc.prems(2) lt by (simp add: insert_behind_def)
    finally show ?thesis .
  next
    case False
    then have ge: "lock_key y' \<le> lock_key tmp" by (simp add: LOCK_CMP_def lock_key_def)
    have "\<forall>x\<in>set ys. lock_key x \<le> lock_key y'" using s(1) by (simp add: sorted_append)
    then have "\<forall>x\<in>set (ys @ [y']). lock_key x \<le> lock_key tmp" using ge by auto
    then have "insert_behind tmp ((ys @ [y']) @ [y]) = (ys @ [y']) @ [tmp, y]"
      using snoc.prems(2) by (simp add: insert_behind_def filter_id_conv filter_empty_conv not_less)
    then show ?thesis using False
      by (simp add: aget_def aset_def nth_append list_update_append)
  qed
qed

lemma sort_shift_step:
  assumes "sorted (map lock_key ys)" "ys \<noteq> []"
  shows "(if LOCK_CMP x (last ys) then sort_shift x (length ys) (ys @ x # zs) else Some (ys @ x # zs)) =
    Some (insert_behind x ys @ zs)"
proof -
  obtain us y where ys: "ys = us @ [y]" using assms(2) by (metis append_butlast_last_id)
  show ?thesis
  proof (cases "LOCK_CMP x y")
    case True
    then show ?thesis using sort_shift_eq [of us y x x zs] assms(1) by (simp add: ys LOCK_CMP_def lock_key_def)
  next
    case False
    then have "\<forall>u\<in>set ys. lock_key u \<le> lock_key x"
      using assms(1) by (force simp: ys sorted_append LOCK_CMP_def lock_key_def)
    then have "insert_behind x ys = ys @ [x]" by (auto simp: insert_behind_def filter_empty_conv filter_id_conv)
    then show ?thesis using False by (simp add: ys)
  qed
qed

lemma mset_insert_behind: "mset (insert_behind x ys) = add_mset x (mset ys)"
  by (induction ys) (auto simp: insert_behind_def)

lemma insert_behind_sorted:
  assumes "sorted (map lock_key ys)"
  shows "sorted (map lock_key (insert_behind x ys))"
proof -
  have "sorted (map lock_key (filter P ys))" for P using assms by (rule sorted_filter)
  then show ?thesis by (auto simp: insert_behind_def sorted_append)
qed

text \<open>The state of the outer loop: the sorted requests before \<open>pos\<close>, the others unchanged.\<close>

lemma sort_pos_eq:
  assumes "ys = sort_key lock_key xs" "xs \<noteq> []"
  shows "sort_pos (length xs) (length zs) (ys @ zs) = Some (sort_key lock_key (xs @ zs))"
  using assms
proof (induction zs arbitrary: xs ys)
  case Nil
  then show ?case by simp
next
  case (Cons x zs)
  have l: "length ys = length xs" "ys \<noteq> []" "sorted (map lock_key ys)" using Cons.prems by auto (metis length_0_conv length_sort)
  have ins: "insert_behind x ys = sort_key lock_key (xs @ [x])"
  proof (rule properties_for_sort_key [symmetric])
    show "mset (insert_behind x ys) = mset (xs @ [x])"
      using Cons.prems(1) by (simp add: mset_insert_behind)
    show "sorted (map lock_key (insert_behind x ys))" by (rule insert_behind_sorted [OF l(3)])
    show "filter (\<lambda>y. lock_key k = lock_key y) (insert_behind x ys) = filter (\<lambda>y. lock_key k = lock_key y) (xs @ [x])" for k
    proof -
      have "filter (\<lambda>y. lock_key k = lock_key y) (insert_behind x ys) = filter (\<lambda>y. lock_key k = lock_key y) (ys @ [x])"
        unfolding insert_behind_def by (cases "lock_key k" "lock_key x" rule: linorder_cases)
          (auto intro!: filter_cong simp: filter_empty_conv)
      also have "\<dots> = filter (\<lambda>y. lock_key k = lock_key y) (xs @ [x])"
        using Cons.prems(1) sort_key_stable [of lock_key "lock_key k" xs] by (simp add: eq_commute)
      finally show ?thesis .
    qed
  qed
  have "length xs - 1 < length ys" using l(1,2) by (cases ys) auto
  then have a: "aget (ys @ x # zs) (length xs) = Some x" "aget (ys @ x # zs) (length xs - 1) = Some (last ys)"
    using l(1,2) by (simp_all add: aget_def nth_append last_conv_nth)
  have "sort_pos (length xs) (length (x # zs)) (ys @ x # zs) =
      sort_pos (length xs + 1) (length zs) (insert_behind x ys @ zs)"
    unfolding length_Cons sort_pos.simps a bind.bind_lunit
      sort_shift_step [OF l(3,2), of x zs, unfolded l(1)] ..
  also have "\<dots> = Some (sort_key lock_key ((xs @ [x]) @ zs))"
    using Cons.IH [OF ins] by simp
  finally show ?case by simp
qed

lemma sort_locks_eq: "sort_locks data = Some (sort_key lock_key data)"
proof (cases data)
  case Nil
  then show ?thesis by (simp add: sort_locks_def)
next
  case (Cons x xs)
  then show ?thesis using sort_pos_eq [of "[x]" "[x]" xs] by (simp add: sort_locks_def)
qed

text \<open>\<open>sort_locks\<close> stays inside its array and gives the requests in the order of the addresses of their
  locks, and the requests for one lock from the strongest to the weakest type, when the locks do
  not overlap in memory. So all threads ask for locks in the same order, and each thread for its
  write locks of a table in the order \<open>thr_lock\<close> relies on.\<close>

lemma sort_locks_ordered:
  assumes apart: "\<forall>a\<in>set data. \<forall>b\<in>set data. r_lock a < r_lock b \<longrightarrow> r_lock a + 13 < r_lock b"
    and types: "\<forall>a\<in>set data. r_type a \<noteq> TL_IGNORE"
  shows "\<exists>sorted. sort_locks data = Some sorted \<and> mset sorted = mset data \<and>
    (\<forall>i j. i < j \<longrightarrow> j < length sorted \<longrightarrow>
       r_lock (sorted ! i) < r_lock (sorted ! j) \<or> r_lock (sorted ! i) = r_lock (sorted ! j) \<and> r_type (sorted ! j) \<le> r_type (sorted ! i))"
proof (intro exI conjI allI impI)
  let ?s = "sort_key lock_key data"
  show "sort_locks data = Some ?s" by (rule sort_locks_eq)
  show "mset ?s = mset data" by simp
  fix i j assume ij: "i < j" "j < length ?s"
  let ?a = "?s ! i" and ?b = "?s ! j"
  have mem: "?a \<in> set data" "?b \<in> set data" using ij by (metis nth_mem set_sort order.strict_trans)+
  have "sorted (map lock_key ?s)" by simp
  then have "map lock_key ?s ! i \<le> map lock_key ?s ! j" using ij by (intro sorted_nth_mono) auto
  then have key: "lock_key ?a \<le> lock_key ?b" using ij by simp
  have t: "0 \<le> tl_value x \<and> tl_value x \<le> 12" if "x \<noteq> TL_IGNORE" for x using that by (cases x) simp_all
  have ta: "0 \<le> tl_value (r_type ?a) \<and> tl_value (r_type ?a) \<le> 12" "0 \<le> tl_value (r_type ?b) \<and> tl_value (r_type ?b) \<le> 12"
    using types mem t by blast+
  then have "tl_value (r_type ?a) mod 2 ^ 32 = tl_value (r_type ?a)" "tl_value (r_type ?b) mod 2 ^ 32 = tl_value (r_type ?b)"
    by (simp_all add: mod_pos_pos_trivial)
  then have le: "int (r_lock ?a) - tl_value (r_type ?a) \<le> int (r_lock ?b) - tl_value (r_type ?b)"
    using key by (simp only: lock_key_def)
  have "\<not> r_lock ?b < r_lock ?a"
  proof
    assume "r_lock ?b < r_lock ?a"
    then have "r_lock ?b + 13 < r_lock ?a" using apart mem by blast
    then show False using le ta by linarith
  qed
  then show "r_lock ?a < r_lock ?b \<or> r_lock ?a = r_lock ?b \<and> r_type ?b \<le> r_type ?a"
    using le by (auto simp: less_eq_thr_lock_type_def)
qed

end
