(* ===== verification/Merge_Status.thy ===== *)
theory Merge_Status
  imports Lock_Protocol
begin

text \<open>
  \<open>thr_lock_merge_status\<close> of \<^verbatim>\<open>mysys/thr_lock.c\<close>, which makes the instances of a table in one statement
  share their status. It walks over the sorted requests from the last to the first and calls the
  \<open>copy_status\<close> function of the lock; the model returns the sequence of these calls, each with the
  status parameters of the target and the source. \<open>mi_copy_status\<close> of MyISAM, the engine that
  has such a function, is the meaning of a call.
\<close>

section \<open>Model\<close>

text \<open>The loop that goes back to the first read lock or the last write lock of the same lock.\<close>

fun merge_back :: "lock_request list \<Rightarrow> nat \<Rightarrow> nat option" where
  "merge_back data 0 = do { x \<leftarrow> aget data 0; Some 0 }"
| "merge_back data (Suc p) =
     do { x \<leftarrow> aget data (Suc p);
          if r_type x \<le> TL_READ_NO_INSERT then
            do { y \<leftarrow> aget data p;
                 if r_lock y = r_lock x then merge_back data p else Some (Suc p) }
          else Some (Suc p) }"

text \<open>The loop that copies the status of \<open>from\<close> to the read locks up to \<open>last_lock\<close>.\<close>

fun merge_reads ::
  "(lock_request \<Rightarrow> ptr) \<Rightarrow> lock_request \<Rightarrow> lock_request \<Rightarrow> lock_request list \<Rightarrow> (ptr \<times> ptr) list option" where
  "merge_reads param from last_lock [] = None"
| "merge_reads param from last_lock (r # rs) =
     (if r_data r \<noteq> r_data last_lock
      then do { calls \<leftarrow> merge_reads param from last_lock rs; Some ((param r, param from) # calls) }
      else Some [(param r, param from)])"

text \<open>The outer loop from the position \<open>pos\<close>, before it is decremented.\<close>

partial_function (option) merge_loop ::
  "(ptr \<Rightarrow> bool) \<Rightarrow> (lock_request \<Rightarrow> ptr) \<Rightarrow> lock_request list \<Rightarrow> nat \<Rightarrow> lock_request \<Rightarrow> (ptr \<times> ptr) list option" where
  [code]: "merge_loop copy param data pos last_lock =
     (if pos = 0 then Some []
      else
        do { let pos = pos - 1;
             x \<leftarrow> aget data pos;
             if r_lock last_lock = r_lock x \<and> copy (r_lock last_lock) then
               if r_type last_lock \<le> TL_READ_NO_INSERT then
                 do { pos \<leftarrow> merge_back data pos;
                      x \<leftarrow> aget data pos;
                      calls \<leftarrow> merge_reads param x last_lock (drop (pos + 1) data);
                      calls' \<leftarrow> merge_loop copy param data pos x;
                      Some (calls @ calls') }
               else
                 do { calls \<leftarrow> merge_loop copy param data pos last_lock;
                      Some ((param x, param last_lock) # calls) }
             else merge_loop copy param data pos x })"

definition thr_lock_merge_status ::
  "(ptr \<Rightarrow> bool) \<Rightarrow> (lock_request \<Rightarrow> ptr) \<Rightarrow> lock_request list \<Rightarrow> (ptr \<times> ptr) list option" where
  "thr_lock_merge_status copy param data =
     (if length data > 1
      then do { last_lock \<leftarrow> aget data (length data - 1);
                merge_loop copy param data (length data - 1) last_lock }
      else Some [])"

text \<open>In MyISAM a status parameter is a table handler. A handler reads the state it points to: that of the
  handler \<open>state h\<close>, which is \<open>h\<close> itself after \<open>mi_get_status\<close>.\<close>

definition mi_copy_status :: "ptr \<times> ptr \<Rightarrow> (ptr \<Rightarrow> ptr) \<Rightarrow> ptr \<Rightarrow> ptr" where
  "mi_copy_status = (\<lambda>(to, from) state. state(to := from))"

section \<open>The leader of a lock\<close>

definition is_read_type :: "lock_request \<Rightarrow> bool" where
  "is_read_type r \<longleftrightarrow> r_type r \<le> TL_READ_NO_INSERT"

text \<open>The last write lock, or the first read lock if there is no write lock.\<close>

definition leader :: "lock_request list \<Rightarrow> ptr \<Rightarrow> lock_request" where
  "leader data l =
     (let rs = filter (\<lambda>r. r_lock r = l) data; ws = filter (\<lambda>r. \<not> is_read_type r) rs
      in if ws = [] then hd rs else last ws)"

text \<open>The requests for one lock stand together, the write locks before the read locks.\<close>

definition grouped :: "lock_request list \<Rightarrow> bool" where
  "grouped data \<longleftrightarrow> sorted_wrt (\<lambda>a b. r_lock a < r_lock b \<or>
     r_lock a = r_lock b \<and> (is_read_type a \<longrightarrow> is_read_type b)) data"

lemma groupedD:
  assumes "grouped data" "i < j" "j < length data"
  shows "r_lock (data ! i) < r_lock (data ! j) \<or>
    r_lock (data ! i) = r_lock (data ! j) \<and> (is_read_type (data ! i) \<longrightarrow> is_read_type (data ! j))"
  using assms by (simp add: grouped_def sorted_wrt_iff_nth_less)

text \<open>A position is the one of the leader if it holds a write lock and only read locks or other locks
  follow, or if it is the first of its lock and no write lock of this lock follows.\<close>

lemma last_filter_nth:
  assumes "j < length xs" "P (xs ! j)" "\<And>k. j < k \<Longrightarrow> k < length xs \<Longrightarrow> \<not> P (xs ! k)"
  shows "filter P xs \<noteq> [] \<and> last (filter P xs) = xs ! j"
proof -
  have "filter P (drop (Suc j) xs) = []" using assms(1,3) by (auto simp: filter_empty_conv in_set_conv_nth)
  moreover have "xs = take j xs @ xs ! j # drop (Suc j) xs" by (rule id_take_nth_drop [OF assms(1)])
  ultimately have "filter P xs = filter P (take j xs) @ [xs ! j]" using assms(2) by (metis filter.simps(2) filter_append)
  then show ?thesis by simp
qed

lemma hd_filter_nth:
  assumes "j < length xs" "P (xs ! j)" "\<And>k. k < j \<Longrightarrow> \<not> P (xs ! k)"
  shows "hd (filter P xs) = xs ! j"
proof -
  have "filter P (take j xs) = []" using assms(1,3) by (auto simp: filter_empty_conv in_set_conv_nth)
  moreover have "xs = take j xs @ xs ! j # drop (Suc j) xs" by (rule id_take_nth_drop [OF assms(1)])
  ultimately have "filter P xs = xs ! j # filter P (drop (Suc j) xs)"
    using assms(2) by (metis filter.simps(2) filter_append append_Nil)
  then show ?thesis by simp
qed

lemma leader_write:
  assumes "j < length data" "\<not> is_read_type (data ! j)"
    "\<And>k. j < k \<Longrightarrow> k < length data \<Longrightarrow> r_lock (data ! k) = r_lock (data ! j) \<Longrightarrow> is_read_type (data ! k)"
  shows "leader data (r_lock (data ! j)) = data ! j"
proof -
  let ?P = "\<lambda>r. r_lock r = r_lock (data ! j) \<and> \<not> is_read_type r"
  have "filter ?P data \<noteq> [] \<and> last (filter ?P data) = data ! j" by (rule last_filter_nth) (use assms in auto)
  then show ?thesis by (simp add: leader_def conj_commute)
qed

lemma leader_read:
  assumes o: "grouped data" and j: "j < length data" "is_read_type (data ! j)"
    and first: "\<And>k. k < j \<Longrightarrow> r_lock (data ! k) \<noteq> r_lock (data ! j)"
  shows "leader data (r_lock (data ! j)) = data ! j"
proof -
  have "is_read_type (data ! k)" if "k < length data" "r_lock (data ! k) = r_lock (data ! j)" for k
  proof (cases k j rule: linorder_cases)
    case greater
    then show ?thesis using groupedD [OF o greater that(1)] that(2) j(2) by simp
  qed (use first that j(2) in auto)
  then have "filter (\<lambda>r. r_lock r = r_lock (data ! j) \<and> \<not> is_read_type r) data = []"
    by (auto simp: filter_empty_conv in_set_conv_nth)
  then show ?thesis
    using hd_filter_nth [of j data "\<lambda>r. r_lock r = r_lock (data ! j)"] j(1) first by (simp add: leader_def conj_commute)
qed

section \<open>The loops\<close>

lemma merge_back_ok:
  assumes "p < length data"
  shows "\<exists>q. merge_back data p = Some q \<and> q \<le> p \<and>
    (\<forall>k. q \<le> k \<longrightarrow> k \<le> p \<longrightarrow> r_lock (data ! k) = r_lock (data ! p)) \<and>
    (\<forall>k. q < k \<longrightarrow> k \<le> p \<longrightarrow> is_read_type (data ! k)) \<and>
    (is_read_type (data ! q) \<longrightarrow> q = 0 \<or> r_lock (data ! (q - 1)) \<noteq> r_lock (data ! q))"
  using assms
proof (induction p)
  case 0
  then show ?case by (simp add: aget_def)
next
  case (Suc p)
  show ?case
  proof (cases "is_read_type (data ! Suc p) \<and> r_lock (data ! p) = r_lock (data ! Suc p)")
    case True
    obtain q where q: "merge_back data p = Some q" "q \<le> p"
      "\<forall>k. q \<le> k \<longrightarrow> k \<le> p \<longrightarrow> r_lock (data ! k) = r_lock (data ! p)"
      "\<forall>k. q < k \<longrightarrow> k \<le> p \<longrightarrow> is_read_type (data ! k)"
      "is_read_type (data ! q) \<longrightarrow> q = 0 \<or> r_lock (data ! (q - 1)) \<noteq> r_lock (data ! q)"
      using Suc.IH Suc_lessD [OF Suc.prems] by blast
    have "merge_back data (Suc p) = Some q"
      using True q(1) Suc.prems by (simp add: aget_def is_read_type_def)
    then show ?thesis using q(2-5) True by (intro exI [of _ q] conjI) (auto simp: le_Suc_eq)
  next
    case False
    then have "merge_back data (Suc p) = Some (Suc p)"
      using Suc.prems by (auto simp: aget_def is_read_type_def)
    then show ?thesis using False by (intro exI [of _ "Suc p"]) auto
  qed
qed

lemma merge_reads_eq:
  assumes "distinct (map r_data data)" "q < j" "j < length data"
  shows "merge_reads param x (data ! j) (drop (q + 1) data) =
    Some (map (\<lambda>k. (param (data ! k), param x)) [q + 1..<Suc j])"
  using assms(2)
proof (induction "j - q" arbitrary: q)
  case (Suc n)
  have q: "q + 1 < length data" using Suc.prems assms(3) by simp
  have d: "drop (q + 1) data = data ! (q + 1) # drop (q + 2) data" using Cons_nth_drop_Suc [OF q] by simp
  show ?case
  proof (cases "q + 1 = j")
    case True
    then show ?thesis unfolding d by simp
  next
    case False
    then have ne: "r_data (data ! (q + 1)) \<noteq> r_data (data ! j)"
      using assms(1,3) q nth_eq_iff_index_eq [of "map r_data data" "q + 1" j] by simp
    have "merge_reads param x (data ! j) (drop (q + 1 + 1) data) =
        Some (map (\<lambda>k. (param (data ! k), param x)) [q + 1 + 1..<Suc j])"
      using Suc.hyps(2) Suc.prems False by (intro Suc.hyps(1)) auto
    moreover have "[q + 1..<Suc j] = (q + 1) # [q + 1 + 1..<Suc j]" using Suc.prems by (simp add: upt_rec)
    ultimately show ?thesis unfolding d using ne by simp
  qed
qed simp

lemma fold_copy_reads:
  "fold mi_copy_status (map (\<lambda>k. (param (data ! k), v)) ks) state =
    (\<lambda>h. if \<exists>k\<in>set ks. h = param (data ! k) then v else state h)"
  by (induction ks arbitrary: state) (auto simp: mi_copy_status_def fun_eq_iff)

section \<open>The state of the walk\<close>

text \<open>The last lock is a read lock whose leader lies before the position.\<close>

definition open_read :: "lock_request list \<Rightarrow> nat \<Rightarrow> nat \<Rightarrow> bool" where
  "open_read data pos j \<longleftrightarrow> is_read_type (data ! j) \<and> (\<exists>k<pos. r_lock (data ! k) = r_lock (data ! j))"

text \<open>At the position \<open>pos\<close>, with the lock at \<open>j\<close> as the last lock: the instances from \<open>pos\<close> on have
  the state of their leaders, the others their own.\<close>

definition merge_inv ::
  "(ptr \<Rightarrow> bool) \<Rightarrow> (lock_request \<Rightarrow> ptr) \<Rightarrow> lock_request list \<Rightarrow> nat \<Rightarrow> nat \<Rightarrow> (ptr \<Rightarrow> ptr) \<Rightarrow> bool" where
  "merge_inv copy param data pos j state \<longleftrightarrow> pos \<le> j \<and> j < length data \<and>
     (\<forall>k. pos \<le> k \<longrightarrow> k \<le> j \<longrightarrow> r_lock (data ! k) = r_lock (data ! j)) \<and>
     (copy (r_lock (data ! j)) \<longrightarrow>
        (if open_read data pos j
         then j = pos \<and> (\<forall>k. pos < k \<longrightarrow> k < length data \<longrightarrow> r_lock (data ! k) \<noteq> r_lock (data ! j))
         else leader data (r_lock (data ! j)) = data ! j)) \<and>
     (\<forall>k<length data. state (param (data ! k)) =
        (if pos \<le> k \<and> copy (r_lock (data ! k)) \<and> \<not> (open_read data pos j \<and> k = pos)
         then param (leader data (r_lock (data ! k))) else param (data ! k)))"

lemma merge_invD:
  assumes "merge_inv copy param data pos j state"
  shows "pos \<le> j" "j < length data" "\<And>k. pos \<le> k \<Longrightarrow> k \<le> j \<Longrightarrow> r_lock (data ! k) = r_lock (data ! j)"
    "copy (r_lock (data ! j)) \<Longrightarrow> open_read data pos j \<Longrightarrow> j = pos"
    "copy (r_lock (data ! j)) \<Longrightarrow> open_read data pos j \<Longrightarrow> pos < k \<Longrightarrow> k < length data \<Longrightarrow>
      r_lock (data ! k) \<noteq> r_lock (data ! j)"
    "copy (r_lock (data ! j)) \<Longrightarrow> \<not> open_read data pos j \<Longrightarrow> leader data (r_lock (data ! j)) = data ! j"
    "\<And>k. k < length data \<Longrightarrow> state (param (data ! k)) =
        (if pos \<le> k \<and> copy (r_lock (data ! k)) \<and> \<not> (open_read data pos j \<and> k = pos)
         then param (leader data (r_lock (data ! k))) else param (data ! k))"
  using assms unfolding merge_inv_def by (meson | argo)+

lemma merge_invI_closed:
  assumes "pos \<le> j" "j < length data" "\<not> open_read data pos j"
    "\<And>k. pos \<le> k \<Longrightarrow> k \<le> j \<Longrightarrow> r_lock (data ! k) = r_lock (data ! j)"
    "copy (r_lock (data ! j)) \<Longrightarrow> leader data (r_lock (data ! j)) = data ! j"
    "\<And>k. k < length data \<Longrightarrow> state (param (data ! k)) = (if pos \<le> k \<and> copy (r_lock (data ! k))
       then param (leader data (r_lock (data ! k))) else param (data ! k))"
  shows "merge_inv copy param data pos j state"
proof -
  have "open_read data pos j = False" using assms(3) by simp
  then show ?thesis
    unfolding merge_inv_def by (simp only: if_False simp_thms) (intro conjI allI impI; (rule assms; assumption?))
qed

lemma grouped_mono:
  "grouped data \<Longrightarrow> i \<le> j \<Longrightarrow> j < length data \<Longrightarrow> r_lock (data ! i) \<le> r_lock (data ! j)"
  using groupedD [of data i j] by (cases "i = j") auto

lemma distinct_param:
  "distinct (map param data) \<Longrightarrow> i < length data \<Longrightarrow> j < length data \<Longrightarrow> i \<noteq> j \<Longrightarrow>
    param (data ! i) \<noteq> param (data ! j)"
  using nth_eq_iff_index_eq [of "map param data" i j] by simp

text \<open>The three cases of a lap.\<close>

lemma merge_skip:
  assumes o: "grouped data" and inv: "merge_inv copy param data (Suc p) j state"
    and skip: "r_lock (data ! j) \<noteq> r_lock (data ! p) \<or> \<not> copy (r_lock (data ! j))"
  shows "merge_inv copy param data p p state"
proof -
  note i = merge_invD [OF inv]
  have p: "p < length data" using i(1,2) by simp
  have pj: "r_lock (data ! p) \<le> r_lock (data ! j)" "r_lock (data ! Suc p) = r_lock (data ! j)"
    using grouped_mono [OF o, of p j] i(1,2) i(3) [of "Suc p"] by simp_all
  have closed: "\<not> (copy (r_lock (data ! j)) \<and> open_read data (Suc p) j)"
  proof
    assume c: "copy (r_lock (data ! j)) \<and> open_read data (Suc p) j"
    then obtain k where k: "k < Suc p" "r_lock (data ! k) = r_lock (data ! j)" by (auto simp: open_read_def)
    then have "r_lock (data ! j) \<le> r_lock (data ! p)" using grouped_mono [OF o, of k p] p by simp
    then show False using pj(1) c skip by simp
  qed
  have behind: "r_lock (data ! k) \<noteq> r_lock (data ! p)" if "p < k" "k < length data" "copy (r_lock (data ! p))" for k
  proof -
    have "r_lock (data ! j) \<le> r_lock (data ! k)" using grouped_mono [OF o, of "Suc p" k] that pj(2) by simp
    moreover have "r_lock (data ! j) \<noteq> r_lock (data ! p)" using skip that(3) by auto
    ultimately show ?thesis using pj(1) by simp
  qed
  have lead: "leader data (r_lock (data ! p)) = data ! p" if "copy (r_lock (data ! p))" "\<not> open_read data p p"
  proof (cases "is_read_type (data ! p)")
    case True
    then show ?thesis using that(2) by (intro leader_read [OF o p]) (auto simp: open_read_def)
  next
    case False
    then show ?thesis using behind that(1) by (intro leader_write [OF p]) auto
  qed
  have "state (param (data ! k)) = (if p \<le> k \<and> copy (r_lock (data ! k)) \<and> \<not> (open_read data p p \<and> k = p)
      then param (leader data (r_lock (data ! k))) else param (data ! k))" if k: "k < length data" for k
  proof (cases "k = p")
    case True
    then show ?thesis using i(7) [OF k] lead by auto
  next
    case False
    then have "Suc p \<le> k \<longleftrightarrow> p \<le> k" by auto
    moreover have "copy (r_lock (data ! k)) \<Longrightarrow> \<not> (open_read data (Suc p) j \<and> k = Suc p)" using closed pj(2) by auto
    ultimately show ?thesis using i(7) [OF k] False by auto
  qed
  then show ?thesis unfolding merge_inv_def using p lead behind by (auto simp: le_antisym)
qed

lemma merge_write:
  assumes o: "grouped data" and inv: "merge_inv copy param data (Suc p) j state"
    and inj: "distinct (map param data)"
    and same: "r_lock (data ! j) = r_lock (data ! p)" "copy (r_lock (data ! j))" and w: "\<not> is_read_type (data ! j)"
  shows "merge_inv copy param data p j (mi_copy_status (param (data ! p), param (data ! j)) state)"
proof -
  note i = merge_invD [OF inv]
  have p: "p < length data" using i(1,2) by simp
  have nopen: "\<not> open_read data q j" for q using w by (simp add: open_read_def)
  have lead: "leader data (r_lock (data ! j)) = data ! j" by (rule i(6) [OF same(2) nopen])
  have state: "mi_copy_status (param (data ! p), param (data ! j)) state (param (data ! k)) =
      (if p \<le> k \<and> copy (r_lock (data ! k)) then param (leader data (r_lock (data ! k))) else param (data ! k))"
    if k: "k < length data" for k
  proof (cases "k = p")
    case True
    then show ?thesis using same lead by (simp add: mi_copy_status_def)
  next
    case False
    then have "param (data ! k) \<noteq> param (data ! p)" by (rule distinct_param [OF inj k p])
    moreover have "Suc p \<le> k \<longleftrightarrow> p \<le> k" using False by auto
    ultimately show ?thesis using i(7) [OF k] nopen by (simp add: mi_copy_status_def)
  qed
  have same_lock: "r_lock (data ! k) = r_lock (data ! j)" if "p \<le> k" "k \<le> j" for k
    using i(3) [of k] that same(1) by (cases "k = p") auto
  have "p \<le> j" using i(1) by simp
  then show ?thesis using i(2) nopen same_lock lead state by (rule merge_invI_closed)
qed

lemma merge_reads_step:
  assumes o: "grouped data" and inv: "merge_inv copy param data (Suc p) j state"
    and inj: "distinct (map param data)"
    and same: "r_lock (data ! j) = r_lock (data ! p)" "copy (r_lock (data ! j))" and r: "is_read_type (data ! j)"
    and q: "q \<le> p" "\<And>k. q \<le> k \<Longrightarrow> k \<le> p \<Longrightarrow> r_lock (data ! k) = r_lock (data ! p)"
      "\<And>k. q < k \<Longrightarrow> k \<le> p \<Longrightarrow> is_read_type (data ! k)"
      "is_read_type (data ! q) \<Longrightarrow> q = 0 \<or> r_lock (data ! (q - 1)) \<noteq> r_lock (data ! q)"
  shows "j = Suc p" "merge_inv copy param data q q
    (fold mi_copy_status (map (\<lambda>k. (param (data ! k), param (data ! q))) [q + 1..<Suc j]) state)"
proof -
  note i = merge_invD [OF inv]
  have opn: "open_read data (Suc p) j" using r same(1) by (auto simp: open_read_def)
  show jp: "j = Suc p" by (rule i(4) [OF same(2) opn])
  have p: "Suc p < length data" "q < length data" using i(2) jp q(1) by simp_all
  have lq: "r_lock (data ! k) = r_lock (data ! q)" if "q \<le> k" "k \<le> j" for k
    using q(2) [of k] q(2) [of q] q(1) that same(1) jp by (cases "k = j") auto
  have after: "r_lock (data ! k) \<noteq> r_lock (data ! q)" if "j < k" "k < length data" for k
    using i(5) [OF same(2) opn, of k] that jp lq [of j] q(1) by simp
  have before: "r_lock (data ! k) \<noteq> r_lock (data ! q)" if "is_read_type (data ! q)" "k < q" for k
  proof
    assume eq: "r_lock (data ! k) = r_lock (data ! q)"
    have "r_lock (data ! k) \<le> r_lock (data ! (q - 1))" "r_lock (data ! (q - 1)) \<le> r_lock (data ! q)"
      using grouped_mono [OF o] that(2) p(2) by simp_all
    then show False using q(4) [OF that(1)] that(2) eq by auto
  qed
  have lead: "leader data (r_lock (data ! q)) = data ! q"
  proof (cases "is_read_type (data ! q)")
    case True
    then show ?thesis using before by (intro leader_read [OF o p(2)]) simp_all
  next
    case False
    have "is_read_type (data ! k)" if "q < k" "k < length data" "r_lock (data ! k) = r_lock (data ! q)" for k
      using after [of k] that q(3) [of k] r jp by (cases k j rule: linorder_cases) auto
    then show ?thesis using False by (intro leader_write [OF p(2)]) simp_all
  qed
  have upd: "fold mi_copy_status (map (\<lambda>k. (param (data ! k), param (data ! q))) [q + 1..<Suc j]) state (param (data ! k)) =
      (if q < k \<and> k \<le> j then param (data ! q) else state (param (data ! k)))" if k: "k < length data" for k
  proof -
    have "(\<exists>m\<in>set [q + 1..<Suc j]. param (data ! k) = param (data ! m)) \<longleftrightarrow> q < k \<and> k \<le> j"
      using distinct_param [OF inj k] i(2) by fastforce
    then show ?thesis unfolding fold_copy_reads by simp
  qed
  show "merge_inv copy param data q q
    (fold mi_copy_status (map (\<lambda>k. (param (data ! k), param (data ! q))) [q + 1..<Suc j]) state)"
  proof (rule merge_invI_closed)
    show "\<not> open_read data q q" using before by (auto simp: open_read_def)
    fix k assume k: "k < length data"
    consider "k < q" | "k = q" | "q < k" "k \<le> j" | "j < k" by linarith
    then show "fold mi_copy_status (map (\<lambda>k. (param (data ! k), param (data ! q))) [q + 1..<Suc j]) state (param (data ! k)) =
        (if q \<le> k \<and> copy (r_lock (data ! k)) then param (leader data (r_lock (data ! k))) else param (data ! k))"
    proof cases
      case 3
      then show ?thesis using upd [OF k] lq [of k] lq [of j] lead same(2) by simp
    next
      case 4
      then show ?thesis using upd [OF k] i(7) [OF k] jp q(1) by simp
    qed (use upd [OF k] i(7) [OF k] q(1) lead in simp_all)
  qed (use p lead in \<open>auto simp: le_antisym\<close>)
qed

section \<open>The whole walk\<close>

lemma merge_loop_ok:
  assumes o: "grouped data" and dist: "distinct (map r_data data)" "distinct (map param data)"
    and inv: "merge_inv copy param data pos j state"
  shows "\<exists>calls j'. merge_loop copy param data pos (data ! j) = Some calls \<and>
    merge_inv copy param data 0 j' (fold mi_copy_status calls state)"
  using inv
proof (induction pos arbitrary: j state rule: less_induct)
  case (less pos)
  show ?case
  proof (cases pos)
    case 0
    then show ?thesis using less.prems by (subst merge_loop.simps) auto
  next
    case (Suc p)
    note inv = less.prems [unfolded Suc]
    have p: "p < length data" "aget data p = Some (data ! p)" using merge_invD(1,2) [OF inv] by (simp_all add: aget_def)
    have run: "merge_loop copy param data pos (data ! j) =
      (if r_lock (data ! j) = r_lock (data ! p) \<and> copy (r_lock (data ! j)) then
         if is_read_type (data ! j) then
           do { pos \<leftarrow> merge_back data p; x \<leftarrow> aget data pos;
                calls \<leftarrow> merge_reads param x (data ! j) (drop (pos + 1) data);
                calls' \<leftarrow> merge_loop copy param data pos x; Some (calls @ calls') }
         else do { calls \<leftarrow> merge_loop copy param data p (data ! j); Some ((param (data ! p), param (data ! j)) # calls) }
       else merge_loop copy param data p (data ! p))"
      by (subst merge_loop.simps) (simp add: Suc p(2) is_read_type_def Let_def cong: conj_cong)
    consider (skip) "r_lock (data ! j) \<noteq> r_lock (data ! p) \<or> \<not> copy (r_lock (data ! j))"
      | (reads) "r_lock (data ! j) = r_lock (data ! p)" "copy (r_lock (data ! j))" "is_read_type (data ! j)"
      | (writes) "r_lock (data ! j) = r_lock (data ! p)" "copy (r_lock (data ! j))" "\<not> is_read_type (data ! j)" by blast
    then show ?thesis
    proof cases
      case skip
      then show ?thesis unfolding run using less.IH [OF _ merge_skip [OF o inv skip]] Suc by auto
    next
      case writes
      then show ?thesis unfolding run using less.IH [OF _ merge_write [OF o inv dist(2) writes]] Suc by fastforce
    next
      case reads
      obtain q where q: "merge_back data p = Some q" "q \<le> p"
        "\<forall>k. q \<le> k \<longrightarrow> k \<le> p \<longrightarrow> r_lock (data ! k) = r_lock (data ! p)"
        "\<forall>k. q < k \<longrightarrow> k \<le> p \<longrightarrow> is_read_type (data ! k)"
        "is_read_type (data ! q) \<longrightarrow> q = 0 \<or> r_lock (data ! (q - 1)) \<noteq> r_lock (data ! q)"
        using merge_back_ok [OF p(1)] by blast
      note st = merge_reads_step [OF o inv dist(2) reads q(2) q(3,4,5) [rule_format]]
      obtain calls j' where c: "merge_loop copy param data q (data ! q) = Some calls"
        "merge_inv copy param data 0 j' (fold mi_copy_status calls
          (fold mi_copy_status (map (\<lambda>k. (param (data ! k), param (data ! q))) [q + 1..<Suc j]) state))"
        using less.IH [OF _ st(2)] q(2) Suc by auto
      have "aget data q = Some (data ! q)" using q(2) p(1) by (simp add: aget_def)
      moreover have "q < j" "j < length data" using st(1) q(2) merge_invD(2) [OF inv] by simp_all
      ultimately show ?thesis unfolding run using reads q(1) c merge_reads_eq [OF dist(1), of q j param "data ! q"]
        by (auto simp: fold_append)
    qed
  qed
qed

lemma thr_lock_merge_status_ok:
  assumes o: "grouped data" and dist: "distinct (map r_data data)" "distinct (map param data)"
  shows "\<exists>calls. thr_lock_merge_status copy param data = Some calls \<and>
    (\<forall>r\<in>set data. fold mi_copy_status calls (\<lambda>h. h) (param r) =
       param (if copy (r_lock r) then leader data (r_lock r) else r))"
proof (cases "length data > 1")
  case False
  then have "data = [] \<or> (\<exists>r. data = [r])" by (cases data) auto
  then show ?thesis by (auto simp: thr_lock_merge_status_def leader_def)
next
  case True
  let ?j = "length data - 1"
  have j: "?j < length data" using True by simp
  have "leader data (r_lock (data ! ?j)) = data ! ?j" if "\<not> open_read data ?j ?j"
    using that j leader_read [OF o j] leader_write [OF j] by (cases "is_read_type (data ! ?j)") (auto simp: open_read_def)
  then have "merge_inv copy param data ?j ?j (\<lambda>h. h)"
    unfolding merge_inv_def using j by (auto simp: le_antisym dest!: le_neq_implies_less)
  from merge_loop_ok [OF o dist this] obtain calls j' where
    c: "merge_loop copy param data ?j (data ! ?j) = Some calls"
      "merge_inv copy param data 0 j' (fold mi_copy_status calls (\<lambda>h. h))" by blast
  have no: "\<not> open_read data 0 j'" by (simp add: open_read_def)
  have "fold mi_copy_status calls (\<lambda>h. h) (param r) = param (if copy (r_lock r) then leader data (r_lock r) else r)"
    if "r \<in> set data" for r
    using that merge_invD(7) [OF c(2)] no by (auto simp: in_set_conv_nth)
  then show ?thesis using True c(1) j by (auto simp: thr_lock_merge_status_def aget_def)
qed

section \<open>Property\<close>

text \<open>C12: After \<open>thr_lock_merge_status\<close> all instances of a table in a statement use one state, that of
  the last write lock on the table, or of the first read lock if there is no write lock, when the
  engine has a function that copies the status; the instances of other tables keep their own state. The
  walk stays inside the array and ends.\<close>

theorem instances_share_status:
  assumes "grouped data" "distinct (map r_data data)" "distinct (map param data)"
  shows "\<exists>calls. thr_lock_merge_status copy param data = Some calls \<and>
    (\<forall>r\<in>set data. fold mi_copy_status calls (\<lambda>h. h) (param r) =
       param (if copy (r_lock r) then leader data (r_lock r) else r))"
  using assms by (rule thr_lock_merge_status_ok)

text \<open>One statement with two write locks and two read locks on a table, and a read lock on another one.\<close>

definition sample_requests :: "lock_request list" where
  "sample_requests =
    [\<lparr>r_lock = 100, r_type = TL_WRITE, r_data = 1\<rparr>, \<lparr>r_lock = 100, r_type = TL_WRITE_ALLOW_WRITE, r_data = 2\<rparr>,
     \<lparr>r_lock = 100, r_type = TL_READ, r_data = 3\<rparr>, \<lparr>r_lock = 100, r_type = TL_READ, r_data = 4\<rparr>,
     \<lparr>r_lock = 200, r_type = TL_READ, r_data = 5\<rparr>]"

theorem instances_share_status_witness:
  "\<exists>calls. thr_lock_merge_status (\<lambda>_. True) r_data sample_requests = Some calls \<and>
     map (fold mi_copy_status calls (\<lambda>h. h)) [1, 2, 3, 4, 5] = [2, 2, 2, 2, 5]"
proof -
  have h: "grouped sample_requests" "distinct (map r_data sample_requests)"
    by (simp_all add: grouped_def sample_requests_def is_read_type_def thr_lock_type_order)
  have l: "leader sample_requests 100 = sample_requests ! 1" "leader sample_requests 200 = sample_requests ! 4"
    by (simp_all add: leader_def sample_requests_def is_read_type_def thr_lock_type_order Let_def)
  obtain calls where c: "thr_lock_merge_status (\<lambda>_. True) r_data sample_requests = Some calls"
    "\<forall>r\<in>set sample_requests. fold mi_copy_status calls (\<lambda>h. h) (r_data r) = r_data (leader sample_requests (r_lock r))"
    using instances_share_status [OF h h(2), of "\<lambda>_. True"] by auto
  show ?thesis using c l by (simp add: sample_requests_def)
qed

end
