(* ===== verification/Multi_Lock.thy ===== *)
theory Multi_Lock
  imports Merge_Status
begin

text \<open>
  Threads that take the locks of a statement with \<open>thr_multi_lock\<close> and release them with
  \<open>thr_multi_unlock\<close>: \<^verbatim>\<open>mysys/thr_lock.c\<close>. A thread is known by the address of its \<open>THR_LOCK_INFO\<close>,
  the owner of its instances. The system is a family of locks, by their addresses, and the place every
  thread has reached in the two functions; a thread stands still where it waits for a lock and goes on
  when its wait ends.

  Every reachable state is shown to be free of deadlock, and a statement to hold all of its locks
  or none. Both rest on the order in which \<open>sort_locks\<close> puts the requests and on the rule that a
  thread is never made to wait for a lock it holds already.
\<close>

section \<open>Model\<close>

text \<open>\<open>Locking data pos\<close> is about to request the lock at \<open>pos\<close>, \<open>Blocked data pos\<close> waits for it in
  \<open>wait_for_lock\<close>. \<open>Releasing data pos count result\<close> is in \<open>thr_multi_unlock\<close> of the first \<open>count\<close>
  instances; \<open>result\<close> is what \<open>thr_multi_lock\<close> returns if it was called there.\<close>

datatype thread_state =
    Idle
  | Locking "lock_request list" nat
  | Blocked "lock_request list" nat
  | Holding "lock_request list"
  | Releasing "lock_request list" nat nat enum_thr_lock_result

record lock_system =
  locks :: "ptr \<Rightarrow> lock_proto"
  thread :: "ptr \<Rightarrow> thread_state"
  status_calls :: "(ptr \<times> ptr) list"

definition thr_multi_lock_enter :: "lock_request list \<Rightarrow> thread_state option" where
  "thr_multi_lock_enter data =
     do { data \<leftarrow> (if length data > 1 then sort_locks data else Some data);
          Some (Locking data 0) }"

text \<open>The rest of a lap after \<open>thr_lock\<close> has returned.\<close>

definition thr_multi_lock_result :: "lock_request list \<Rightarrow> nat \<Rightarrow> enum_thr_lock_result \<Rightarrow> thread_state" where
  "thr_multi_lock_result data pos result =
     (if result \<noteq> THR_LOCK_SUCCESS then Releasing data 0 pos result else Locking data (pos + 1))"

definition thr_multi_lock_lap :: "lock_request list \<Rightarrow> nat \<Rightarrow> lock_outcome \<Rightarrow> thread_state" where
  "thr_multi_lock_lap data pos out =
     (case out of Done result \<Rightarrow> thr_multi_lock_result data pos result | Wait q \<Rightarrow> Blocked data pos)"

text \<open>The body of the loop of \<open>thr_multi_unlock\<close>.\<close>

definition thr_multi_unlock_lap :: "ptr \<Rightarrow> lock_world \<Rightarrow> lock_world option" where
  "thr_multi_unlock_lap d w = (if type_of w d \<noteq> TL_UNLOCK then thr_unlock d w else Some w)"

fun requests :: "thread_state \<Rightarrow> lock_request list" where
  "requests Idle = []"
| "requests (Locking data pos) = data"
| "requests (Blocked data pos) = data"
| "requests (Holding data) = data"
| "requests (Releasing data pos n result) = data"

text \<open>What a statement may ask for: read and write locks, except \<open>TL_WRITE_DELAYED\<close>, with one instance for
  each and with locks that do not overlap in memory.\<close>

definition askable :: "lock_request list \<Rightarrow> bool" where
  "askable data \<longleftrightarrow> distinct (map r_data data) \<and>
     (\<forall>r\<in>set data. (is_read (r_type r) \<or> is_write (r_type r)) \<and> r_type r \<noteq> TL_WRITE_DELAYED) \<and>
     (\<forall>a\<in>set data. \<forall>b\<in>set data. r_lock a < r_lock b \<longrightarrow> r_lock a + 13 < r_lock b)"

abbreviation world_at :: "lock_system \<Rightarrow> ptr \<Rightarrow> lock_world" where
  "world_at s l \<equiv> world (locks s l)"

text \<open>The call of \<open>thr_lock_merge_status\<close> at the end of \<open>thr_multi_lock\<close>, on the types the instances have then.\<close>

definition merge_call :: "lock_system \<Rightarrow> lock_request list \<Rightarrow> (ptr \<times> ptr) list option" where
  "merge_call s data =
     thr_lock_merge_status (\<lambda>l. copy_status (lock (world_at s l)))
       (\<lambda>r. d_status_param (datas (world_at s (r_lock r)) (r_data r)))
       (map (\<lambda>r. r\<lparr>r_type := type_of (world_at s (r_lock r)) (r_data r)\<rparr>) data)"

inductive system_step :: "lock_system \<Rightarrow> lock_system \<Rightarrow> bool" where
  enter: "thread s t = Idle \<Longrightarrow> askable data \<Longrightarrow>
    \<forall>u. \<forall>r\<in>set (requests (thread s u)). r_data r \<notin> r_data ` set data \<Longrightarrow>
    thr_multi_lock_enter data = Some ts \<Longrightarrow>
    system_step s (s\<lparr>thread := (thread s)(t := ts)\<rparr>)"
| request: "thread s t = Locking data pos \<Longrightarrow> pos < length data \<Longrightarrow> r = data ! pos \<Longrightarrow> p = locks s (r_lock r) \<Longrightarrow>
    self \<noteq> 0 \<Longrightarrow> length (chain_of Read (world p)) + length (chain_of Read_Wait (world p)) + 1 < 2 ^ 32 \<Longrightarrow>
    is_write (r_type r) \<longrightarrow> request_ok t (r_type r) (world p) \<Longrightarrow>
    thr_lock (r_data r) t (r_type r) self (world p) = Some (out, w) \<Longrightarrow>
    system_step s (s\<lparr>locks := (locks s)(r_lock r := p\<lparr>world := w, waiting := note_wait (r_data r) False out (waiting p)\<rparr>),
      thread := (thread s)(t := thr_multi_lock_lap data pos out)\<rparr>)"
| locked: "thread s t = Locking data (length data) \<Longrightarrow> merge_call s data = Some calls \<Longrightarrow>
    system_step s (s\<lparr>thread := (thread s)(t := Holding data), status_calls := status_calls s @ calls\<rparr>)"
| leave_wait: "thread s t = Blocked data pos \<Longrightarrow> r = data ! pos \<Longrightarrow> p = locks s (r_lock r) \<Longrightarrow>
    waiting p (r_data r) = Some (q, in_wait_list) \<Longrightarrow>
    wait_for_lock_lap (r_data r) in_wait_list abort timed_out (world p) = Some res \<Longrightarrow>
    wait_for_lock_exit q (r_data r) res (world p) = Some (result, w) \<Longrightarrow>
    system_step s (s\<lparr>locks := (locks s)(r_lock r := p\<lparr>world := w, waiting := (waiting p)(r_data r := None)\<rparr>),
      thread := (thread s)(t := thr_multi_lock_result data pos result)\<rparr>)"
| release: "thread s t = Holding data \<Longrightarrow>
    system_step s (s\<lparr>thread := (thread s)(t := Releasing data 0 (length data) THR_LOCK_SUCCESS)\<rparr>)"
| unlock: "thread s t = Releasing data pos n result \<Longrightarrow> pos < n \<Longrightarrow> r = data ! pos \<Longrightarrow> p = locks s (r_lock r) \<Longrightarrow>
    thr_multi_unlock_lap (r_data r) (world p) = Some w \<Longrightarrow>
    system_step s (s\<lparr>locks := (locks s)(r_lock r := p\<lparr>world := w\<rparr>),
      thread := (thread s)(t := Releasing data (pos + 1) n result)\<rparr>)"
| leave: "thread s t = Releasing data n n result \<Longrightarrow>
    system_step s (s\<lparr>thread := (thread s)(t := Idle)\<rparr>)"
| abort_all: "p = locks s l \<Longrightarrow>
    thr_abort_locks upgrade (world p) = Some w \<Longrightarrow>
    system_step s (s\<lparr>locks := (locks s)(l := p\<lparr>world := w, forced := forced p \<or> takes_over upgrade (world p)\<rparr>)\<rparr>)"
| abort_thread: "p = locks s l \<Longrightarrow> thr_abort_locks_for_thread tid (world p) = Some (found, w) \<Longrightarrow>
    system_step s (s\<lparr>locks := (locks s)(l := p\<lparr>world := w\<rparr>)\<rparr>)"

definition system_start :: "lock_system \<Rightarrow> bool" where
  "system_start s \<longleftrightarrow> (\<forall>l. initial (locks s l)) \<and> (\<forall>t. thread s t = Idle)"

section \<open>One request among others\<close>

text \<open>The type an instance has for a request: the requested one, another write type, or the mark of a
  killed request.\<close>

definition asked :: "thr_lock_type \<Rightarrow> lock_world \<Rightarrow> ptr \<Rightarrow> bool" where
  "asked ty w d \<longleftrightarrow> type_of w d = ty \<or> type_of w d = TL_UNLOCK \<or> is_write ty \<and> is_write (type_of w d)"

lemma asked_kept: "asked ty w d \<Longrightarrow> type_kept w w' d \<Longrightarrow> asked ty w' d"
  by (auto simp: asked_def type_kept_def)

text \<open>A step of a request for the instance \<open>d\<close>, and the outcome of a request up to its wait.\<close>

definition request_step :: "ptr \<Rightarrow> lock_world \<Rightarrow> lock_world \<Rightarrow> bool" where
  "request_step d w w' \<longleftrightarrow> frame w {d} w' \<and> owner_of w' d = owner_of w d \<and> asked (type_of w d) w' d"

definition request_outcome :: "ptr \<Rightarrow> lock_world \<Rightarrow> lock_outcome \<times> lock_world \<Rightarrow> bool" where
  "request_outcome d w = (\<lambda>(out, w'). request_step d w w' \<and>
     (out = Done THR_LOCK_SUCCESS \<longrightarrow> d \<in> set (chain_of Read w') \<union> set (chain_of Write w')) \<and>
     (\<forall>q. out = Wait q \<longrightarrow> q \<in> {Read_Wait, Write_Wait}))"

lemma request_step_refl [simp]: "request_step d w w"
  by (simp add: request_step_def frame_def asked_def)

lemma asked_trans: "asked ty w1 d \<Longrightarrow> asked (type_of w1 d) w2 d \<Longrightarrow> asked ty w2 d"
  by (auto simp: asked_def is_write_def thr_lock_type_order)

lemma request_step_trans [trans]:
  assumes "request_step d w w1" "request_step d w1 w2" shows "request_step d w w2"
  using assms frame_trans [of w "{d}" w1 w2] asked_trans [of "type_of w d" w1 d w2] by (simp add: request_step_def)

lemma request_outcome_trans: "request_step d w w1 \<Longrightarrow> request_outcome d w1 res \<Longrightarrow> request_outcome d w res"
  using request_step_trans [of d w w1 "snd res"] by (auto simp: request_outcome_def)

lemma grant_outcome: "q \<in> {Read, Write} \<Longrightarrow> grant_now q d ci w = Some res \<Longrightarrow> request_outcome d w res"
  by (auto simp: grant_now_def request_outcome_def request_step_def frame_def type_kept_def asked_def lock_ops in_chains_def
      split: if_splits)

lemma refuse_outcome: "refuse d w = Some res \<Longrightarrow> request_outcome d w res"
  by (auto simp: refuse_def request_outcome_def request_step_def frame_def type_kept_def asked_def lock_ops)

lemma wait_outcome: "q \<in> {Read_Wait, Write_Wait} \<Longrightarrow> request_outcome d w (Wait q, w)"
  by (auto simp: request_outcome_def)

lemma count_step: "request_step d w (count_no_insert ty w)"
  by (simp add: request_step_def frame_def type_kept_def asked_def lock_ops count_no_insert_def)

lemma upgrade_step: "is_write (type_of w d) \<Longrightarrow> is_write ty \<Longrightarrow> request_step d w (set_type d ty w)"
  by (simp add: request_step_def frame_def type_kept_def asked_def lock_ops)

lemma thr_lock_read_outcome:
  assumes "thr_lock_read d ty w = Some res"
  shows "request_outcome d w res"
proof -
  have "grant_now Read d False (count_no_insert ty w) = Some res \<or> refuse d w = Some res \<or> res = (Wait Read_Wait, w)"
    using assms unfolding thr_lock_read_def by (cases "chain_of Write w") (auto split: if_splits)
  then show ?thesis
    using grant_outcome [of Read d False "count_no_insert ty w" res] request_outcome_trans [OF count_step, of d ty w res]
      refuse_outcome [of d w res] wait_outcome [of Read_Wait d w] by (elim disjE) simp_all
qed

lemma thr_lock_write_locked_outcome:
  assumes "thr_lock_write_locked d ty wr w = Some res"
  shows "request_outcome d w res"
proof -
  have "grant_now Write d False w = Some res \<or> refuse d w = Some res \<or> res = (Wait Write_Wait, w)"
    using assms unfolding thr_lock_write_locked_def by (auto simp: bind_eq_Some_conv split: if_splits)
  then show ?thesis
    using grant_outcome [of Write d False w res] refuse_outcome [of d w res] wait_outcome [of Write_Wait d w]
    by (elim disjE) simp_all
qed

lemma thr_lock_write_free_outcome:
  assumes "thr_lock_write_free d ty w = Some res" "is_write (type_of w d)"
    "is_write (thr_upgraded_concurrent_insert_lock w)"
  shows "request_outcome d w res"
proof (cases "chain_of Write_Wait w = []")
  case True
  then obtain bad where bad: "(let concurrent_insert = (ty = TL_WRITE_CONCURRENT_INSERT \<and> \<not> bad);
         lock_type = (if bad then thr_upgraded_concurrent_insert_lock w else ty);
         w = (if bad then set_type d lock_type w else w)
     in if chain_of Read w = [] \<or> (lock_type \<le> TL_WRITE_DELAYED \<and>
             (\<not> shares_with_insert lock_type \<or> read_no_write_count (lock w) = 0))
         then grant_now Write d concurrent_insert w
         else Some (Wait Write_Wait, w)) = Some res"
    using assms(1) unfolding thr_lock_write_free_def Let_def by (auto simp: bind_eq_Some_conv)
  let ?w = "if bad then set_type d (thr_upgraded_concurrent_insert_lock w) w else w"
  have "grant_now Write d (ty = TL_WRITE_CONCURRENT_INSERT \<and> \<not> bad) ?w = Some res \<or> res = (Wait Write_Wait, ?w)"
    using bad unfolding Let_def by (cases bad) (auto split: if_splits)
  then have "request_outcome d ?w res"
    using grant_outcome [of Write d _ ?w res] wait_outcome [of Write_Wait d ?w] by (elim disjE) simp_all
  moreover have "request_step d w ?w" using assms(2,3) by (simp add: upgrade_step)
  ultimately show ?thesis by (intro request_outcome_trans [of d w ?w res])
next
  case False
  then show ?thesis using assms(1) wait_outcome [of Write_Wait d w] by (auto simp: thr_lock_write_free_def)
qed

lemma thr_lock_write_outcome:
  assumes "thr_lock_write d ty self w = Some res" "is_write (type_of w d)"
    "is_write (thr_upgraded_concurrent_insert_lock w)" "ty \<noteq> TL_WRITE_DELAYED"
  shows "request_outcome d w res"
proof -
  define up where "up \<longleftrightarrow> ty = TL_WRITE_CONCURRENT_INSERT \<and> check_status (lock w) = None"
  define ty' where "ty' = (if up then thr_upgraded_concurrent_insert_lock w else ty)"
  define w' where "w' = (if up then set_type d ty' w else w)"
  have s: "request_step d w w'" using assms(2,3) by (simp add: w'_def ty'_def upgrade_step)
  have w: "is_write (type_of w' d)" "is_write (thr_upgraded_concurrent_insert_lock w')"
    using assms(2,3) by (simp_all add: w'_def ty'_def lock_ops)
  have "thr_lock_write d ty self w =
      (case chain_of Write w' of wr # _ \<Rightarrow> thr_lock_write_locked d ty' wr w' | [] \<Rightarrow> thr_lock_write_free d ty' w')"
    using assms(4) unfolding thr_lock_write_def Let_def w'_def ty'_def up_def by simp
  then have "request_outcome d w' res"
    using assms(1) thr_lock_write_locked_outcome thr_lock_write_free_outcome [OF _ w]
    by (cases "chain_of Write w'") simp_all
  then show ?thesis by (rule request_outcome_trans [OF s])
qed

text \<open>A whole request.\<close>

lemma thr_lock_outcome:
  assumes run: "thr_lock d owner ty self w = Some (out, w')" and ok: "world_ok w"
    and ty: "is_read ty \<or> is_write ty" "ty \<noteq> TL_WRITE_DELAYED"
  shows "frame w {d} w'" "owner_of w' d = owner" "asked ty w' d"
    "out = Done THR_LOCK_SUCCESS \<Longrightarrow> d \<in> set (chain_of Read w') \<union> set (chain_of Write w')"
proof -
  let ?w = "w\<lparr>datas := (datas w)(d := (datas w d)\<lparr>d_cond := 0, d_type := ty, d_owner := owner\<rparr>)\<rparr>"
  have up: "is_write (thr_upgraded_concurrent_insert_lock ?w)"
    using ok by (auto simp: world_ok_def is_write_def thr_lock_type_order)
  obtain w1 where w1: "(if ty \<le> TL_READ_NO_INSERT then thr_lock_read d ty ?w else thr_lock_write d ty self ?w) = Some (out, w1)"
    "w' = (case out of Done r \<Rightarrow> w1 | Wait q \<Rightarrow> wait_for_lock_enter q d False self w1)"
    using run by (auto simp: thr_lock_def begin_wait_def Let_def)
  have "is_write ty" if "\<not> ty \<le> TL_READ_NO_INSERT" using ty(1) that by (auto simp: is_read_def)
  then have o: "request_outcome d ?w (out, w1)"
    using w1(1) thr_lock_read_outcome thr_lock_write_outcome [of d ty self ?w] up ty(2) by (auto split: if_splits)
  have e: "request_step d w1 (wait_for_lock_enter q d False self w1)" if "q \<in> {Read_Wait, Write_Wait}" for q
    using that by (auto simp: wait_for_lock_enter_def request_step_def frame_def type_kept_def asked_def lock_ops in_chains_def
        split: if_splits)
  have s: "request_step d ?w w'"
    using o e w1(2) by (cases out) (auto simp: request_outcome_def intro: request_step_trans)
  have "frame w {d} ?w" by (simp add: frame_def type_kept_def)
  then show "frame w {d} w'" using s frame_trans by (auto simp: request_step_def)
  show "owner_of w' d = owner" "asked ty w' d" using s by (simp_all add: request_step_def)
  show "d \<in> set (chain_of Read w') \<union> set (chain_of Write w')" if "out = Done THR_LOCK_SUCCESS"
    using o w1(2) that by (simp add: request_outcome_def)
qed

text \<open>A thread that holds the lock already is never made to wait for it, when it asks for no more than
  it holds.\<close>

lemma read_type_cases: "is_read ty \<Longrightarrow> ty \<le> TL_READ_HIGH_PRIORITY \<or> ty = TL_READ_NO_INSERT"
  by (cases ty) (simp_all add: is_read_def thr_lock_type_order)

lemma no_wait_for_own_read:
  assumes ok: "world_ok w" and x: "x \<in> set (chain_of Read w) \<union> set (chain_of Write w)" "owner_of w x = owner_of w d"
    and strong: "x \<in> set (chain_of Read w) \<Longrightarrow> ty \<le> type_of w x" and ty: "is_read ty"
  shows "thr_lock_read d ty w \<noteq> Some (Wait q, w')"
proof (cases "chain_of Write w")
  case Nil
  then have "has_old_lock (datas w) (chain_of Read w) (owner_of w d)" using x by (auto simp: has_old_lock_iff)
  then show ?thesis using Nil by (simp add: thr_lock_read_def grant_now_def)
next
  case (Cons wr ws)
  have run: "running_ok (datas w) (chain_of Read w) (chain_of Write w)" by (rule world_ok_chains(7) [OF ok])
  have "owner_of w d = owner_of w wr \<or> type_of w wr \<le> TL_WRITE_DELAYED \<and>
      (ty \<le> TL_READ_HIGH_PRIORITY \<or> type_of w wr \<noteq> TL_WRITE_CONCURRENT_INSERT)"
  proof (cases "x \<in> set (chain_of Read w)")
    case True
    have "is_read (type_of w x)" using world_ok_chains(2) [OF ok True] by simp
    then have "ty \<le> TL_READ_HIGH_PRIORITY \<or> type_of w x = TL_READ_NO_INSERT"
      using read_type_cases [OF ty] strong [OF True] by (cases "type_of w x") (auto simp: is_read_def thr_lock_type_order)
    then show ?thesis using run True x(2) Cons by (auto simp: running_ok_def compatible_def)
  next
    case False
    then have "owner_of w x = owner_of w wr \<or> type_of w wr = TL_WRITE_ALLOW_WRITE"
      using run x(1) Cons unfolding running_ok_def by auto
    then show ?thesis using x(2) by (auto simp: thr_lock_type_order)
  qed
  then show ?thesis using Cons by (auto simp: thr_lock_read_def grant_now_def thr_lock_owner_equal_def refuse_def)
qed

lemma no_wait_for_own_write:
  assumes x: "x \<in> set (chain_of Write w)" "owner_of w x = owner_of w d" "x \<noteq> d"
  shows "thr_lock_write d ty self w \<noteq> Some (Wait q, w')"
proof -
  define up where "up \<longleftrightarrow> ty = TL_WRITE_CONCURRENT_INSERT \<and> check_status (lock w) = None"
  define ty' where "ty' = (if up then thr_upgraded_concurrent_insert_lock w else ty)"
  define w1 where "w1 = (if up then set_type d ty' w else w)"
  have "chain_of Write w1 = chain_of Write w" "has_old_lock (datas w1) (chain_of Write w1) (owner_of w1 d)"
    using x by (auto simp: w1_def lock_ops has_old_lock_iff)
  then have l: "thr_lock_write_locked d ty' wr w1 \<noteq> Some (Wait q, w')" for wr
    by (auto simp: thr_lock_write_locked_def refuse_def grant_now_def bind_eq_Some_conv)
  obtain wr ws where "chain_of Write w = wr # ws" using x(1) by (cases "chain_of Write w") auto
  moreover from this have "chain_of Write w1 = wr # ws" by (simp add: w1_def lock_ops)
  ultimately have "thr_lock_write d ty self w =
      (if ty = TL_WRITE_DELAYED then if type_of w wr = TL_WRITE_ONLY then refuse d w
         else Some (Done THR_LOCK_SUCCESS, inc_locks_immediate (set_cond d self (link_last Write_Wait d w)))
       else thr_lock_write_locked d ty' wr w1)"
    unfolding thr_lock_write_def Let_def w1_def ty'_def up_def by simp
  then show ?thesis using l by (simp add: refuse_def)
qed

lemma no_wait_for_own:
  assumes ok: "world_ok w" and out: "\<not> in_chains (chain (lock w)) d"
    and x: "x \<in> set (chain_of Read w) \<union> set (chain_of Write w)" "owner_of w x = owner"
    and strong: "is_write ty \<Longrightarrow> x \<in> set (chain_of Write w)"
      "is_read ty \<Longrightarrow> x \<in> set (chain_of Read w) \<Longrightarrow> ty \<le> type_of w x"
    and ty: "is_read ty \<or> is_write ty"
  shows "thr_lock d owner ty self w \<noteq> Some (Wait q, w')"
proof -
  let ?w = "w\<lparr>datas := (datas w)(d := (datas w d)\<lparr>d_cond := 0, d_type := ty, d_owner := owner\<rparr>)\<rparr>"
  have xd: "x \<noteq> d" using x(1) out by (auto simp: in_chains_iff)
  have l: "lock_ok (datas ?w) (chain (lock w)) (read_no_write_count (lock w))"
    using ok out by (simp add: world_ok_def lock_ok_fresh)
  have ok': "world_ok ?w" using ok l out by (auto simp: world_ok_def in_chains_iff)
  have split: "thr_lock d owner ty self w = map_option (begin_wait d False self)
      (if ty \<le> TL_READ_NO_INSERT then thr_lock_read d ty ?w else thr_lock_write d ty self ?w)"
    by (simp add: thr_lock_def Let_def)
  show ?thesis
  proof (cases "ty \<le> TL_READ_NO_INSERT")
    case True
    then have "is_read ty" using ty by (auto simp: is_write_def thr_lock_type_order)
    then have "thr_lock_read d ty ?w \<noteq> Some (Wait q, w'')" for w''
      using x xd strong(2) by (intro no_wait_for_own_read [OF ok', of x]) simp_all
    then show ?thesis unfolding split using True by (auto simp: begin_wait_def)
  next
    case False
    then have "is_write ty" using ty by (auto simp: is_read_def)
    then have "thr_lock_write d ty self ?w \<noteq> Some (Wait q, w'')" for w''
      using x xd strong(1) by (intro no_wait_for_own_write [of x]) simp_all
    then show ?thesis unfolding split using False by (auto simp: begin_wait_def)
  qed
qed

section \<open>The invariant of the system\<close>

text \<open>A request that has its lock, one that waits, and one that is outside the lock.\<close>

definition held :: "lock_system \<Rightarrow> ptr \<Rightarrow> lock_request \<Rightarrow> bool" where
  "held s t r \<longleftrightarrow> r_data r \<in> set (chain_of Read (world_at s (r_lock r))) \<union> set (chain_of Write (world_at s (r_lock r))) \<and>
     owner_of (world_at s (r_lock r)) (r_data r) = t \<and> asked (r_type r) (world_at s (r_lock r)) (r_data r) \<and>
     waiting (locks s (r_lock r)) (r_data r) = None"

definition pending :: "lock_system \<Rightarrow> ptr \<Rightarrow> lock_request \<Rightarrow> bool" where
  "pending s t r \<longleftrightarrow> waiting (locks s (r_lock r)) (r_data r) \<noteq> None \<and>
     owner_of (world_at s (r_lock r)) (r_data r) = t \<and> asked (r_type r) (world_at s (r_lock r)) (r_data r)"

definition outside :: "lock_system \<Rightarrow> lock_request \<Rightarrow> bool" where
  "outside s r \<longleftrightarrow> \<not> in_chains (chain (lock (world_at s (r_lock r)))) (r_data r) \<and>
     waiting (locks s (r_lock r)) (r_data r) = None"

fun thread_ok :: "lock_system \<Rightarrow> ptr \<Rightarrow> thread_state \<Rightarrow> bool" where
  "thread_ok s t Idle \<longleftrightarrow> True"
| "thread_ok s t (Locking data pos) \<longleftrightarrow> pos \<le> length data \<and>
     (\<forall>i<length data. if i < pos then held s t (data ! i) else outside s (data ! i))"
| "thread_ok s t (Blocked data pos) \<longleftrightarrow> pos < length data \<and>
     (\<forall>i<length data. if i < pos then held s t (data ! i) \<and> r_lock (data ! i) \<noteq> r_lock (data ! pos)
        else if i = pos then pending s t (data ! i) else outside s (data ! i))"
| "thread_ok s t (Holding data) \<longleftrightarrow> (\<forall>i<length data. held s t (data ! i))"
| "thread_ok s t (Releasing data pos n result) \<longleftrightarrow> pos \<le> n \<and> n \<le> length data \<and>
     (\<forall>i<length data. if pos \<le> i \<and> i < n then held s t (data ! i) else outside s (data ! i))"

definition ordered :: "lock_request list \<Rightarrow> bool" where
  "ordered data \<longleftrightarrow> (\<forall>i j. i < j \<longrightarrow> j < length data \<longrightarrow> r_lock (data ! i) < r_lock (data ! j) \<or>
     r_lock (data ! i) = r_lock (data ! j) \<and> r_type (data ! j) \<le> r_type (data ! i))"

definition requests_ok :: "lock_request list \<Rightarrow> bool" where
  "requests_ok data \<longleftrightarrow> ordered data \<and> distinct (map r_data data) \<and>
     (\<forall>r\<in>set data. (is_read (r_type r) \<or> is_write (r_type r)) \<and> r_type r \<noteq> TL_WRITE_DELAYED)"

definition used :: "lock_system \<Rightarrow> ptr \<Rightarrow> ptr \<Rightarrow> bool" where
  "used s l d \<longleftrightarrow> in_chains (chain (lock (world_at s l))) d \<or> waiting (locks s l) d \<noteq> None"

definition request_of :: "lock_system \<Rightarrow> ptr \<Rightarrow> ptr \<Rightarrow> ptr \<Rightarrow> bool" where
  "request_of s t l d \<longleftrightarrow> (\<exists>r\<in>set (requests (thread s t)). r_lock r = l \<and> r_data r = d)"

definition system_ok :: "lock_system \<Rightarrow> bool" where
  "system_ok s \<longleftrightarrow> (\<forall>l. proto_ok (locks s l)) \<and>
     (\<forall>t. thread_ok s t (thread s t) \<and> requests_ok (requests (thread s t))) \<and>
     (\<forall>t u l d l'. request_of s t l d \<longrightarrow> request_of s u l' d \<longrightarrow> t = u) \<and>
     (\<forall>l d. used s l d \<longrightarrow> request_of s (owner_of (world_at s l) d) l d) \<and>
     finite {t. thread s t \<noteq> Idle}"

text \<open>A step on one lock for one instance leaves the other requests as they were.\<close>

definition lock_changed :: "lock_system \<Rightarrow> ptr \<Rightarrow> ptr set \<Rightarrow> lock_system \<Rightarrow> bool" where
  "lock_changed s l D s' \<longleftrightarrow> (\<forall>l'. l' \<noteq> l \<longrightarrow> locks s' l' = locks s l') \<and> frame (world_at s l) D (world_at s' l) \<and>
     (\<forall>d. d \<notin> D \<longrightarrow> waiting (locks s' l) d = waiting (locks s l) d)"

lemma lock_changed_other:
  assumes "lock_changed s l D s'" "r_lock r \<noteq> l \<or> r_data r \<notin> D"
  shows "held s t r \<Longrightarrow> held s' t r" "pending s t r \<Longrightarrow> pending s' t r" "outside s r \<Longrightarrow> outside s' r"
proof -
  have "(held s t r \<longrightarrow> held s' t r) \<and> (pending s t r \<longrightarrow> pending s' t r) \<and> (outside s r \<longrightarrow> outside s' r)"
  proof (cases "r_lock r = l")
    case True
    then have f: "owner_of (world_at s' l) (r_data r) = owner_of (world_at s l) (r_data r)"
      "type_kept (world_at s l) (world_at s' l) (r_data r)"
      "in_chains (chain (lock (world_at s' l))) (r_data r) \<Longrightarrow> in_chains (chain (lock (world_at s l))) (r_data r)"
      "r_data r \<in> set (chain_of Read (world_at s l)) \<Longrightarrow> r_data r \<in> set (chain_of Read (world_at s' l))"
      "r_data r \<in> set (chain_of Write (world_at s l)) \<Longrightarrow> r_data r \<in> set (chain_of Write (world_at s' l))"
      "waiting (locks s' l) (r_data r) = waiting (locks s l) (r_data r)"
      using assms unfolding lock_changed_def frame_def by blast+
    have a: "asked (r_type r) (world_at s l) (r_data r) \<Longrightarrow> asked (r_type r) (world_at s' l) (r_data r)"
      using asked_kept f(2) by blast
    show ?thesis
      using f a True by (auto simp: held_def pending_def outside_def)
  next
    case False
    then have "locks s' (r_lock r) = locks s (r_lock r)" using assms(1) by (simp add: lock_changed_def)
    then show ?thesis
      by (simp_all add: held_def pending_def outside_def)
  qed
  then show "held s t r \<Longrightarrow> held s' t r" "pending s t r \<Longrightarrow> pending s' t r" "outside s r \<Longrightarrow> outside s' r" by simp_all
qed

lemma thread_ok_other:
  assumes c: "lock_changed s l D s'" and r: "\<forall>r\<in>set (requests ts). r_lock r \<noteq> l \<or> r_data r \<notin> D"
    and ok: "thread_ok s t ts"
  shows "thread_ok s' t ts"
proof -
  have k: "held s t (data ! i) \<Longrightarrow> held s' t (data ! i)" "pending s t (data ! i) \<Longrightarrow> pending s' t (data ! i)"
    "outside s (data ! i) \<Longrightarrow> outside s' (data ! i)" if "i < length data" "data = requests ts" for data i
    using lock_changed_other [OF c, of "data ! i"] r that by simp_all
  show ?thesis using ok k by (cases ts) (auto split: if_splits)
qed

lemma used_other:
  assumes "lock_changed s l D s'" "used s' l' d" "l' \<noteq> l \<or> d \<notin> D"
  shows "used s l' d" "owner_of (world_at s' l') d = owner_of (world_at s l') d"
proof -
  show "used s l' d" using assms unfolding used_def lock_changed_def frame_def by (cases "l' = l") auto
  show "owner_of (world_at s' l') d = owner_of (world_at s l') d"
    using assms unfolding lock_changed_def frame_def by (cases "l' = l") auto
qed

lemma system_okD:
  assumes "system_ok s"
  shows "proto_ok (locks s l)" "thread_ok s t (thread s t)" "requests_ok (requests (thread s t))"
    "request_of s t l d \<Longrightarrow> request_of s u l' d \<Longrightarrow> t = u"
    "used s l d \<Longrightarrow> request_of s (owner_of (world_at s l) d) l d" "finite {t. thread s t \<noteq> Idle}"
  using assms unfolding system_ok_def by blast+

lemma not_forced: "system_ok s \<Longrightarrow> \<not> forced (locks s l)"
  using system_okD(1) [of s l] by (simp add: proto_ok_def)

lemma request_of_requests:
  "requests (thread s' t) = requests (thread s t) \<Longrightarrow> request_of s' t l d = request_of s t l d"
  by (simp add: request_of_def)

lemma finite_threads:
  assumes "finite {t. thread s t \<noteq> Idle}" "\<And>u. u \<noteq> t \<Longrightarrow> thread s' u = thread s u"
  shows "finite {t. thread s' t \<noteq> Idle}"
proof (rule finite_subset)
  show "{t. thread s' t \<noteq> Idle} \<subseteq> insert t {t. thread s t \<noteq> Idle}" using assms(2) by auto
qed (simp add: assms(1))

text \<open>A step of the thread \<open>t\<close> for its request \<open>r\<close>.\<close>

lemma request_step_ok:
  assumes ok: "system_ok s" and r: "r \<in> set (requests (thread s t))"
    and c: "lock_changed s (r_lock r) {r_data r} s'" and p: "proto_ok (locks s' (r_lock r))"
    and th: "\<And>u. u \<noteq> t \<Longrightarrow> thread s' u = thread s u" "requests (thread s' t) = requests (thread s t)"
    and own: "thread_ok s' t (thread s' t)"
      "used s' (r_lock r) (r_data r) \<Longrightarrow> owner_of (world_at s' (r_lock r)) (r_data r) = t"
  shows "system_ok s'"
proof -
  note o = system_okD [OF ok]
  have req: "requests (thread s' u) = requests (thread s u)" for u using th by (cases "u = t") simp_all
  have reqof: "request_of s' u l d = request_of s u l d" for u l d using req by (rule request_of_requests)
  have tr: "request_of s t (r_lock r) (r_data r)" using r by (auto simp: request_of_def)
  have "proto_ok (locks s' l)" for l using o(1) [of l] p c by (cases "l = r_lock r") (auto simp: lock_changed_def)
  moreover have "thread_ok s' u (thread s' u)" for u
  proof (cases "u = t")
    case True
    then show ?thesis using own(1) by simp
  next
    case False
    have "\<forall>r'\<in>set (requests (thread s u)). r_lock r' \<noteq> r_lock r \<or> r_data r' \<notin> {r_data r}"
      using o(4) [OF tr] False by (auto simp: request_of_def)
    then show ?thesis using thread_ok_other [OF c _ o(2) [of u]] th(1) [OF False] by simp
  qed
  moreover have "request_of s' (owner_of (world_at s' l) d) l d" if u: "used s' l d" for l d
  proof (cases "l = r_lock r \<and> d = r_data r")
    case True
    then show ?thesis using own(2) u tr reqof by simp
  next
    case False
    then have "used s l d" "owner_of (world_at s' l) d = owner_of (world_at s l) d" using used_other [OF c u] by auto
    then show ?thesis using o(5) reqof by simp
  qed
  ultimately show ?thesis
    using o(3,4) finite_threads [OF o(6) th(1)] unfolding system_ok_def req reqof by blast
qed

text \<open>A step of a thread that touches no lock.\<close>

lemma thread_ok_locks:
  assumes "locks s' = locks s" "thread_ok s t ts" shows "thread_ok s' t ts"
  by (rule thread_ok_other [OF _ _ assms(2), of 0 "{}"]) (simp_all add: lock_changed_def assms(1) frame_def)

lemma thread_step_ok:
  assumes ok: "system_ok s" and l: "locks s' = locks s"
    and th: "\<And>u. u \<noteq> t \<Longrightarrow> thread s' u = thread s u" "requests (thread s' t) = requests (thread s t)"
    and own: "thread_ok s t (thread s' t)"
  shows "system_ok s'"
proof -
  note o = system_okD [OF ok]
  have req: "requests (thread s' u) = requests (thread s u)" for u using th by (cases "u = t") simp_all
  have reqof: "request_of s' u l d = request_of s u l d" for u l d using req by (rule request_of_requests)
  have "thread_ok s u (thread s' u)" for u using o(2) [of u] own th(1) [of u] by (cases "u = t") simp_all
  then have "thread_ok s' u (thread s' u)" for u using thread_ok_locks [OF l] by blast
  moreover have "used s' = used s" by (simp add: fun_eq_iff used_def l)
  moreover have "finite {t. thread s' t \<noteq> Idle}" using finite_threads [OF o(6), of t s'] th(1) by blast
  ultimately show ?thesis using o(1,3,4,5) unfolding system_ok_def req reqof l by metis
qed

text \<open>A step on one lock that is not for a request.\<close>

lemma lock_changed_ok:
  assumes ok: "system_ok s" and c: "lock_changed s l {} s'" and p: "proto_ok (locks s' l)" and th: "thread s' = thread s"
  shows "system_ok s'"
proof -
  note o = system_okD [OF ok]
  have reqof: "request_of s' u l d = request_of s u l d" for u l d by (rule request_of_requests) (simp add: th)
  have "proto_ok (locks s' l')" for l' using o(1) [of l'] p c by (cases "l' = l") (auto simp: lock_changed_def)
  moreover have "thread_ok s' u (thread s u)" for u using thread_ok_other [OF c _ o(2) [of u]] by simp
  moreover have "request_of s (owner_of (world_at s' l') d) l' d" if u: "used s' l' d" for l' d
    using used_other [OF c u] o(5) by auto
  ultimately show ?thesis using o(3,4,6) unfolding system_ok_def reqof th by blast
qed

section \<open>Every step keeps the invariant\<close>

lemma distinct_data:
  assumes "requests_ok data" "i < length data" "j < length data" "i \<noteq> j"
  shows "r_data (data ! i) \<noteq> r_data (data ! j)"
  using assms nth_eq_iff_index_eq [of "map r_data data" i j] by (simp add: requests_ok_def)

lemma held_at_least:
  assumes h: "held s t x" and ok: "world_ok (world_at s (r_lock x))"
    and ty: "is_read (r_type x) \<or> is_write (r_type x)" and le: "ty \<le> r_type x"
  shows "is_write ty \<Longrightarrow> r_data x \<in> set (chain_of Write (world_at s (r_lock x)))"
    "is_read ty \<Longrightarrow> r_data x \<in> set (chain_of Read (world_at s (r_lock x))) \<Longrightarrow>
      ty \<le> type_of (world_at s (r_lock x)) (r_data x)"
proof -
  let ?w = "world_at s (r_lock x)"
  note ch = world_ok_chains [OF ok]
  have a: "asked (r_type x) ?w (r_data x)" "r_data x \<in> set (chain_of Read ?w) \<union> set (chain_of Write ?w)"
    using h by (simp_all add: held_def)
  have nu: "type_of ?w (r_data x) \<noteq> TL_UNLOCK" using a(2) ch(2,4) [of "r_data x"] by auto
  have excl: "\<not> (is_read y \<and> is_write y)" for y by (auto simp: is_read_def is_write_def thr_lock_type_order)
  show "r_data x \<in> set (chain_of Write ?w)" if "is_write ty"
  proof -
    have "is_write (r_type x)" using ty le that by (auto simp: is_read_def is_write_def thr_lock_type_order)
    then have "is_write (type_of ?w (r_data x))" using a(1) nu by (auto simp: asked_def)
    then show ?thesis using a(2) ch(2) [of "r_data x"] excl by auto
  qed
  show "ty \<le> type_of ?w (r_data x)" if "r_data x \<in> set (chain_of Read ?w)"
    using a(1) nu le ch(2) [OF that] excl by (auto simp: asked_def)
qed

lemma request_kept:
  assumes ok: "system_ok s" and t: "thread s t = Locking data pos" "pos < length data"
    and r_def: "r = data ! pos" and p_def: "p = locks s (r_lock r)"
    and g: "self \<noteq> 0" "length (chain_of Read (world p)) + length (chain_of Read_Wait (world p)) + 1 < 2 ^ 32"
      "is_write (r_type r) \<longrightarrow> request_ok t (r_type r) (world p)"
    and run: "thr_lock (r_data r) t (r_type r) self (world p) = Some (out, w)"
  shows "system_ok (s\<lparr>locks := (locks s)(r_lock r := p\<lparr>world := w, waiting := note_wait (r_data r) False out (waiting p)\<rparr>),
      thread := (thread s)(t := thr_multi_lock_lap data pos out)\<rparr>)" (is "system_ok ?s'")
proof -
  let ?d = "r_data r"
  note o = system_okD [OF ok]
  have th: "thread_ok s t (Locking data pos)" "requests_ok data" using o(2,3) [of t] t(1) by simp_all
  have mem: "r \<in> set data" using t(2) by (simp add: r_def)
  have ty: "is_read (r_type r) \<or> is_write (r_type r)" "r_type r \<noteq> TL_WRITE_DELAYED"
    using th(2) mem by (auto simp: requests_ok_def)
  have free: "\<not> in_chains (chain (lock (world p))) ?d" "waiting p ?d = None"
    using th(1) t(2) by (auto simp: r_def p_def outside_def)
  have w: "world_ok (world p)" "not_stranded (chain (lock (world p)))" using o(1) [of "r_lock r"] by (simp_all add: proto_ok_def p_def)
  have rd: "request_done (world p) ?d out w"
    using thr_lock_ok [OF w free(1) ty(1) g(1) g(2,3)] run by auto
  note oc = thr_lock_outcome [OF run w(1) ty]
  have l': "locks ?s' (r_lock r) = p\<lparr>world := w, waiting := note_wait ?d False out (waiting p)\<rparr>"
    by simp
  have c: "lock_changed s (r_lock r) {?d} ?s'"
    using oc(1) by (auto simp: lock_changed_def p_def note_wait_def split: lock_outcome.splits)
  have other: "held s t (data ! i) \<Longrightarrow> held ?s' t (data ! i)" "outside s (data ! i) \<Longrightarrow> outside ?s' (data ! i)"
    if "i < length data" "i \<noteq> pos" for i
    using lock_changed_other [OF c, of "data ! i"] distinct_data [OF th(2) that(1) t(2) that(2)] by (simp_all add: r_def)
  have own: "thread_ok ?s' t (thr_multi_lock_lap data pos out)"
  proof (cases out)
    case (Done res)
    show ?thesis
    proof (cases "res = THR_LOCK_SUCCESS")
      case True
      have "held ?s' t r" using oc(2-4) Done True l' by (simp add: held_def note_wait_def)
      then show ?thesis using th(1) other t(2) Done True
        by (auto simp: thr_multi_lock_lap_def thr_multi_lock_result_def r_def less_Suc_eq)
    next
      case False
      have "outside ?s' r" using rd Done False l' by (simp add: outside_def note_wait_def request_done_def)
      then show ?thesis using th(1) other t(2) Done False
        by (auto simp: thr_multi_lock_lap_def thr_multi_lock_result_def r_def) (metis nat_neq_iff)
    qed
  next
    case (Wait q)
    have "pending ?s' t r" using oc(2,3) Wait l' by (simp add: pending_def note_wait_def)
    moreover have "r_lock (data ! i) \<noteq> r_lock r" if i: "i < pos" for i
    proof
      assume eq: "r_lock (data ! i) = r_lock r"
      have h: "held s t (data ! i)" using th(1) i t(2) by auto
      have "ordered data" using th(2) by (simp add: requests_ok_def)
      then have le: "r_type r \<le> r_type (data ! i)" using i t(2) eq unfolding ordered_def r_def by (metis less_irrefl)
      have tyi: "is_read (r_type (data ! i)) \<or> is_write (r_type (data ! i))"
        using th(2) i t(2) by (auto simp: requests_ok_def)
      have x: "r_data (data ! i) \<in> set (chain_of Read (world p)) \<union> set (chain_of Write (world p))"
        "owner_of (world p) (r_data (data ! i)) = t" using h eq by (simp_all add: held_def p_def)
      show False
        using no_wait_for_own [OF w(1) free(1) x _ _ ty(1)] held_at_least [OF h _ tyi le] w(1) eq run Wait unfolding p_def by metis
    qed
    ultimately show ?thesis using th(1) other t(2) Wait
      by (auto simp: thr_multi_lock_lap_def r_def)
  qed
  show ?thesis
  proof (rule request_step_ok [OF ok _ c])
    show "r \<in> set (requests (thread s t))" using mem t(1) by simp
    show "proto_ok (locks ?s' (r_lock r))" unfolding l' by (rule request_done_waiting [OF _ rd]) (simp add: p_def o(1))
    show "requests (thread ?s' t) = requests (thread s t)"
      using t(1) by (cases out) (simp_all add: thr_multi_lock_lap_def thr_multi_lock_result_def)
    show "thread_ok ?s' t (thread ?s' t)" using own by simp
    show "owner_of (world_at ?s' (r_lock r)) ?d = t" using oc(2) unfolding l' by simp
  qed simp
qed

lemma exit_success:
  assumes "wait_for_lock_exit q d res w = Some (THR_LOCK_SUCCESS, w')" "res \<noteq> THR_LOCK_SUCCESS"
  shows "datas w' = datas w"
  using assms by (auto simp: wait_for_lock_exit_def lock_ops bind_eq_Some_conv split: if_splits)

lemma leave_wait_kept:
  assumes ok: "system_ok s" and t: "thread s t = Blocked data pos"
    and r_def: "r = data ! pos" and p_def: "p = locks s (r_lock r)"
    and q: "waiting p (r_data r) = Some (q, i)"
    and lap: "wait_for_lock_lap (r_data r) i abort timed_out (world p) = Some res"
    and run: "wait_for_lock_exit q (r_data r) res (world p) = Some (result, w)"
  shows "system_ok (s\<lparr>locks := (locks s)(r_lock r := p\<lparr>world := w, waiting := (waiting p)(r_data r := None)\<rparr>),
      thread := (thread s)(t := thr_multi_lock_result data pos result)\<rparr>)" (is "system_ok ?s'")
proof -
  let ?d = "r_data r"
  note o = system_okD [OF ok]
  have th: "thread_ok s t (Blocked data pos)" "requests_ok data" using o(2,3) [of t] t by simp_all
  have pos: "pos < length data" using th(1) by simp
  have pend: "owner_of (world p) ?d = t" "asked (r_type r) (world p) ?d"
    using th(1) pos by (auto simp: r_def p_def pending_def)
  have res: "res \<noteq> THR_LOCK_SUCCESS" using lap by (auto simp: wait_for_lock_lap_def split: if_splits)
  have w: "world_ok (world p)" "not_stranded (chain (lock (world p)))" "q \<in> {Read_Wait, Write_Wait}" "wait_ok (world p) q ?d"
    using o(1) [of "r_lock r"] q by (auto simp: proto_ok_def p_def)
  have ex: "frame (world p) {?d} w"
    "result = THR_LOCK_SUCCESS \<and> ?d \<in> set (chain_of Read w) \<union> set (chain_of Write w) \<or>
     result \<noteq> THR_LOCK_SUCCESS \<and> \<not> in_chains (chain (lock w)) ?d"
    using wait_for_lock_exit_ok [OF w, of res] run res by auto
  have dat: "datas w = datas (world p)" if "result = THR_LOCK_SUCCESS" using exit_success run that res by blast
  have l': "locks ?s' (r_lock r) = p\<lparr>world := w, waiting := (waiting p)(?d := None)\<rparr>" by simp
  have c: "lock_changed s (r_lock r) {?d} ?s'" using ex(1) by (simp add: lock_changed_def p_def)
  have other: "held s t (data ! i) \<Longrightarrow> held ?s' t (data ! i)" "outside s (data ! i) \<Longrightarrow> outside ?s' (data ! i)"
    if "i < length data" "i \<noteq> pos" for i
    using lock_changed_other [OF c, of "data ! i"] distinct_data [OF th(2) that(1) pos that(2)] by (simp_all add: r_def)
  have own: "thread_ok ?s' t (thr_multi_lock_result data pos result)"
  proof (cases "result = THR_LOCK_SUCCESS")
    case True
    have "held ?s' t r" using ex(2) True pend dat l' by (simp add: held_def asked_def)
    then show ?thesis using th(1) other pos True
      by (auto simp: thr_multi_lock_result_def r_def less_Suc_eq)
  next
    case False
    have "outside ?s' r" using ex(2) False l' by (simp add: outside_def)
    then show ?thesis using th(1) other pos False
      by (auto simp: thr_multi_lock_result_def r_def) (metis nat_neq_iff)
  qed
  show ?thesis
  proof (rule request_step_ok [OF ok _ c])
    show "r \<in> set (requests (thread s t))" using pos t by (simp add: r_def)
    have "lock_step p (p\<lparr>world := w, waiting := (waiting p)(?d := None)\<rparr>)"
      by (rule lock_step.leave_wait [OF q lap run])
    moreover have "proto_ok p" by (simp add: p_def o(1))
    ultimately show "proto_ok (locks ?s' (r_lock r))" unfolding l' by (rule lock_step_ok) (simp add: p_def not_forced [OF ok])
    show "requests (thread ?s' t) = requests (thread s t)" using t by (simp add: thr_multi_lock_result_def)
    show "thread_ok ?s' t (thread ?s' t)" using own by simp
    show "owner_of (world_at ?s' (r_lock r)) ?d = t" if "used ?s' (r_lock r) ?d"
      using that ex(2) dat pend(1) unfolding used_def l' by auto
  qed simp
qed

lemma thread_ok_ReleasingI:
  assumes "pos \<le> n" "n \<le> length data"
    "\<And>i. i < length data \<Longrightarrow> if pos \<le> i \<and> i < n then held s t (data ! i) else outside s (data ! i)"
  shows "thread_ok s t (Releasing data pos n result)"
  using assms by simp

lemma unlock_kept:
  assumes ok: "system_ok s" and t: "thread s t = Releasing data pos n result" "pos < n"
    and r_def: "r = data ! pos" and p_def: "p = locks s (r_lock r)"
    and run0: "thr_multi_unlock_lap (r_data r) (world p) = Some w"
  shows "system_ok (s\<lparr>locks := (locks s)(r_lock r := p\<lparr>world := w\<rparr>),
      thread := (thread s)(t := Releasing data (pos + 1) n result)\<rparr>)" (is "system_ok ?s'")
proof -
  let ?d = "r_data r"
  note o = system_okD [OF ok]
  have th: "thread_ok s t (Releasing data pos n result)" "requests_ok data" using o(2,3) [of t] t by simp_all
  have pos: "pos < length data" using th(1) t(2) by simp
  have "held s t r" using th(1) t(2) pos unfolding r_def thread_ok.simps by (metis le_refl)
  then have h: "?d \<in> set (chain_of Read (world p)) \<union> set (chain_of Write (world p))" "waiting p ?d = None"
    by (simp_all add: held_def p_def)
  have w: "world_ok (world p)" using o(1) [of "r_lock r"] by (simp add: proto_ok_def p_def)
  have "type_of (world p) ?d \<noteq> TL_UNLOCK" using h(1) world_ok_chains(2,4) [OF w, of ?d] by auto
  then have run: "thr_unlock ?d (world p) = Some w" using run0 by (simp add: thr_multi_unlock_lap_def)
  have ex: "frame (world p) {?d} w" "\<not> in_chains (chain (lock w)) ?d"
    using thr_unlock_ok [OF w, of ?d] h(1) run by auto
  have l': "locks ?s' (r_lock r) = p\<lparr>world := w\<rparr>" by simp
  have c: "lock_changed s (r_lock r) {?d} ?s'" using ex(1) by (simp add: lock_changed_def p_def)
  have other: "held s t (data ! i) \<Longrightarrow> held ?s' t (data ! i)" "outside s (data ! i) \<Longrightarrow> outside ?s' (data ! i)"
    if "i < length data" "i \<noteq> pos" for i
    using lock_changed_other [OF c, of "data ! i"] distinct_data [OF th(2) that(1) pos that(2)] by (simp_all add: r_def)
  have out: "outside ?s' r" using ex(2) h(2) l' by (simp add: outside_def)
  show ?thesis
  proof (rule request_step_ok [OF ok _ c])
    show "r \<in> set (requests (thread s t))" using pos t by (simp add: r_def)
    have "lock_step p (p\<lparr>world := w\<rparr>)" using h run by (intro lock_step.unlock [of p ?d]) auto
    moreover have "proto_ok p" by (simp add: p_def o(1))
    ultimately show "proto_ok (locks ?s' (r_lock r))" unfolding l' by (rule lock_step_ok) (simp add: p_def not_forced [OF ok])
    show "requests (thread ?s' t) = requests (thread s t)" using t by simp
    have "thread_ok ?s' t (Releasing data (pos + 1) n result)"
    proof (rule thread_ok_ReleasingI)
      show "if pos + 1 \<le> i \<and> i < n then held ?s' t (data ! i) else outside ?s' (data ! i)" if "i < length data" for i
        using th(1) other [OF that] out that by (cases "i = pos") (auto simp: r_def split: if_splits)
    qed (use th(1) t(2) in simp_all)
    then show "thread_ok ?s' t (thread ?s' t)" by simp
    show "owner_of (world_at ?s' (r_lock r)) ?d = t" if "used ?s' (r_lock r) ?d"
      using that out by (simp add: used_def outside_def)
  qed simp
qed

lemma outside_iff: "outside s r \<longleftrightarrow> \<not> used s (r_lock r) (r_data r)"
  unfolding outside_def used_def by (simp only: de_Morgan_disj not_not)

lemma enter_ordered:
  assumes a: "askable data" and e: "thr_multi_lock_enter data = Some ts"
  obtains data' where "ts = Locking data' 0" "requests_ok data'" "set data' = set data"
proof -
  have ty: "\<forall>r\<in>set data. r_type r \<noteq> TL_IGNORE"
    using a by (auto simp: askable_def is_read_def is_write_def thr_lock_type_order)
  obtain data' where d: "ts = Locking data' 0" "mset data' = mset data" "ordered data'"
  proof (cases "length data > 1")
    case True
    then show ?thesis
      using that e sort_locks_ordered [OF _ ty] a
      by (auto simp: thr_multi_lock_enter_def askable_def ordered_def bind_eq_Some_conv)
  next
    case False
    then show ?thesis using that [of data] e by (auto simp: thr_multi_lock_enter_def ordered_def)
  qed
  have "mset (map r_data data') = mset (map r_data data)" using d(2) by simp
  then have "distinct (map r_data data')" using a mset_eq_imp_distinct_iff unfolding askable_def by blast
  moreover have "set data' = set data" using d(2) by (rule mset_eq_setD)
  ultimately show ?thesis using that d(1,3) a by (auto simp: requests_ok_def askable_def)
qed

lemma enter_kept:
  assumes ok: "system_ok s" and t: "thread s t = Idle" and a: "askable data"
    and fresh: "\<forall>u. \<forall>r\<in>set (requests (thread s u)). r_data r \<notin> r_data ` set data"
    and e: "thr_multi_lock_enter data = Some ts"
  shows "system_ok (s\<lparr>thread := (thread s)(t := ts)\<rparr>)" (is "system_ok ?s'")
proof -
  note o = system_okD [OF ok]
  obtain data' where d: "ts = Locking data' 0" "requests_ok data'" "set data' = set data"
    using enter_ordered [OF a e] .
  have u: "used ?s' = used s" by (simp add: fun_eq_iff used_def)
  have nu: "\<not> used s l (r_data r)" if "r \<in> set data'" for l r
  proof
    assume "used s l (r_data r)"
    from o(5) [OF this] show False using fresh that d(3) by (auto simp: request_of_def)
  qed
  have req: "request_of ?s' v l x \<longleftrightarrow> (if v = t then \<exists>r\<in>set data'. r_lock r = l \<and> r_data r = x else request_of s v l x)" for v l x
    by (simp add: request_of_def d(1))
  have th: "thread_ok ?s' v (thread ?s' v)" for v
  proof (cases "v = t")
    case True
    have "outside ?s' (data' ! i)" if "i < length data'" for i
      using nu [of "data' ! i" "r_lock (data' ! i)"] that u by (simp add: outside_iff)
    then show ?thesis using True d(1) by simp
  next
    case False
    then show ?thesis using thread_ok_locks [of ?s' s v] o(2) [of v] by simp
  qed
  have uniq: "v = v'" if "request_of ?s' v l x" "request_of ?s' v' l' x" for v v' l l' x
  proof -
    have f: "\<not> request_of s y l'' (r_data r)" if "r \<in> set data'" for y l'' r
      using fresh that d(3) by (auto simp: request_of_def)
    show ?thesis using that f o(4) [of v l x v' l'] unfolding req by (auto split: if_splits)
  qed
  have own: "request_of ?s' (owner_of (world_at ?s' l) x) l x" if "used ?s' l x" for l x
  proof -
    have r: "request_of s (owner_of (world_at s l) x) l x" using that o(5) u by simp
    then have "owner_of (world_at s l) x \<noteq> t" using t by (auto simp: request_of_def)
    then show ?thesis using r unfolding req by simp
  qed
  have "finite {v. thread ?s' v \<noteq> Idle}" by (rule finite_threads [OF o(6), of t]) simp
  moreover have "requests_ok (requests (thread ?s' v))" for v using o(3) [of v] d by simp
  ultimately show ?thesis using o(1) th uniq own unfolding system_ok_def by auto
qed

lemma leave_kept:
  assumes ok: "system_ok s" and t: "thread s t = Releasing data n n result"
  shows "system_ok (s\<lparr>thread := (thread s)(t := Idle)\<rparr>)" (is "system_ok ?s'")
proof -
  note o = system_okD [OF ok]
  have "\<forall>i<length data. outside s (data ! i)" using o(2) [of t] t by auto
  then have out: "outside s r" if "r \<in> set data" for r using that by (auto simp: in_set_conv_nth)
  have u: "used ?s' = used s" by (simp add: fun_eq_iff used_def)
  have req: "request_of ?s' v l x \<longleftrightarrow> v \<noteq> t \<and> request_of s v l x" for v l x by (simp add: request_of_def)
  have th: "thread_ok ?s' v (thread ?s' v)" for v
    using thread_ok_locks [of ?s' s v] o(2) [of v] by (cases "v = t") simp_all
  have own: "request_of ?s' (owner_of (world_at ?s' l) x) l x" if "used ?s' l x" for l x
  proof -
    have us: "used s l x" using that u by simp
    have r: "request_of s (owner_of (world_at s l) x) l x" by (rule o(5) [OF us])
    have "owner_of (world_at s l) x \<noteq> t"
    proof
      assume "owner_of (world_at s l) x = t"
      then obtain r where "r \<in> set data" "r_lock r = l" "r_data r = x" using r t by (auto simp: request_of_def)
      then show False using out us by (auto simp: outside_iff)
    qed
    then show ?thesis using r unfolding req by simp
  qed
  have "finite {v. thread ?s' v \<noteq> Idle}" by (rule finite_threads [OF o(6), of t]) simp
  moreover have "requests_ok (requests (thread ?s' v))" for v
    using o(3) [of v] by (simp add: requests_ok_def ordered_def)
  moreover have "v = v'" if "request_of ?s' v l x" "request_of ?s' v' l' x" for v v' l l' x
    using that o(4) unfolding req by blast
  ultimately show ?thesis using o(1) th own unfolding system_ok_def by auto
qed

lemma system_forced_stays: "system_step s s' \<Longrightarrow> forced (locks s l) \<Longrightarrow> forced (locks s' l)"
  by (induction rule: system_step.induct) auto

lemma system_step_ok:
  assumes "system_step s s'" "system_ok s" "\<forall>l. \<not> forced (locks s' l)"
  shows "system_ok s'"
  using assms
proof (induction rule: system_step.induct)
  case (enter s t data ts)
  show ?case by (rule enter_kept [OF enter.prems(1) enter.hyps])
next
  case (request s t data pos r p self out w)
  show ?case by (rule request_kept [OF request.prems(1) request.hyps])
next
  case (locked s t data calls)
  show ?case by (rule thread_step_ok [OF locked.prems(1), of _ t])
      (use locked.hyps system_okD(2) [OF locked.prems(1), of t] in auto)
next
  case (leave_wait s t data pos r p q i abort timed_out res result w)
  show ?case by (rule leave_wait_kept [OF leave_wait.prems(1) leave_wait.hyps])
next
  case (release s t data)
  show ?case by (rule thread_step_ok [OF release.prems(1), of _ t])
      (use release.hyps system_okD(2) [OF release.prems(1), of t] in auto)
next
  case (unlock s t data pos n result r p w)
  show ?case by (rule unlock_kept [OF unlock.prems(1) unlock.hyps])
next
  case (leave s t data n result)
  show ?case by (rule leave_kept [OF leave.prems(1) leave.hyps])
next
  case (abort_all p s l upgrade w)
  have p: "proto_ok p" using system_okD(1) [OF abort_all.prems(1), of l] abort_all.hyps(1) by simp
  let ?p = "p\<lparr>world := w, forced := forced p \<or> takes_over upgrade (world p)\<rparr>"
  have f: "\<not> forced ?p" using abort_all.prems(2) [rule_format, of l] by simp
  have "proto_ok ?p" by (rule lock_step_ok [OF lock_step.abort_all p f]) (rule abort_all.hyps(2))
  moreover have "frame (world p) {} w"
    using thr_abort_locks_ok [of "world p" upgrade] p f abort_all.hyps(2) by (auto simp: proto_ok_def takes_over_def)
  ultimately show ?case using abort_all.hyps(1)
    by (intro lock_changed_ok [OF abort_all.prems(1), where l = l]) (auto simp: lock_changed_def)
next
  case (abort_thread p s l tid found w)
  have p: "proto_ok p" using system_okD(1) [OF abort_thread.prems(1), of l] abort_thread.hyps(1) by simp
  have "lock_step p (p\<lparr>world := w\<rparr>)" using abort_thread.hyps(2) by (intro lock_step.abort_thread)
  moreover have "frame (world p) {} w"
    using thr_abort_locks_for_thread_ok [of "world p" tid] p abort_thread.hyps(2) by (auto simp: proto_ok_def)
  moreover have "\<not> forced (p\<lparr>world := w\<rparr>)" using p by (simp add: proto_ok_def)
  ultimately show ?case using lock_step_ok [OF _ p] abort_thread.hyps(1)
    by (intro lock_changed_ok [OF abort_thread.prems(1), of l]) (auto simp: lock_changed_def)
qed

lemma system_start_ok:
  assumes "system_start s" shows "system_ok s"
proof -
  have i: "initial (locks s l)" "thread s t = Idle" for l t using assms by (simp_all add: system_start_def)
  have "\<not> used s l d" for l d
    using i(1) [of l] by (auto simp: initial_def used_def in_chains_def thr_lock_init_def)
  then show ?thesis using initial_ok [OF i(1)] i(2)
    by (simp add: system_ok_def request_of_def requests_ok_def ordered_def)
qed

lemma system_reachable_ok:
  assumes "system_start s0" "system_step\<^sup>*\<^sup>* s0 s" "\<forall>l. \<not> forced (locks s l)"
  shows "system_ok s"
  using assms(2,3)
proof (induction rule: rtranclp_induct)
  case base
  show ?case by (rule system_start_ok [OF assms(1)])
next
  case (step s s')
  then show ?case using system_step_ok [OF step.hyps(2)] system_forced_stays [OF step.hyps(2)] by blast
qed

section \<open>Who waits for whom\<close>

text \<open>A thread waits for a lock while its instance is in a wait chain, and for the owners of the instances
  that hold this lock.\<close>

definition waits_on :: "lock_system \<Rightarrow> ptr \<Rightarrow> ptr \<Rightarrow> bool" where
  "waits_on s t l \<longleftrightarrow> (\<exists>data pos. thread s t = Blocked data pos \<and> r_lock (data ! pos) = l \<and>
     r_data (data ! pos) \<in> set (chain_of Read_Wait (world_at s l)) \<union> set (chain_of Write_Wait (world_at s l)))"

definition is_waiting :: "lock_system \<Rightarrow> ptr \<Rightarrow> bool" where
  "is_waiting s t \<longleftrightarrow> (\<exists>l. waits_on s t l)"

definition waits_for :: "lock_system \<Rightarrow> ptr \<Rightarrow> ptr \<Rightarrow> bool" where
  "waits_for s t u \<longleftrightarrow> (\<exists>l. waits_on s t l \<and>
     (\<exists>d\<in>set (chain_of Read (world_at s l)) \<union> set (chain_of Write (world_at s l)). owner_of (world_at s l) d = u))"

lemma waits_on_unique: "waits_on s t l \<Longrightarrow> waits_on s t l' \<Longrightarrow> l = l'"
  by (auto simp: waits_on_def)

text \<open>The holder of a lock waits only for locks behind it.\<close>

lemma waits_for_greater:
  assumes ok: "system_ok s" and w: "waits_for s t u" "waits_on s t l" "waits_on s u l'"
  shows "l < l'"
proof -
  note o = system_okD [OF ok]
  obtain d where d: "d \<in> set (chain_of Read (world_at s l)) \<union> set (chain_of Write (world_at s l))"
    "owner_of (world_at s l) d = u" using w(1,2) waits_on_unique unfolding waits_for_def by blast
  obtain data pos where u: "thread s u = Blocked data pos" "r_lock (data ! pos) = l'"
    "r_data (data ! pos) \<in> set (chain_of Read_Wait (world_at s l')) \<union> set (chain_of Write_Wait (world_at s l'))"
    using w(3) unfolding waits_on_def by blast
  have th: "thread_ok s u (Blocked data pos)" "requests_ok data" using o(2,3) [of u] u(1) by simp_all
  have "used s l d" using d(1) by (auto simp: used_def in_chains_iff)
  then have "request_of s u l d" using o(5) d(2) by blast
  then obtain i where i: "i < length data" "r_lock (data ! i) = l" "r_data (data ! i) = d"
    using u(1) by (auto simp: request_of_def in_set_conv_nth)
  have "i \<le> pos"
  proof (rule ccontr)
    assume "\<not> i \<le> pos"
    then have "outside s (data ! i)" using th(1) i(1) by auto
    then show False using d(1) i(2,3) by (auto simp: outside_def in_chains_iff)
  qed
  moreover have "i \<noteq> pos"
    using d(1) i(2,3) u(2,3) world_ok_chains(1) [of "world_at s l"] o(1) [of l] by (auto simp: proto_ok_def)
  ultimately have "i < pos" by simp
  then have "l \<noteq> l'" using th(1) i(1,2) u(2) by auto
  moreover have "pos < length data" "ordered data" using th by (simp_all add: requests_ok_def)
  then have "r_lock (data ! i) \<le> r_lock (data ! pos)"
    using \<open>i < pos\<close> unfolding ordered_def by (metis less_imp_le order_refl)
  ultimately show ?thesis using i(2) u(2) by simp
qed

lemma waits_for_chain_greater:
  assumes ok: "system_ok s" and c: "(waits_for s)\<^sup>+\<^sup>+ t u" and l: "waits_on s t l" "waits_on s u l'"
  shows "l < l'"
  using c l(2)
proof (induction arbitrary: l' rule: tranclp_induct)
  case (base u)
  then show ?case using waits_for_greater [OF ok _ l(1)] by blast
next
  case (step u v)
  obtain lu where lu: "waits_on s u lu" using step.hyps(2) by (auto simp: waits_for_def)
  show ?case using step.IH [OF lu] waits_for_greater [OF ok step.hyps(2) lu step.prems] by (rule less_trans)
qed

lemma waits_for_someone:
  assumes ok: "system_ok s" and t: "waits_on s t l"
  shows "\<exists>u. waits_for s t u"
proof -
  have "not_stranded (chain (lock (world_at s l)))" using system_okD(1) [OF ok, of l] by (simp add: proto_ok_def)
  then have "chain_of Read (world_at s l) \<noteq> [] \<or> chain_of Write (world_at s l) \<noteq> []"
    using t by (auto simp: waits_on_def not_stranded_def)
  then show ?thesis using t hd_in_set unfolding waits_for_def by (metis UnI1 UnI2)
qed

lemma waits_for_runner:
  assumes ok: "system_ok s" and t: "waits_on s t l"
  shows "\<exists>u. (waits_for s)\<^sup>+\<^sup>+ t u \<and> \<not> is_waiting s u"
proof -
  define W where "W = {l. \<exists>t. waits_on s t l}"
  let ?f = "\<lambda>t. case thread s t of Blocked data pos \<Rightarrow> r_lock (data ! pos) | _ \<Rightarrow> 0"
  have "W \<subseteq> ?f ` {t. thread s t \<noteq> Idle}"
  proof
    fix l assume "l \<in> W"
    then obtain t data pos where "thread s t = Blocked data pos" "r_lock (data ! pos) = l"
      by (auto simp: W_def waits_on_def)
    then show "l \<in> ?f ` {t. thread s t \<noteq> Idle}" by (intro image_eqI [of _ _ t]) simp_all
  qed
  then have fin: "finite W" using system_okD(6) [OF ok] by (rule finite_subset [OF _ finite_imageI])
  show ?thesis using t
  proof (induction "card {l'\<in>W. l < l'}" arbitrary: t l rule: less_induct)
    case less
    obtain u where u: "waits_for s t u" using waits_for_someone [OF ok less.prems] by blast
    show ?case
    proof (cases "is_waiting s u")
      case False
      then show ?thesis using u by blast
    next
      case True
      then obtain l' where l': "waits_on s u l'" by (auto simp: is_waiting_def)
      have lt: "l < l'" by (rule waits_for_greater [OF ok u less.prems l'])
      have "l' \<in> W" using l' by (auto simp: W_def)
      then have "card {x\<in>W. l' < x} < card {x\<in>W. l < x}"
        using lt fin by (intro psubset_card_mono) auto
      from less.hyps [OF this l'] obtain v where "(waits_for s)\<^sup>+\<^sup>+ u v" "\<not> is_waiting s v" by blast
      then show ?thesis using u by (meson tranclp_into_tranclp2)
    qed
  qed
qed

lemma waits_for_active:
  assumes ok: "system_ok s" and w: "waits_for s t u"
  shows "thread s u \<noteq> Idle"
proof -
  obtain l d where "d \<in> set (chain_of Read (world_at s l)) \<union> set (chain_of Write (world_at s l))"
    "owner_of (world_at s l) d = u" using w by (auto simp: waits_for_def)
  then have "request_of s u l d" using system_okD(5) [OF ok, of l d] by (auto simp: used_def in_chains_iff)
  then show ?thesis by (auto simp: request_of_def)
qed

text \<open>The requests of a statement that has all its locks are as \<open>thr_lock_merge_status\<close> expects them.\<close>

lemma held_type:
  assumes "held s t r" "world_ok (world_at s (r_lock r))" "is_read (r_type r) \<or> is_write (r_type r)"
  shows "type_of (world_at s (r_lock r)) (r_data r) \<le> TL_READ_NO_INSERT \<longleftrightarrow> r_type r \<le> TL_READ_NO_INSERT"
proof -
  let ?ty = "type_of (world_at s (r_lock r)) (r_data r)"
  have "is_read ?ty \<or> is_write ?ty"
    using assms(1) world_ok_chains(2,4) [OF assms(2), of "r_data r"] by (auto simp: held_def)
  then have "?ty = r_type r \<or> is_write (r_type r) \<and> is_write ?ty"
    using assms(1) by (auto simp: held_def asked_def)
  then show ?thesis by (auto simp: is_write_def thr_lock_type_order)
qed

lemma merge_call_ok:
  assumes ok: "system_ok s" and t: "thread s t = Locking data (length data)"
    and params: "distinct (map (\<lambda>r. d_status_param (datas (world_at s (r_lock r)) (r_data r))) data)"
  shows "\<exists>calls. merge_call s data = Some calls"
proof -
  note o = system_okD [OF ok]
  let ?now = "\<lambda>r. r\<lparr>r_type := type_of (world_at s (r_lock r)) (r_data r)\<rparr>"
  have th: "\<forall>i<length data. held s t (data ! i)" "requests_ok data" using o(2,3) [of t] t by simp_all
  have w: "world_ok (world_at s l)" for l using o(1) [of l] by (simp add: proto_ok_def)
  have same: "is_read_type (?now (data ! i)) \<longleftrightarrow> is_read_type (data ! i)" if "i < length data" for i
    using held_type [of s t "data ! i"] th w that by (auto simp: is_read_type_def requests_ok_def)
  have "grouped (map ?now data)"
    unfolding grouped_def sorted_wrt_iff_nth_less
  proof (intro allI impI)
    fix i j assume ij: "i < j" "j < length (map ?now data)"
    have "ordered data" using th(2) by (simp add: requests_ok_def)
    then have "r_lock (data ! i) < r_lock (data ! j) \<or>
        r_lock (data ! i) = r_lock (data ! j) \<and> r_type (data ! j) \<le> r_type (data ! i)"
      using ij by (simp add: ordered_def)
    then show "r_lock (map ?now data ! i) < r_lock (map ?now data ! j) \<or> r_lock (map ?now data ! i) = r_lock (map ?now data ! j) \<and>
        (is_read_type (map ?now data ! i) \<longrightarrow> is_read_type (map ?now data ! j))"
      using ij same [of i] same [of j] by (auto simp: is_read_type_def)
  qed
  moreover have "distinct (map r_data (map ?now data))" using th(2) by (simp add: requests_ok_def comp_def)
  moreover have "distinct (map (\<lambda>r. d_status_param (datas (world_at s (r_lock r)) (r_data r))) (map ?now data))"
    using params by (simp add: comp_def)
  ultimately show ?thesis unfolding merge_call_def using thr_lock_merge_status_ok by blast
qed

section \<open>A run of two threads\<close>

definition sample_system :: lock_system where
  "sample_system = \<lparr>locks = (\<lambda>_. sample_start), thread = (\<lambda>_. Idle), status_calls = []\<rparr>"

lemma sample_system_start: "system_start sample_system"
  using sample_initial by (simp add: system_start_def sample_system_def)

definition sample_request :: "ptr \<Rightarrow> lock_request" where
  "sample_request d = \<lparr>r_lock = 100, r_type = TL_WRITE, r_data = d\<rparr>"

lemma sample_askable: "askable [sample_request d]" "thr_multi_lock_enter [sample_request d] = Some (Locking [sample_request d] 0)"
  by (simp_all add: askable_def sample_request_def is_write_def thr_lock_type_order thr_multi_lock_enter_def)

text \<open>Thread 7 holds the lock 100, thread 8 waits for it.\<close>

lemma sample_run:
  obtains s where "system_step\<^sup>*\<^sup>* sample_system s" "thread s 7 = Holding [sample_request 1]"
    "thread s 8 = Blocked [sample_request 2] 0" "chain_of Write (world_at s 100) = [1]"
    "chain_of Write_Wait (world_at s 100) = [2]" "owner_of (world_at s 100) 1 = 7" "\<forall>l. \<not> forced (locks s l)"
proof -
  let ?r1 = "sample_request 1" and ?r2 = "sample_request 2"
  define s1 where "s1 = sample_system\<lparr>thread := (thread sample_system)(7 := Locking [?r1] 0)\<rparr>"
  have st1: "system_step sample_system s1"
    unfolding s1_def by (rule system_step.enter [OF _ sample_askable(1) _ sample_askable(2)]) (simp_all add: sample_system_def)
  obtain w1 where w1: "thr_lock 1 7 TL_WRITE 101 sample_lock = Some (Done THR_LOCK_SUCCESS, w1)"
    and c1: "chain_of Write w1 = [1]" "chain_of Read w1 = []" "chain_of Read_Wait w1 = []" "chain_of Write_Wait w1 = []"
      "owner_of w1 1 = 7" "type_of w1 1 = TL_WRITE"
    by (simp add: eval_lock sample_lock_def)
  define s2 where "s2 = s1\<lparr>locks := (locks s1)(100 := sample_start\<lparr>world := w1, waiting := note_wait 1 False (Done THR_LOCK_SUCCESS) (waiting sample_start)\<rparr>),
    thread := (thread s1)(7 := Locking [?r1] 1)\<rparr>"
  have st2: "system_step s1 s2"
    using system_step.request [of s1 7 "[?r1]" 0 ?r1 sample_start 101 "Done THR_LOCK_SUCCESS" w1] w1
    by (simp add: s1_def s2_def sample_system_def sample_request_def thr_multi_lock_lap_def thr_multi_lock_result_def
        sample_start_def sample_lock_def request_ok_def)
  define s3 where "s3 = s2\<lparr>thread := (thread s2)(7 := Holding [?r1]), status_calls := status_calls s2 @ []\<rparr>"
  have st3: "system_step s2 s3"
    unfolding s3_def by (rule system_step.locked) (simp_all add: s2_def merge_call_def thr_lock_merge_status_def)
  define s4 where "s4 = s3\<lparr>thread := (thread s3)(8 := Locking [?r2] 0)\<rparr>"
  have st4: "system_step s3 s4"
    unfolding s4_def by (rule system_step.enter [OF _ sample_askable(1) _ sample_askable(2)])
      (auto simp: s3_def s2_def s1_def sample_system_def sample_request_def)
  obtain w2 where w2: "thr_lock 2 8 TL_WRITE 102 w1 = Some (Wait Write_Wait, w2)"
    and c2: "chain_of Write w2 = [1]" "chain_of Write_Wait w2 = [2]" "owner_of w2 1 = 7"
    using c1 by (simp add: eval_lock)
  let ?p = "locks s4 100"
  have p: "world ?p = w1" by (simp add: s4_def s3_def s2_def)
  define s5 where "s5 = s4\<lparr>locks := (locks s4)(100 := ?p\<lparr>world := w2, waiting := note_wait 2 False (Wait Write_Wait) (waiting ?p)\<rparr>),
    thread := (thread s4)(8 := Blocked [?r2] 0)\<rparr>"
  have st5: "system_step s4 s5"
    using system_step.request [of s4 8 "[?r2]" 0 ?r2 ?p 102 "Wait Write_Wait" w2] w2 p c1
    by (simp add: s5_def s4_def sample_request_def thr_multi_lock_lap_def request_ok_def)
  have "system_step\<^sup>*\<^sup>* sample_system s5" using st1 st2 st3 st4 st5 by (meson rtranclp.rtrancl_into_rtrancl rtranclp.rtrancl_refl)
  then show ?thesis by (rule that) (use c2 in \<open>simp_all add: s5_def s4_def s3_def s2_def s1_def sample_system_def sample_start_def\<close>)
qed

section \<open>Properties\<close>

text \<open>C1: Statements that take their locks with \<open>thr_multi_lock\<close> cannot deadlock. In every state the threads can
  reach, no thread waits for itself, directly or through others, and every waiting thread waits in the
  end for a thread that is inside its statement and does not wait. This holds for any number of threads and
  locks and under aborts and timeouts, as long as no \<open>thr_abort_locks\<close> has turned a write lock into
  \<open>TL_WRITE_ONLY\<close> while another owner held a lock.\<close>

theorem multi_lock_no_deadlock:
  assumes "system_start s0" "system_step\<^sup>*\<^sup>* s0 s" "\<forall>l. \<not> forced (locks s l)"
  shows "\<not> (waits_for s)\<^sup>+\<^sup>+ t t \<and>
    (is_waiting s t \<longrightarrow> (\<exists>u. (waits_for s)\<^sup>+\<^sup>+ t u \<and> \<not> is_waiting s u \<and> thread s u \<noteq> Idle))"
proof -
  have ok: "system_ok s" by (rule system_reachable_ok [OF assms])
  have "\<not> (waits_for s)\<^sup>+\<^sup>+ t t"
  proof
    assume c: "(waits_for s)\<^sup>+\<^sup>+ t t"
    then obtain u where "waits_for s t u" by (blast dest: tranclpD)
    then obtain l where l: "waits_on s t l" by (auto simp: waits_for_def)
    then show False using waits_for_chain_greater [OF ok c l l] by simp
  qed
  moreover have "thread s u \<noteq> Idle" if "(waits_for s)\<^sup>+\<^sup>+ t u" for u
    using that by (cases rule: tranclp.cases) (auto dest: waits_for_active [OF ok])
  ultimately show ?thesis using waits_for_runner [OF ok] unfolding is_waiting_def by blast
qed

theorem multi_lock_no_deadlock_witness:
  "\<exists>s u. system_step\<^sup>*\<^sup>* sample_system s \<and> is_waiting s 8 \<and> (waits_for s)\<^sup>+\<^sup>+ 8 u \<and> \<not> is_waiting s u \<and> thread s u \<noteq> Idle"
proof -
  obtain s where s: "system_step\<^sup>*\<^sup>* sample_system s" "thread s 8 = Blocked [sample_request 2] 0"
    "chain_of Write_Wait (world_at s 100) = [2]" "\<forall>l. \<not> forced (locks s l)"
    by (rule sample_run)
  have "is_waiting s 8" using s(2,3) by (auto simp: is_waiting_def waits_on_def sample_request_def)
  then show ?thesis using multi_lock_no_deadlock [OF sample_system_start s(1,4), of 8] s(1) by blast
qed

text \<open>C7: A statement gets all its locks or none. In every state the threads can reach, a thread that has
  come back from \<open>thr_multi_lock\<close> with success holds each lock it has asked for, under its own name and
  as the kind of lock it has asked for; a thread outside of a statement owns no instance in any chain, even
  if its last \<open>thr_multi_lock\<close> has failed in the middle. Here too no \<open>thr_abort_locks\<close> may have
  forced its way.\<close>

theorem multi_lock_all_or_nothing:
  assumes "system_start s0" "system_step\<^sup>*\<^sup>* s0 s" "\<forall>l. \<not> forced (locks s l)"
  shows "(thread s t = Holding data \<longrightarrow> (\<forall>r\<in>set data.
      r_data r \<in> set (chain_of (if r_type r \<le> TL_READ_NO_INSERT then Read else Write) (world_at s (r_lock r))) \<and>
      owner_of (world_at s (r_lock r)) (r_data r) = t)) \<and>
    (thread s t = Idle \<longrightarrow> (\<forall>l q. \<forall>d\<in>set (chain_of q (world_at s l)). owner_of (world_at s l) d \<noteq> t))"
proof -
  have ok: "system_ok s" by (rule system_reachable_ok [OF assms])
  note o = system_okD [OF ok]
  have w: "world_ok (world_at s l)" for l using o(1) [of l] by (simp add: proto_ok_def)
  have "r_data r \<in> set (chain_of (if r_type r \<le> TL_READ_NO_INSERT then Read else Write) (world_at s (r_lock r))) \<and>
      owner_of (world_at s (r_lock r)) (r_data r) = t" if t: "thread s t = Holding data" and r: "r \<in> set data" for r
  proof -
    have h: "held s t r" using o(2) [of t] t r by (auto simp: in_set_conv_nth)
    have ty: "is_read (r_type r) \<or> is_write (r_type r)" using o(3) [of t] t r by (auto simp: requests_ok_def)
    show ?thesis
      using h held_type [OF h w ty] world_ok_chains(2,4) [OF w, of "r_data r" "r_lock r"]
      by (auto simp: held_def is_read_def is_write_def thr_lock_type_order)
  qed
  moreover have "owner_of (world_at s l) d \<noteq> t" if t: "thread s t = Idle" and d: "d \<in> set (chain_of q (world_at s l))" for l q d
  proof
    assume "owner_of (world_at s l) d = t"
    moreover have "used s l d" using d by (auto simp: used_def in_chains_def)
    ultimately have "request_of s t l d" using o(5) by blast
    then show False using t by (simp add: request_of_def)
  qed
  ultimately show ?thesis by blast
qed

theorem multi_lock_all_or_nothing_witness:
  "\<exists>s. system_step\<^sup>*\<^sup>* sample_system s \<and> thread s 7 = Holding [sample_request 1] \<and>
     1 \<in> set (chain_of Write (world_at s 100)) \<and> owner_of (world_at s 100) 1 = 7"
proof -
  obtain s where s: "system_step\<^sup>*\<^sup>* sample_system s" "thread s 7 = Holding [sample_request 1]"
    "\<forall>l. \<not> forced (locks s l)" by (rule sample_run)
  have "sample_request 1 \<in> set [sample_request 1]" by simp
  then show ?thesis
    using multi_lock_all_or_nothing [OF sample_system_start s(1,3), of 7 "[sample_request 1]"] s
    by (auto simp: sample_request_def thr_lock_type_order)
qed

end
