(* ===== verification/Lock_List.thy ===== *)
theory Lock_List
  imports Lock_Invariant
begin

text \<open>
  The chains of a table lock in memory. A chain is a singly linked list of lock instances with a
  back link: \<open>prev\<close> of an instance is the address of the pointer that points to it, the \<open>data\<close> member
  of the chain or the \<open>next\<close> member of the instance before, and \<open>last\<close> of the chain is the address of
  the pointer at its end. The code unlinks an instance without knowing its chain, by writing through
  \<open>prev\<close>. The theory models these pointer operations and shows that they are the list operations the
  model of the locks uses.
\<close>

section \<open>Pointers\<close>

text \<open>The addresses of pointers to lock instances; 0 is the null pointer.\<close>

datatype link = Data lock_list | Next ptr

record links =
  at :: "link \<Rightarrow> ptr"
  prev :: "ptr \<Rightarrow> link"
  last_link :: "lock_list \<Rightarrow> link"

definition init_links :: "links \<Rightarrow> links" where
  "init_links s = s\<lparr>at := (\<lambda>l. case l of Data q \<Rightarrow> 0 | Next d \<Rightarrow> at s l), last_link := Data\<rparr>"

definition link_last_ptr :: "lock_list \<Rightarrow> ptr \<Rightarrow> links \<Rightarrow> links" where
  "link_last_ptr q d s =
     (let s = s\<lparr>at := (at s)(last_link s q := d)\<rparr>;
          s = s\<lparr>prev := (prev s)(d := last_link s q)\<rparr>
      in s\<lparr>last_link := (last_link s)(q := Next d)\<rparr>)"

definition clear_next :: "ptr \<Rightarrow> links \<Rightarrow> links" where
  "clear_next d s = s\<lparr>at := (at s)(Next d := 0)\<rparr>"

definition unlink_ptr :: "lock_list \<Rightarrow> ptr \<Rightarrow> links \<Rightarrow> links" where
  "unlink_ptr q d s =
     (let n = at s (Next d);
          s = s\<lparr>at := (at s)(prev s d := n)\<rparr>
      in
      if n \<noteq> 0 then s\<lparr>prev := (prev s)(n := prev s d)\<rparr>
      else s\<lparr>last_link := (last_link s)(q := prev s d)\<rparr>)"

definition link_first_ptr :: "lock_list \<Rightarrow> ptr \<Rightarrow> links \<Rightarrow> links" where
  "link_first_ptr q d s =
     (let n = at s (Data q);
          s = s\<lparr>at := (at s)(Next d := n)\<rparr>;
          s = (if n \<noteq> 0 then s\<lparr>prev := (prev s)(n := Next d)\<rparr>
               else s\<lparr>last_link := (last_link s)(q := Next d)\<rparr>);
          s = s\<lparr>prev := (prev s)(d := Data q)\<rparr>
      in s\<lparr>at := (at s)(Data q := d)\<rparr>)"

text \<open>\<open>free_all_read_locks\<close>: all waiting readers move to the read chain with three stores; then the
  loop puts those that must stay (\<open>stays\<close>) back on the wait chain, whose end is written only after the
  loop. Until then \<open>next\<close> of an instance put back still points to the following reader, from where the
  loop goes on.\<close>

definition move_readers_ptr :: "links \<Rightarrow> links" where
  "move_readers_ptr s =
     (let d = at s (Data Read_Wait);
          s = s\<lparr>at := (at s)(last_link s Read := d)\<rparr>;
          s = s\<lparr>prev := (prev s)(d := last_link s Read)\<rparr>;
          s = s\<lparr>last_link := (last_link s)(Read := last_link s Read_Wait)\<rparr>
      in s\<lparr>last_link := (last_link s)(Read_Wait := Data Read_Wait)\<rparr>)"

partial_function (option) free_read_loop_ptr :: "(ptr \<Rightarrow> bool) \<Rightarrow> ptr \<Rightarrow> links \<Rightarrow> links option" where
  [code]: "free_read_loop_ptr stays d s =
     (let s = (if stays d then link_last_ptr Read_Wait d (unlink_ptr Read d s) else s) in
      if at s (Next d) = 0 then Some s else free_read_loop_ptr stays (at s (Next d)) s)"

definition end_wait_chain :: "links \<Rightarrow> links" where
  "end_wait_chain s = s\<lparr>at := (at s)(last_link s Read_Wait := 0)\<rparr>"

definition free_all_read_locks_ptr :: "(ptr \<Rightarrow> bool) \<Rightarrow> links \<Rightarrow> links option" where
  "free_all_read_locks_ptr stays s =
     map_option end_wait_chain (free_read_loop_ptr stays (at s (Data Read_Wait)) (move_readers_ptr s))"

section \<open>Chains\<close>

text \<open>\<open>seg s l ds e\<close>: following the pointers from the address \<open>l\<close> leads over the instances \<open>ds\<close> to the
  address \<open>e\<close>, and the back links are right.\<close>

fun seg :: "links \<Rightarrow> link \<Rightarrow> ptr list \<Rightarrow> link \<Rightarrow> bool" where
  "seg s l [] e \<longleftrightarrow> l = e"
| "seg s l (d # ds) e \<longleftrightarrow> d \<noteq> 0 \<and> at s l = d \<and> prev s d = l \<and> seg s (Next d) ds e"

definition chain_at :: "links \<Rightarrow> lock_list \<Rightarrow> ptr list \<Rightarrow> bool" where
  "chain_at s q ds \<longleftrightarrow> seg s (Data q) ds (last_link s q) \<and> at s (last_link s q) = 0"

definition chains_at :: "links \<Rightarrow> (lock_list \<Rightarrow> ptr list) \<Rightarrow> bool" where
  "chains_at s ch \<longleftrightarrow> (\<forall>q. chain_at s q (ch q)) \<and> (\<forall>q. distinct (ch q)) \<and>
     (\<forall>q q'. q \<noteq> q' \<longrightarrow> set (ch q) \<inter> set (ch q') = {})"

definition links_of :: "link \<Rightarrow> ptr list \<Rightarrow> link set" where
  "links_of l ds = insert l (Next ` set ds)"

lemma seg_append: "seg s l (ds @ es) e \<longleftrightarrow> (\<exists>m. seg s l ds m \<and> seg s m es e)"
  by (induction ds arbitrary: l) auto

lemma seg_end: "seg s l ds e \<Longrightarrow> e \<in> links_of l ds"
  by (induction ds arbitrary: l) (auto simp: links_of_def)

lemma seg_frame:
  assumes "seg s l ds e" "distinct ds" "l \<notin> Next ` set ds"
    and "\<And>m. m \<in> links_of l ds \<Longrightarrow> m \<noteq> e \<Longrightarrow> at s' m = at s m" "\<And>d. d \<in> set ds \<Longrightarrow> prev s' d = prev s d"
  shows "seg s' l ds e"
  using assms
proof (induction ds arbitrary: l)
  case (Cons d ds)
  have e: "e \<in> links_of (Next d) ds" using Cons.prems(1) seg_end by auto
  have "l \<noteq> e" using e Cons.prems(3) by (auto simp: links_of_def)
  then have "at s' l = at s l" using Cons.prems(4) by (simp add: links_of_def)
  moreover have "seg s' (Next d) ds e"
    using Cons.prems by (intro Cons.IH) (auto simp: links_of_def)
  ultimately show ?case using Cons.prems by auto
qed simp

lemma chain_at_frame:
  assumes "chain_at s q ds" "distinct ds" "last_link s' q = last_link s q"
    and "\<And>m. m \<in> links_of (Data q) ds \<Longrightarrow> at s' m = at s m" "\<And>d. d \<in> set ds \<Longrightarrow> prev s' d = prev s d"
  shows "chain_at s' q ds"
proof -
  have "seg s (Data q) ds (last_link s q)" using assms(1) by (simp add: chain_at_def)
  moreover from this have "last_link s q \<in> links_of (Data q) ds" by (rule seg_end)
  ultimately show ?thesis using assms seg_frame [of s "Data q" ds "last_link s q" s'] by (auto simp: chain_at_def)
qed

lemma seg_not_null: "seg s l ds e \<Longrightarrow> 0 \<notin> set ds"
  by (induction ds arbitrary: l) auto

lemma chains_disjoint:
  assumes "chains_at s ch" "q' \<noteq> q" "x \<in> set (ch q')"
  shows "x \<notin> set (ch q)"
proof -
  have "set (ch q) \<inter> set (ch q') = {}" using assms(1,2) by (simp add: chains_at_def)
  then show ?thesis using assms(3) by blast
qed

text \<open>A change of one chain that leaves the pointers of the other chains alone.\<close>

lemma chains_at_update:
  assumes ok: "chains_at s ch" and new: "chain_at s' q ds" "distinct ds"
    and sub: "\<And>x q'. x \<in> set ds \<Longrightarrow> x \<notin> set (ch q) \<Longrightarrow> q' \<noteq> q \<Longrightarrow> x \<notin> set (ch q')"
    and at: "\<And>m q'. q' \<noteq> q \<Longrightarrow> m \<in> links_of (Data q') (ch q') \<Longrightarrow> at s' m = at s m"
    and prev: "\<And>d q'. q' \<noteq> q \<Longrightarrow> d \<in> set (ch q') \<Longrightarrow> prev s' d = prev s d"
    and last: "\<And>q'. q' \<noteq> q \<Longrightarrow> last_link s' q' = last_link s q'"
  shows "chains_at s' (ch(q := ds))"
proof -
  have "chain_at s' q' (ch q')" if "q' \<noteq> q" for q'
  proof (rule chain_at_frame)
    show "chain_at s q' (ch q')" "distinct (ch q')" using ok by (simp_all add: chains_at_def)
  qed (use at prev last that in auto)
  moreover have "set ds \<inter> set (ch q') = {}" if "q' \<noteq> q" for q'
  proof -
    have "set (ch q) \<inter> set (ch q') = {}" using ok that by (simp add: chains_at_def)
    then show ?thesis using sub that by blast
  qed
  ultimately show ?thesis using ok new unfolding chains_at_def by (auto simp: disjoint_iff)
qed

lemma links_apart:
  assumes "chains_at s ch" "q' \<noteq> q" "m \<in> links_of (Data q') (ch q')" "m' \<in> links_of (Data q) (ch q)"
  shows "m \<noteq> m'"
proof -
  have "set (ch q) \<inter> set (ch q') = {}" using assms(1,2) by (simp add: chains_at_def)
  then show ?thesis using assms(2-4) unfolding links_of_def by auto
qed

lemma last_link_own:
  assumes "chains_at s ch" "q' \<noteq> q"
  shows "last_link s q \<notin> links_of (Data q') (ch q')"
proof -
  have "seg s (Data q) (ch q) (last_link s q)" using assms(1) by (simp add: chains_at_def chain_at_def)
  then have "last_link s q \<in> links_of (Data q) (ch q)" by (rule seg_end)
  then show ?thesis using links_apart [OF assms] by blast
qed

lemma link_last_ptr_chains:
  assumes ok: "chains_at s ch" and d: "\<not> in_chains ch d" "d \<noteq> 0" "at s (Next d) = 0"
  shows "chains_at (link_last_ptr q d s) (ch(q := ch q @ [d]))"
proof -
  let ?e = "last_link s q"
  let ?s = "link_last_ptr q d s"
  have c: "seg s (Data q) (ch q) ?e" "at s ?e = 0" "distinct (ch q)" "d \<notin> set (ch q)"
    using ok d(1) by (auto simp: chains_at_def chain_at_def in_chains_def)
  have e: "?e \<in> links_of (Data q) (ch q)" "?e \<noteq> Next d" using seg_end [OF c(1)] c(4) by (auto simp: links_of_def)
  have f: "at ?s = (at s)(?e := d)" "prev ?s = (prev s)(d := ?e)" "last_link ?s = (last_link s)(q := Next d)"
    by (simp_all add: link_last_ptr_def Let_def)
  have "seg ?s (Data q) (ch q) ?e" using c by (intro seg_frame [OF c(1)]) (auto simp: f)
  then have "chain_at ?s q (ch q @ [d])" using d e by (auto simp: chain_at_def f seg_append)
  then show ?thesis
    using last_link_own [OF ok, of _ q] d(1) c
    by (intro chains_at_update [OF ok]) (auto simp: f in_chains_def)
qed

lemma unlink_ptr_chains:
  assumes ok: "chains_at s ch" and d: "d \<in> set (ch q)"
  shows "chains_at (unlink_ptr q d s) (ch(q := remove1 d (ch q)))"
proof -
  let ?e = "last_link s q" and ?s = "unlink_ptr q d s"
  obtain xs ys where ds: "ch q = xs @ d # ys" using d by (meson split_list)
  have c: "seg s (Data q) (ch q) ?e" "at s ?e = 0" "distinct (ch q)"
    using ok by (auto simp: chains_at_def chain_at_def)
  have rm: "remove1 d (ch q) = xs @ ys" using c(3) by (simp add: ds remove1_append)
  obtain m where m: "seg s (Data q) xs m" "at s m = d" "prev s d = m" "seg s (Next d) ys ?e"
    using c(1) by (auto simp: ds seg_append)
  have nd: "d \<notin> set xs" "d \<notin> set ys" "distinct xs" "distinct ys" "set xs \<inter> set ys = {}" using c(3) by (auto simp: ds)
  have ml: "m \<in> links_of (Data q) xs" using seg_end [OF m(1)] .
  then have mq: "m \<in> links_of (Data q) (ch q)" "m \<noteq> Next d" "m \<notin> Next ` set ys"
    using nd by (auto simp: links_of_def ds)
  have n: "at s (Next d) \<noteq> 0 \<Longrightarrow> at s (Next d) \<in> set ys" using m(4) c(2) by (cases ys) auto
  then have "at s (Next d) \<noteq> 0 \<Longrightarrow> at s (Next d) \<notin> set xs" using nd(5) by blast
  then have s1: "seg ?s (Data q) xs m"
    using nd m(3) by (intro seg_frame [OF m(1)]) (auto simp: unlink_ptr_def Let_def)
  have new: "chain_at ?s q (xs @ ys)"
  proof (cases ys)
    case Nil
    then show ?thesis using s1 m c(2) by (simp add: chain_at_def unlink_ptr_def Let_def)
  next
    case (Cons y ys')
    then have y: "at s (Next d) = y" "y \<noteq> 0" "seg s (Next y) ys' ?e" using m(4) by auto
    have e: "?e \<in> links_of (Next y) ys'" using seg_end [OF y(3)] .
    then have em: "?e \<noteq> m" using mq(3) Cons by (auto simp: links_of_def)
    have "seg ?s (Next y) ys' ?e"
      using nd mq Cons y by (intro seg_frame [OF y(3)]) (auto simp: unlink_ptr_def Let_def m(3) links_of_def)
    then show ?thesis using s1 Cons y m c(2) em by (auto simp: chain_at_def seg_append unlink_ptr_def Let_def)
  qed
  show ?thesis unfolding rm
  proof (rule chains_at_update [OF ok new])
    show "x \<notin> set (ch q')" if "x \<in> set (xs @ ys)" "x \<notin> set (ch q)" for x q'
      using that by (auto simp: ds)
    show "at ?s k = at s k" if "q' \<noteq> q" "k \<in> links_of (Data q') (ch q')" for k q'
      using links_apart [OF ok that mq(1)] by (simp add: unlink_ptr_def Let_def m(3))
    show "prev ?s x = prev s x" if "q' \<noteq> q" "x \<in> set (ch q')" for x q'
    proof -
      have "x \<notin> set ys" using chains_disjoint [OF ok that] by (simp add: ds)
      then show ?thesis using n by (auto simp: unlink_ptr_def Let_def)
    qed
  qed (use nd in \<open>auto simp: unlink_ptr_def Let_def\<close>)
qed

lemma link_first_ptr_chains:
  assumes ok: "chains_at s ch" and d: "\<not> in_chains ch d" "d \<noteq> 0"
  shows "chains_at (link_first_ptr q d s) (ch(q := d # ch q))"
proof -
  let ?e = "last_link s q" and ?s = "link_first_ptr q d s"
  have c: "seg s (Data q) (ch q) ?e" "at s ?e = 0" "distinct (ch q)" "d \<notin> set (ch q)"
    using ok d(1) by (auto simp: chains_at_def chain_at_def in_chains_def)
  have new: "chain_at ?s q (d # ch q)"
  proof (cases "ch q")
    case Nil
    then have "at s (Data q) = 0" using c(1,2) by simp
    then show ?thesis using Nil d by (simp add: chain_at_def link_first_ptr_def Let_def)
  next
    case (Cons y ys)
    then have y: "at s (Data q) = y" "y \<noteq> 0" "seg s (Next y) ys ?e" using c(1) by auto
    have e: "?e \<in> links_of (Next y) ys" using seg_end [OF y(3)] .
    have "seg ?s (Next y) ys ?e"
      using c(3,4) Cons y by (intro seg_frame [OF y(3)]) (auto simp: link_first_ptr_def Let_def links_of_def)
    moreover have "?e \<noteq> Data q" "?e \<noteq> Next d" using e c(4) Cons by (auto simp: links_of_def)
    ultimately show ?thesis using y c(2) d(2) c(4) Cons by (auto simp: chain_at_def link_first_ptr_def Let_def)
  qed
  show ?thesis
  proof (rule chains_at_update [OF ok new])
    have n: "at s (Data q) \<noteq> 0 \<Longrightarrow> at s (Data q) \<in> set (ch q)" using c(1,2) by (cases "ch q") auto
    show "x \<notin> set (ch q')" if "x \<in> set (d # ch q)" "x \<notin> set (ch q)" for x q'
      using that d(1) by (auto simp: in_chains_def)
    show "at ?s k = at s k" if "q' \<noteq> q" "k \<in> links_of (Data q') (ch q')" for k q'
      using that d(1) by (auto simp: link_first_ptr_def Let_def links_of_def in_chains_def)
    show "prev ?s x = prev s x" if "q' \<noteq> q" "x \<in> set (ch q')" for x q'
    proof -
      have "x \<notin> set (ch q)" "x \<noteq> d" using chains_disjoint [OF ok that] that d(1) by (auto simp: in_chains_def)
      then show ?thesis using n by (auto simp: link_first_ptr_def Let_def)
    qed
  qed (use c in \<open>auto simp: link_first_ptr_def Let_def\<close>)
qed

lemma init_links_chains: "chains_at (init_links s) (\<lambda>_. [])"
  by (simp add: chains_at_def chain_at_def init_links_def)

lemma clear_next_chains:
  assumes "chains_at s ch" "\<not> in_chains ch d"
  shows "chains_at (clear_next d s) ch"
proof -
  have "chain_at (clear_next d s) q (ch q)" for q
  proof (rule chain_at_frame)
    show "chain_at s q (ch q)" "distinct (ch q)" using assms(1) by (simp_all add: chains_at_def)
  qed (use assms(2) in \<open>auto simp: clear_next_def links_of_def in_chains_def\<close>)
  then show ?thesis using assms(1) by (simp add: chains_at_def)
qed

section \<open>Releasing the waiting readers\<close>

lemma move_readers_chains:
  assumes ok: "chains_at s ch" and ne: "ch Read_Wait \<noteq> []"
  shows "chains_at (end_wait_chain (move_readers_ptr s)) (ch(Read := ch Read @ ch Read_Wait, Read_Wait := []))"
proof -
  let ?s = "end_wait_chain (move_readers_ptr s)"
  let ?e = "last_link s Read" and ?f = "last_link s Read_Wait"
  obtain d ds where w: "ch Read_Wait = d # ds" using ne by (cases "ch Read_Wait") auto
  have c: "seg s (Data Read) (ch Read) ?e" "at s ?e = 0" "distinct (ch Read)"
    and cw: "seg s (Data Read_Wait) (d # ds) ?f" "at s ?f = 0" "distinct (d # ds)"
    unfolding w [symmetric] using ok by (simp_all add: chains_at_def chain_at_def)
  have dis: "x \<notin> set (ch Read)" if "x \<in> set (d # ds)" for x
    using chains_disjoint [OF ok, of Read_Wait Read x] that by (simp add: w)
  have e: "?e \<in> links_of (Data Read) (ch Read)" using seg_end [OF c(1)] .
  have f: "?f \<in> links_of (Next d) ds" using cw(1) seg_end by auto
  have d: "at s (Data Read_Wait) = d" "d \<noteq> 0" "seg s (Next d) ds ?f" using cw(1) by auto
  have at: "at ?s = (at s)(?e := d, Data Read_Wait := 0)" "prev ?s = (prev s)(d := ?e)"
    "last_link ?s = (last_link s)(Read := ?f, Read_Wait := Data Read_Wait)"
    by (simp_all add: end_wait_chain_def move_readers_ptr_def Let_def d(1))
  have ed: "?e \<noteq> Data Read_Wait" "?e \<notin> links_of (Next d) ds" using e dis by (auto simp: links_of_def)
  have "seg ?s (Data Read) (ch Read) ?e"
    using c dis by (intro seg_frame [OF c(1)]) (auto simp: at links_of_def)
  moreover have "seg ?s (Next d) ds ?f"
  proof (rule seg_frame [OF d(3)])
    fix m
    assume m: "m \<in> links_of (Next d) ds"
    then have "m \<noteq> ?e" "m \<noteq> Data Read_Wait" using ed(2) by (blast, auto simp: links_of_def)
    then show "at ?s m = at s m" by (simp add: at)
  qed (use cw(3) in \<open>auto simp: at\<close>)
  moreover have "at ?s ?e = d" "prev ?s d = ?e" using ed by (simp_all add: at)
  moreover have "?f \<noteq> ?e" using f ed(2) by metis
  then have "at ?s ?f = 0" using cw(2) by (simp add: at)
  ultimately have "chain_at ?s Read (ch Read @ d # ds)"
    using d(2) by (auto simp: chain_at_def seg_append at(3))
  moreover have "chain_at ?s Read_Wait []" by (simp add: chain_at_def at)
  moreover have "chain_at ?s q (ch q)" if "q \<noteq> Read" "q \<noteq> Read_Wait" for q
  proof (rule chain_at_frame)
    show "chain_at s q (ch q)" "distinct (ch q)" using ok by (simp_all add: chains_at_def)
    show "last_link ?s q = last_link s q" using that by (simp add: at)
    show "at ?s m = at s m" if m: "m \<in> links_of (Data q) (ch q)" for m
    proof -
      have "m \<noteq> ?e" using last_link_own [OF ok, of q Read] m \<open>q \<noteq> Read\<close> by metis
      moreover have "m \<noteq> Data Read_Wait" using m \<open>q \<noteq> Read_Wait\<close> by (auto simp: links_of_def)
      ultimately show ?thesis by (simp add: at)
    qed
    show "prev ?s x = prev s x" if x: "x \<in> set (ch q)" for x
      using chains_disjoint [OF ok _ x, of Read_Wait] \<open>q \<noteq> Read_Wait\<close> by (auto simp: at w)
  qed
  ultimately have all: "chain_at ?s q ((ch(Read := ch Read @ d # ds, Read_Wait := [])) q)" for q by simp
  have dj: "set (ch q) \<inter> set (ch q') = {}" if "q \<noteq> q'" for q q' using ok that by (simp add: chains_at_def)
  have "distinct ((ch(Read := ch Read @ d # ds, Read_Wait := [])) q)" for q
    using ok c(3) cw(3) dis by (auto simp: chains_at_def)
  moreover have "set ((ch(Read := ch Read @ d # ds, Read_Wait := [])) q) \<inter>
      set ((ch(Read := ch Read @ d # ds, Read_Wait := [])) q') = {}" if "q \<noteq> q'" for q q'
    using dj [OF that] dj [of Read_Wait q] dj [of Read_Wait q'] dj [of Read q] dj [of Read q'] that
    by (auto simp: w)
  ultimately show ?thesis using all unfolding chains_at_def w by blast
qed

text \<open>Putting a reader back, seen with the end of the wait chain written at once.\<close>

lemma end_wait_put_back:
  assumes ok: "chains_at (end_wait_chain s) ch" and d: "d \<in> set (ch Read)"
  shows "end_wait_chain (link_last_ptr Read_Wait d (unlink_ptr Read d s)) =
           link_last_ptr Read_Wait d (clear_next d (unlink_ptr Read d (end_wait_chain s)))"
    and "at (link_last_ptr Read_Wait d (unlink_ptr Read d s)) (Next d) = at (end_wait_chain s) (Next d)"
proof -
  let ?t = "end_wait_chain s"
  obtain xs ys where ds: "ch Read = xs @ d # ys" using d by (meson split_list)
  have c: "seg ?t (Data Read) (ch Read) (last_link ?t Read)" "distinct (ch Read)"
    using ok by (auto simp: chains_at_def chain_at_def)
  have "seg ?t (Data Read) xs (prev ?t d)" using c(1) by (auto simp: ds seg_append)
  then have m: "prev ?t d \<in> links_of (Data Read) xs" by (rule seg_end)
  then have mn: "prev ?t d \<in> links_of (Data Read) (ch Read)" "prev s d \<noteq> Next d"
    using c(2) by (auto simp: ds links_of_def end_wait_chain_def)
  have own: "last_link s Read_Wait \<notin> links_of (Data Read) (ch Read)"
    using last_link_own [OF ok, of Read Read_Wait] by (simp add: end_wait_chain_def)
  then have ne: "last_link s Read_Wait \<noteq> Next d" "last_link s Read_Wait \<noteq> prev s d"
    using d mn(1) by (auto simp: links_of_def end_wait_chain_def)
  show "end_wait_chain (link_last_ptr Read_Wait d (unlink_ptr Read d s)) =
           link_last_ptr Read_Wait d (clear_next d (unlink_ptr Read d (end_wait_chain s)))"
    using ne mn(2) by (auto simp: end_wait_chain_def link_last_ptr_def unlink_ptr_def clear_next_def Let_def fun_eq_iff)
  show "at (link_last_ptr Read_Wait d (unlink_ptr Read d s)) (Next d) = at (end_wait_chain s) (Next d)"
    using ne mn(2) by (auto simp: end_wait_chain_def link_last_ptr_def unlink_ptr_def Let_def)
qed

lemma chains_not_null:
  assumes "chains_at s ch" "d \<in> set (ch q)"
  shows "d \<noteq> 0"
proof -
  have "seg s (Data q) (ch q) (last_link s q)" using assms(1) by (simp add: chains_at_def chain_at_def)
  then show ?thesis using seg_not_null assms(2) by metis
qed

lemma chains_take_out:
  assumes "chains_at s ch" "d \<in> set (ch q)"
  shows "\<not> in_chains (ch(q := remove1 d (ch q))) d"
proof -
  have "distinct (ch q)" using assms(1) by (simp add: chains_at_def)
  moreover have "d \<notin> set (ch q')" if "q' \<noteq> q" for q' using chains_disjoint [OF assms(1) _ assms(2), of q'] that by metis
  ultimately show ?thesis by (auto simp: in_chains_def)
qed

section \<open>The interface of the chains\<close>

text \<open>What the operations on locks need from the chains: a state that holds given lists, and operations
  that append an instance, put it first and take it out.\<close>

locale chain_store =
  fixes holds :: "'s \<Rightarrow> (lock_list \<Rightarrow> ptr list) \<Rightarrow> bool"
    and append_to :: "lock_list \<Rightarrow> ptr \<Rightarrow> 's \<Rightarrow> 's"
    and put_first :: "lock_list \<Rightarrow> ptr \<Rightarrow> 's \<Rightarrow> 's"
    and take_out :: "lock_list \<Rightarrow> ptr \<Rightarrow> 's \<Rightarrow> 's"
  assumes append_to: "holds s ch \<Longrightarrow> \<not> in_chains ch d \<Longrightarrow> d \<noteq> 0 \<Longrightarrow> holds (append_to q d s) (ch(q := ch q @ [d]))"
    and put_first: "holds s ch \<Longrightarrow> \<not> in_chains ch d \<Longrightarrow> d \<noteq> 0 \<Longrightarrow> holds (put_first q d s) (ch(q := d # ch q))"
    and take_out: "holds s ch \<Longrightarrow> d \<in> set (ch q) \<Longrightarrow> holds (take_out q d s) (ch(q := remove1 d (ch q)))"
    and taken_out: "holds s ch \<Longrightarrow> d \<in> set (ch q) \<Longrightarrow> \<not> in_chains (ch(q := remove1 d (ch q))) d"
    and not_null: "holds s ch \<Longrightarrow> d \<in> set (ch q) \<Longrightarrow> d \<noteq> 0"
begin

lemma move_last:
  assumes "holds s ch" "d \<in> set (ch q)" "q' \<noteq> q"
  shows "holds (append_to q' d (take_out q d s)) (ch(q := remove1 d (ch q), q' := ch q' @ [d]))"
  using append_to [OF take_out [OF assms(1,2)] taken_out [OF assms(1,2)] not_null [OF assms(1,2)], of q'] assms(3)
  by simp

lemma move_first:
  assumes "holds s ch" "d \<in> set (ch q)" "q' \<noteq> q"
  shows "holds (put_first q' d (take_out q d s)) (ch(q := remove1 d (ch q), q' := d # ch q'))"
  using put_first [OF take_out [OF assms(1,2)] taken_out [OF assms(1,2)] not_null [OF assms(1,2)], of q'] assms(3)
  by simp

lemma append_world:
  assumes "holds s (chain (lock w))" "\<not> in_chains (chain (lock w)) d" "d \<noteq> 0"
  shows "holds (append_to q d s) (chain (lock (link_last q d w)))"
  using append_to [OF assms, of q] by (simp add: link_last_def set_chain_def)

lemma take_out_world:
  assumes "holds s (chain (lock w))" "unlink q d w = Some w'"
  shows "holds (take_out q d s) (chain (lock w'))"
  using take_out [OF assms(1), of d q] assms(2) by (auto simp: unlink_def set_chain_def split: if_splits)

lemma move_last_world:
  assumes "holds s (chain (lock w))" "unlink q d w = Some w'" "q' \<noteq> q"
  shows "holds (append_to q' d (take_out q d s)) (chain (lock (link_last q' d w')))"
  using move_last [OF assms(1) _ assms(3), of d] assms(2,3)
  by (auto simp: unlink_def link_last_def set_chain_def split: if_splits)

lemma move_first_world:
  assumes "holds s (chain (lock w))" "unlink q d w = Some w'" "q' \<noteq> q"
  shows "holds (put_first q' d (take_out q d s)) (chain (lock (link_first q' d w')))"
  using move_first [OF assms(1) _ assms(3), of d] assms(2,3)
  by (auto simp: unlink_def link_first_def set_chain_def split: if_splits)

end

definition append_ptr :: "lock_list \<Rightarrow> ptr \<Rightarrow> links \<Rightarrow> links" where
  "append_ptr q d s = link_last_ptr q d (clear_next d s)"

lemma append_ptr_chains:
  assumes "chains_at s ch" "\<not> in_chains ch d" "d \<noteq> 0"
  shows "chains_at (append_ptr q d s) (ch(q := ch q @ [d]))"
  unfolding append_ptr_def
  by (rule link_last_ptr_chains [OF clear_next_chains [OF assms(1,2)] assms(2,3)]) (simp add: clear_next_def)

interpretation ptrs: chain_store chains_at append_ptr link_first_ptr unlink_ptr
  by unfold_locales
    (simp_all add: append_ptr_chains link_first_ptr_chains unlink_ptr_chains chains_take_out chains_not_null)

section \<open>The loop over the waiting readers\<close>

text \<open>One round of the loop: \<open>next\<close> leads to the following reader whether \<open>d\<close> is put back or not.\<close>

lemma free_read_round_chains:
  assumes ok: "chains_at (end_wait_chain s) ch" and ds: "ch Read = xs @ d # ds"
    and s': "s' = (if stays d then link_last_ptr Read_Wait d (unlink_ptr Read d s) else s)"
  shows "chains_at (end_wait_chain s')
      (if stays d then ch(Read := xs @ ds, Read_Wait := ch Read_Wait @ [d]) else ch)"
    and "at s' (Next d) = (case ds of [] \<Rightarrow> 0 | y # _ \<Rightarrow> y)" and "0 \<notin> set ds"
proof -
  let ?t = "end_wait_chain s"
  have d: "d \<in> set (ch Read)" by (simp add: ds)
  have c: "seg ?t (Data Read) (ch Read) (last_link ?t Read)" "at ?t (last_link ?t Read) = 0" "distinct (ch Read)"
    using ok by (auto simp: chains_at_def chain_at_def)
  have rm: "remove1 d (ch Read) = xs @ ds" using c(3) by (simp add: ds remove1_append)
  show "chains_at (end_wait_chain s')
      (if stays d then ch(Read := xs @ ds, Read_Wait := ch Read_Wait @ [d]) else ch)"
    using ok ptrs.move_last [OF ok d, of Read_Wait] by (simp add: s' end_wait_put_back(1) [OF ok d] append_ptr_def rm)
  have "last_link s Read_Wait \<noteq> Next d"
    using last_link_own [OF ok, of Read Read_Wait] d by (auto simp: end_wait_chain_def links_of_def)
  then have "at ?t (Next d) = at s (Next d)" by (simp add: end_wait_chain_def)
  then have "at s' (Next d) = at ?t (Next d)" using end_wait_put_back(2) [OF ok d] by (simp add: s')
  moreover have "seg ?t (Next d) ds (last_link ?t Read)" using c(1) by (auto simp: ds seg_append)
  then have "at ?t (Next d) = (case ds of [] \<Rightarrow> 0 | y # _ \<Rightarrow> y)" using c(2) by (cases ds) auto
  ultimately show "at s' (Next d) = (case ds of [] \<Rightarrow> 0 | y # _ \<Rightarrow> y)" by simp
  show "0 \<notin> set ds" using seg_not_null [OF c(1)] by (auto simp: ds)
qed

lemma free_read_loop_ptr_chains:
  assumes "chains_at (end_wait_chain s) ch" "ch Read = xs @ d # ds"
  shows "\<exists>s'. free_read_loop_ptr stays d s = Some s' \<and>
    chains_at (end_wait_chain s')
      (ch(Read := xs @ filter (\<lambda>x. \<not> stays x) (d # ds), Read_Wait := ch Read_Wait @ filter stays (d # ds)))"
  using assms
proof (induction ds arbitrary: d xs s ch)
  case Nil
  obtain s1 where s1: "s1 = (if stays d then link_last_ptr Read_Wait d (unlink_ptr Read d s) else s)" by blast
  note r = free_read_round_chains [where stays = stays and d = d, OF Nil.prems s1]
  have l: "free_read_loop_ptr stays d s = Some s1"
    using r(2) unfolding free_read_loop_ptr.simps [of stays d s] Let_def s1 [symmetric] by simp
  have "(if stays d then ch(Read := xs @ [], Read_Wait := ch Read_Wait @ [d]) else ch) =
      ch(Read := xs @ filter (\<lambda>x. \<not> stays x) [d], Read_Wait := ch Read_Wait @ filter stays [d])"
    using Nil.prems(2) by (simp add: fun_eq_iff)
  from r(1) [unfolded this] l show ?case by blast
next
  case (Cons y ds)
  obtain s1 where s1: "s1 = (if stays d then link_last_ptr Read_Wait d (unlink_ptr Read d s) else s)" by blast
  note r = free_read_round_chains [where stays = stays and d = d, OF Cons.prems s1]
  have l: "free_read_loop_ptr stays d s = free_read_loop_ptr stays y s1"
    using r(2,3) unfolding free_read_loop_ptr.simps [of stays d s] Let_def s1 [symmetric] by simp
  let ?ch = "if stays d then ch(Read := xs @ y # ds, Read_Wait := ch Read_Wait @ [d]) else ch"
  let ?xs = "if stays d then xs else xs @ [d]"
  have "?ch Read = ?xs @ y # ds" using Cons.prems(2) by simp
  then have "\<exists>s'. free_read_loop_ptr stays y s1 = Some s' \<and> chains_at (end_wait_chain s')
      (?ch(Read := ?xs @ filter (\<lambda>x. \<not> stays x) (y # ds), Read_Wait := ?ch Read_Wait @ filter stays (y # ds)))"
    using r(1) by (rule Cons.IH [rotated])
  moreover have "?ch(Read := ?xs @ filter (\<lambda>x. \<not> stays x) (y # ds), Read_Wait := ?ch Read_Wait @ filter stays (y # ds)) =
      ch(Read := xs @ filter (\<lambda>x. \<not> stays x) (d # y # ds), Read_Wait := ch Read_Wait @ filter stays (d # y # ds))"
    by (simp add: fun_eq_iff)
  ultimately show ?case by (simp only: l)
qed

lemma free_all_read_locks_ptr_chains:
  assumes "chains_at s ch" "ch Read_Wait \<noteq> []"
  shows "\<exists>s'. free_all_read_locks_ptr stays s = Some s' \<and>
    chains_at s' (ch(Read := ch Read @ filter (\<lambda>x. \<not> stays x) (ch Read_Wait), Read_Wait := filter stays (ch Read_Wait)))"
proof -
  obtain d ds where w: "ch Read_Wait = d # ds" using assms(2) by (cases "ch Read_Wait") auto
  have "seg s (Data Read_Wait) (ch Read_Wait) (last_link s Read_Wait)"
    using assms(1) by (simp add: chains_at_def chain_at_def)
  then have "at s (Data Read_Wait) = d" by (simp add: w)
  then show ?thesis
    using free_read_loop_ptr_chains [OF move_readers_chains [OF assms], of "ch Read" d ds stays]
    by (auto simp: free_all_read_locks_ptr_def w fun_upd_twist)
qed

text \<open>The chains after the loop over lists.\<close>

lemma free_read_loop_chains:
  assumes "free_read_loop ds u w = Some w'" "chain_of Read w = xs @ ds" "distinct (xs @ ds)"
  shows "chain (lock w') = (chain (lock w))(Read := xs @ filter (\<lambda>d. \<not> (type_of w d = TL_READ_NO_INSERT \<and> u)) ds,
    Read_Wait := chain_of Read_Wait w @ filter (\<lambda>d. type_of w d = TL_READ_NO_INSERT \<and> u) ds)"
  using assms
proof (induction ds u w arbitrary: xs rule: free_read_loop.induct)
  case (1 u w)
  then show ?case by (auto simp: fun_eq_iff)
next
  case (2 d ds u w)
  show ?case
  proof (cases "type_of w d = TL_READ_NO_INSERT \<and> u")
    case True
    have rm: "remove1 d (chain_of Read w) = xs @ ds" using 2(4,5) by (simp add: remove1_append)
    obtain w1 where w1: "w1 = set_chain Read (xs @ ds) w" by blast
    have "d \<in> set (chain_of Read w)" using 2(4) by simp
    then have u: "unlink Read d w = Some w1" unfolding unlink_def rm w1 by simp
    then have "free_read_loop ds u (link_last Read_Wait d w1) = Some w'" using 2(3) True by simp
    then have "chain (lock w') = (chain (lock (link_last Read_Wait d w1)))
        (Read := xs @ filter (\<lambda>x. \<not> (type_of (link_last Read_Wait d w1) x = TL_READ_NO_INSERT \<and> u)) ds,
         Read_Wait := chain_of Read_Wait (link_last Read_Wait d w1) @
           filter (\<lambda>x. type_of (link_last Read_Wait d w1) x = TL_READ_NO_INSERT \<and> u) ds)"
      using 2(5) by (intro 2(1) [OF True u]) (auto simp: link_last_def set_chain_def w1)
    then show ?thesis using True by (simp add: link_last_def set_chain_def w1 fun_eq_iff)
  next
    case False
    obtain w0 where w0: "w0 = (if type_of w d = TL_READ_NO_INSERT
        then set_read_no_write_count (uint_wrap (read_no_write_count (lock w) + 1)) w else w)" by blast
    obtain w1 where w1: "cond_signal (cond_of w d) (set_cond d 0 w0) = Some w1" "free_read_loop ds u w1 = Some w'"
      using 2(3) False by (auto simp: Let_def w0 split: bind_splits if_splits)
    have same: "chain (lock w1) = chain (lock w)" "type_of w1 x = type_of w x" for x
      using w1(1) by (auto simp: w0 cond_signal_def set_cond_def add_event_def set_read_no_write_count_def fun_eq_iff
          split: if_splits)
    have "chain (lock w') = (chain (lock w1))
        (Read := (xs @ [d]) @ filter (\<lambda>x. \<not> (type_of w1 x = TL_READ_NO_INSERT \<and> u)) ds,
         Read_Wait := chain_of Read_Wait w1 @ filter (\<lambda>x. type_of w1 x = TL_READ_NO_INSERT \<and> u) ds)"
      using 2(4,5) w1(1) by (intro 2(2) [OF False refl w0 _ w1(2)]) (auto simp: same)
    then show ?thesis using False by (auto simp: same fun_eq_iff)
  qed
qed

lemma free_all_read_locks_chains:
  assumes "free_all_read_locks u w = Some w'" "distinct (chain_of Read w @ chain_of Read_Wait w)"
  shows "chain (lock w') = (chain (lock w))
    (Read := chain_of Read w @ filter (\<lambda>d. \<not> (type_of w d = TL_READ_NO_INSERT \<and> u)) (chain_of Read_Wait w),
     Read_Wait := filter (\<lambda>d. type_of w d = TL_READ_NO_INSERT \<and> u) (chain_of Read_Wait w)) \<and>
   chain_of Read_Wait w \<noteq> []"
proof -
  let ?ds = "chain_of Read_Wait w"
  let ?w = "set_chain Read_Wait [] (set_chain Read (chain_of Read w @ ?ds) w)"
  obtain w1 where w1: "free_read_loop ?ds u ?w = Some w1" "chain (lock w') = chain (lock w1)" "?ds \<noteq> []"
    using assms(1) by (auto simp: free_all_read_locks_def Let_def set_write_lock_count_def split: bind_splits if_splits)
  show ?thesis
    using free_read_loop_chains [OF w1(1), of "chain_of Read w"] assms(2) w1(2,3)
    by (simp add: set_chain_def fun_eq_iff)
qed

section \<open>Refinement\<close>

text \<open>A sample state: two writers wait on the chains of a new lock.\<close>

definition sample_links :: links where
  "sample_links = append_ptr Write_Wait 2 (append_ptr Read_Wait 1 (init_links
     \<lparr>at = (\<lambda>_. 7), prev = (\<lambda>_. Next 9), last_link = (\<lambda>_. Next 9)\<rparr>))"

definition sample_chains :: "lock_list \<Rightarrow> ptr list" where
  "sample_chains = (\<lambda>_. [])(Read_Wait := [1], Write_Wait := [2])"

lemma sample_links_chains: "chains_at sample_links sample_chains"
proof -
  let ?s = "init_links \<lparr>at = (\<lambda>_. 7), prev = (\<lambda>_. Next 9), last_link = (\<lambda>_. Next 9)\<rparr>"
  have "chains_at (append_ptr Read_Wait 1 ?s) ((\<lambda>_. [])(Read_Wait := [] @ [1]))"
    by (rule append_ptr_chains [OF init_links_chains]) (simp_all add: in_chains_def)
  then have "chains_at (append_ptr Write_Wait 2 (append_ptr Read_Wait 1 ?s))
      (((\<lambda>_. [])(Read_Wait := [] @ [1]))(Write_Wait := ((\<lambda>_. [])(Read_Wait := [] @ [1])) Write_Wait @ [2]))"
    by (rule append_ptr_chains) (simp_all add: in_chains_def)
  then show ?thesis by (simp add: sample_links_def sample_chains_def)
qed

definition sample_chained :: lock_world where
  "sample_chained = \<lparr>lock = \<lparr>chain = sample_chains, write_lock_count = 0, read_no_write_count = 0, get_status = False,
     copy_status = False, update_status = False, restore_status = False, check_status = None\<rparr>,
     datas = (\<lambda>d. \<lparr>d_owner = d, d_cond = d, d_type = (if d = 1 then TL_READ else TL_WRITE), d_status_param = 0\<rparr>),
     thread_id = id, locks_immediate = 0, locks_waited = 0, max_write_lock_count = 100,
     thr_upgraded_concurrent_insert_lock = TL_WRITE, events = []\<rparr>"

text \<open>C17: the pointer stores with which the code links a lock instance at the end of a chain (after
  clearing its \<open>next\<close>), unlinks it through its back pointer, moves it to the end of another chain and
  puts it back in front of another chain do to the linked lists in memory what the operations of the
  lock model do to the lists: when the memory holds the chains of the lock before, it holds the chains
  after, in order, with all back pointers and the end pointers right.\<close>

theorem chain_pointers_refine_lists:
  assumes "chains_at s (chain (lock w))"
  shows "(\<not> in_chains (chain (lock w)) d \<and> d \<noteq> 0 \<longrightarrow>
      chains_at (append_ptr q d s) (chain (lock (link_last q d w)))) \<and>
    (unlink q d w = Some w' \<longrightarrow> chains_at (unlink_ptr q d s) (chain (lock w')) \<and>
      (q' \<noteq> q \<longrightarrow> chains_at (append_ptr q' d (unlink_ptr q d s)) (chain (lock (link_last q' d w'))) \<and>
        chains_at (link_first_ptr q' d (unlink_ptr q d s)) (chain (lock (link_first q' d w')))))"
  using ptrs.append_world [OF assms] ptrs.take_out_world [OF assms] ptrs.move_last_world [OF assms]
    ptrs.move_first_world [OF assms] by blast

theorem chain_pointers_refine_lists_witness:
  "chains_at (append_ptr Write 2 (unlink_ptr Write_Wait 2 sample_links))
     ((\<lambda>_. [])(Read_Wait := [1], Write := [2])) \<and>
   chains_at (append_ptr Read 3 sample_links) ((\<lambda>_. [])(Read_Wait := [1], Write_Wait := [2], Read := [3]))"
proof -
  let ?w = "set_chain Write_Wait [] sample_chained"
  have c: "chain (lock sample_chained) = sample_chains" by (simp add: sample_chained_def)
  have u: "unlink Write_Wait 2 sample_chained = Some ?w" by (simp add: unlink_def c sample_chains_def)
  have "chain (lock (link_last Write 2 ?w)) = (\<lambda>_. [])(Read_Wait := [1], Write := [2])"
    by (simp add: link_last_def set_chain_def c sample_chains_def fun_eq_iff)
  moreover have "chain (lock (link_last Read 3 sample_chained)) = (\<lambda>_. [])(Read_Wait := [1], Write_Wait := [2], Read := [3])"
    by (simp add: link_last_def set_chain_def c sample_chains_def fun_eq_iff)
  moreover have "\<not> in_chains (chain (lock sample_chained)) 3" by (simp add: c in_chains_def sample_chains_def)
  ultimately show ?thesis
    using chain_pointers_refine_lists [of sample_links sample_chained 2 Write_Wait ?w Write]
      chain_pointers_refine_lists [of sample_links sample_chained 3 Read] u sample_links_chains
    by (simp add: c)
qed

text \<open>C16: the release of all waiting readers on the linked lists ends and implements the release on
  lists. The code moves the whole wait chain with three stores and walks it while it puts the readers
  that must stay back on the wait chain, with the end of that chain unwritten until the walk is over;
  the walk still visits exactly the readers that waited, and the memory ends with the chains of the
  model.\<close>

theorem free_all_read_locks_ptr_refines:
  assumes "chains_at s (chain (lock w))" "free_all_read_locks using_concurrent_insert w = Some w'"
  shows "\<exists>s'. free_all_read_locks_ptr (\<lambda>d. type_of w d = TL_READ_NO_INSERT \<and> using_concurrent_insert) s = Some s' \<and>
    chains_at s' (chain (lock w'))"
proof -
  have "distinct (chain_of Read w @ chain_of Read_Wait w)"
    using assms(1) by (simp add: chains_at_def)
  from free_all_read_locks_chains [OF assms(2) this] show ?thesis
    using free_all_read_locks_ptr_chains [OF assms(1), of "\<lambda>d. type_of w d = TL_READ_NO_INSERT \<and> using_concurrent_insert"]
    by (simp only: simp_thms)
qed

theorem free_all_read_locks_ptr_refines_witness:
  "\<exists>s'. free_all_read_locks_ptr (\<lambda>d. type_of sample_chained d = TL_READ_NO_INSERT \<and> True) sample_links = Some s' \<and>
    chains_at s' ((\<lambda>_. [])(Read := [1], Write_Wait := [2]))"
proof -
  have c: "chain (lock sample_chained) = sample_chains" by (simp add: sample_chained_def)
  obtain w' where w': "free_all_read_locks True sample_chained = Some w'"
    "chain (lock w') = (\<lambda>_. [])(Read := [1], Write_Wait := [2])"
    by (simp add: free_all_read_locks_def sample_chained_def sample_chains_def set_chain_def cond_signal_def set_cond_def
        add_event_def set_write_lock_count_def Let_def fun_eq_iff)
  show ?thesis using free_all_read_locks_ptr_refines [OF _ w'(1), of sample_links] sample_links_chains
    by (simp add: c w'(2))
qed

end
