(* ===== verification/My_Bit.thy ===== *)
theory My_Bit
  imports Byte_Order
begin

text \<open>
  The bit functions of \<^verbatim>\<open>include/my_bit.h\<close> with their tables in \<^verbatim>\<open>mysys/my_bit.c\<close>: the number of bits
  that are set, by a table of the bytes; rounding up to a power of two and clearing the highest bit,
  by smearing the highest bit over the lower ones; reversing the bits, by a table of the bytes; and the
  logarithm. The table index is always a byte and the tables have 256 entries.
\<close>

section \<open>Tables\<close>

definition my_bits_nbits :: "nat list" where
  "my_bits_nbits =
  [0, 1, 1, 2, 1, 2, 2, 3, 1, 2, 2, 3, 2, 3, 3, 4, 1, 2, 2, 3, 2, 3, 3, 4, 2, 3, 3, 4, 3, 4, 4, 5,
   1, 2, 2, 3, 2, 3, 3, 4, 2, 3, 3, 4, 3, 4, 4, 5, 2, 3, 3, 4, 3, 4, 4, 5, 3, 4, 4, 5, 4, 5, 5, 6,
   1, 2, 2, 3, 2, 3, 3, 4, 2, 3, 3, 4, 3, 4, 4, 5, 2, 3, 3, 4, 3, 4, 4, 5, 3, 4, 4, 5, 4, 5, 5, 6,
   2, 3, 3, 4, 3, 4, 4, 5, 3, 4, 4, 5, 4, 5, 5, 6, 3, 4, 4, 5, 4, 5, 5, 6, 4, 5, 5, 6, 5, 6, 6, 7,
   1, 2, 2, 3, 2, 3, 3, 4, 2, 3, 3, 4, 3, 4, 4, 5, 2, 3, 3, 4, 3, 4, 4, 5, 3, 4, 4, 5, 4, 5, 5, 6,
   2, 3, 3, 4, 3, 4, 4, 5, 3, 4, 4, 5, 4, 5, 5, 6, 3, 4, 4, 5, 4, 5, 5, 6, 4, 5, 5, 6, 5, 6, 6, 7,
   2, 3, 3, 4, 3, 4, 4, 5, 3, 4, 4, 5, 4, 5, 5, 6, 3, 4, 4, 5, 4, 5, 5, 6, 4, 5, 5, 6, 5, 6, 6, 7,
   3, 4, 4, 5, 4, 5, 5, 6, 4, 5, 5, 6, 5, 6, 6, 7, 4, 5, 5, 6, 5, 6, 6, 7, 5, 6, 6, 7, 6, 7, 7, 8]"

definition my_bits_reverse_table :: "u8 list" where
  "my_bits_reverse_table =
  [0x00, 0x80, 0x40, 0xC0, 0x20, 0xA0, 0x60, 0xE0, 0x10, 0x90, 0x50, 0xD0, 0x30, 0xB0, 0x70, 0xF0,
   0x08, 0x88, 0x48, 0xC8, 0x28, 0xA8, 0x68, 0xE8, 0x18, 0x98, 0x58, 0xD8, 0x38, 0xB8, 0x78, 0xF8,
   0x04, 0x84, 0x44, 0xC4, 0x24, 0xA4, 0x64, 0xE4, 0x14, 0x94, 0x54, 0xD4, 0x34, 0xB4, 0x74, 0xF4,
   0x0C, 0x8C, 0x4C, 0xCC, 0x2C, 0xAC, 0x6C, 0xEC, 0x1C, 0x9C, 0x5C, 0xDC, 0x3C, 0xBC, 0x7C, 0xFC,
   0x02, 0x82, 0x42, 0xC2, 0x22, 0xA2, 0x62, 0xE2, 0x12, 0x92, 0x52, 0xD2, 0x32, 0xB2, 0x72, 0xF2,
   0x0A, 0x8A, 0x4A, 0xCA, 0x2A, 0xAA, 0x6A, 0xEA, 0x1A, 0x9A, 0x5A, 0xDA, 0x3A, 0xBA, 0x7A, 0xFA,
   0x06, 0x86, 0x46, 0xC6, 0x26, 0xA6, 0x66, 0xE6, 0x16, 0x96, 0x56, 0xD6, 0x36, 0xB6, 0x76, 0xF6,
   0x0E, 0x8E, 0x4E, 0xCE, 0x2E, 0xAE, 0x6E, 0xEE, 0x1E, 0x9E, 0x5E, 0xDE, 0x3E, 0xBE, 0x7E, 0xFE,
   0x01, 0x81, 0x41, 0xC1, 0x21, 0xA1, 0x61, 0xE1, 0x11, 0x91, 0x51, 0xD1, 0x31, 0xB1, 0x71, 0xF1,
   0x09, 0x89, 0x49, 0xC9, 0x29, 0xA9, 0x69, 0xE9, 0x19, 0x99, 0x59, 0xD9, 0x39, 0xB9, 0x79, 0xF9,
   0x05, 0x85, 0x45, 0xC5, 0x25, 0xA5, 0x65, 0xE5, 0x15, 0x95, 0x55, 0xD5, 0x35, 0xB5, 0x75, 0xF5,
   0x0D, 0x8D, 0x4D, 0xCD, 0x2D, 0xAD, 0x6D, 0xED, 0x1D, 0x9D, 0x5D, 0xDD, 0x3D, 0xBD, 0x7D, 0xFD,
   0x03, 0x83, 0x43, 0xC3, 0x23, 0xA3, 0x63, 0xE3, 0x13, 0x93, 0x53, 0xD3, 0x33, 0xB3, 0x73, 0xF3,
   0x0B, 0x8B, 0x4B, 0xCB, 0x2B, 0xAB, 0x6B, 0xEB, 0x1B, 0x9B, 0x5B, 0xDB, 0x3B, 0xBB, 0x7B, 0xFB,
   0x07, 0x87, 0x47, 0xC7, 0x27, 0xA7, 0x67, 0xE7, 0x17, 0x97, 0x57, 0xD7, 0x37, 0xB7, 0x77, 0xF7,
   0x0F, 0x8F, 0x4F, 0xCF, 0x2F, 0xAF, 0x6F, 0xEF, 0x1F, 0x9F, 0x5F, 0xDF, 0x3F, 0xBF, 0x7F, 0xFF]"

section \<open>Functions\<close>

function my_bit_log2_loop :: "u64 \<Rightarrow> nat \<Rightarrow> nat" where
  "my_bit_log2_loop value b =
     (if value > 1 then my_bit_log2_loop (drop_bit 1 value) (uint_wrap (b + 1)) else b)"
  by auto
termination
proof (relation "measure (\<lambda>(v, _). unat v)")
  fix v :: u64 and b :: nat
  assume "v > 1"
  then have "unat v > 1" by (simp add: word_less_nat_alt)
  then show "((drop_bit 1 v, uint_wrap (b + 1)), v, b) \<in> measure (\<lambda>(v, _). unat v)"
    by (simp add: drop_bit_eq_div unat_div)
qed simp

declare my_bit_log2_loop.simps [simp del]

definition my_bit_log2 :: "u64 \<Rightarrow> nat" where
  "my_bit_log2 value = my_bit_log2_loop value 0"

definition nbits_of :: "u8 \<Rightarrow> nat" where
  "nbits_of b = my_bits_nbits ! unat b"

definition my_count_bits :: "u64 \<Rightarrow> nat" where
  "my_count_bits v =
     (let v2 = drop_bit 32 v in
      (nbits_of (ucast v) + nbits_of (ucast (drop_bit 8 v)) + nbits_of (ucast (drop_bit 16 v)) +
       nbits_of (ucast (drop_bit 24 v)) + nbits_of (ucast v2) + nbits_of (ucast (drop_bit 8 v2)) +
       nbits_of (ucast (drop_bit 16 v2)) + nbits_of (ucast (drop_bit 24 v2))) mod 256)"

definition my_count_bits_uint32 :: "u32 \<Rightarrow> nat" where
  "my_count_bits_uint32 v =
     (nbits_of (ucast v) + nbits_of (ucast (drop_bit 8 v)) + nbits_of (ucast (drop_bit 16 v)) +
      nbits_of (ucast (drop_bit 24 v))) mod 256"

definition my_round_up_to_next_power :: "u32 \<Rightarrow> u32" where
  "my_round_up_to_next_power v =
     (let v = v - 1;
          v = v OR drop_bit 1 v;
          v = v OR drop_bit 2 v;
          v = v OR drop_bit 4 v;
          v = v OR drop_bit 8 v;
          v = v OR drop_bit 16 v
      in v + 1)"

definition my_clear_highest_bit :: "u32 \<Rightarrow> u32" where
  "my_clear_highest_bit v =
     (let w = drop_bit 1 v;
          w = w OR drop_bit 1 w;
          w = w OR drop_bit 2 w;
          w = w OR drop_bit 4 w;
          w = w OR drop_bit 8 w;
          w = w OR drop_bit 16 w
      in v AND w)"

definition my_reverse_bits :: "u32 \<Rightarrow> u32" where
  "my_reverse_bits key =
     push_bit 24 (ucast (my_bits_reverse_table ! unat (key AND 255))) OR
     push_bit 16 (ucast (my_bits_reverse_table ! unat (drop_bit 8 key AND 255))) OR
     push_bit 8 (ucast (my_bits_reverse_table ! unat (drop_bit 16 key AND 255))) OR
     ucast (my_bits_reverse_table ! unat (drop_bit 24 key))"


section \<open>Counting\<close>

text \<open>The table of the numbers of bits, built up by the number of bits of the index.\<close>

primrec count_table :: "nat \<Rightarrow> nat list" where
  "count_table 0 = [0]"
| "count_table (Suc k) = count_table k @ map Suc (count_table k)"

lemma length_count_table [simp]: "length (count_table k) = 2 ^ k"
  by (induction k) simp_all

lemma my_bits_nbits_eq: "my_bits_nbits = count_table 8"
  by (simp add: my_bits_nbits_def eval_nat_numeral(2,3))

lemma no_bit_above: "n < 2 ^ k \<Longrightarrow> \<not> bit (n :: nat) k"
  by (simp add: bit_iff_odd)

lemma bit_top_split:
  fixes n :: nat
  assumes "n < 2 ^ Suc k" "\<not> n < 2 ^ k"
  shows "bit n k" "i < k \<Longrightarrow> bit n i = bit (n - 2 ^ k) i"
proof -
  have n: "n = (n - 2 ^ k) OR 2 ^ k"
  proof -
    have "n - 2 ^ k < 2 ^ k" using assms by simp
    then have "(n - 2 ^ k) AND 2 ^ k = 0"
      using no_bit_above by (auto intro!: bit_eqI simp: bit_and_iff bit_exp_iff)
    then have "(n - 2 ^ k) OR 2 ^ k = (n - 2 ^ k) + 2 ^ k" by (simp add: disjunctive_add_eq_or)
    then show ?thesis using assms(2) by simp
  qed
  show "bit n k" by (subst n) (simp add: bit_or_iff bit_exp_iff)
  show "bit n i = bit (n - 2 ^ k) i" if "i < k" using that by (subst n) (simp add: bit_or_iff bit_exp_iff)
qed

lemma count_table_nth: "n < 2 ^ k \<Longrightarrow> count_table k ! n = (\<Sum>i<k. of_bool (bit n i))"
proof (induction k arbitrary: n)
  case (Suc k)
  show ?case
  proof (cases "n < 2 ^ k")
    case True
    then have "\<not> bit n k" by (rule no_bit_above)
    then show ?thesis using True Suc.IH [of n] by (simp add: nth_append)
  next
    case False
    then have "n - 2 ^ k < 2 ^ k" using Suc.prems by simp
    then show ?thesis using False Suc.IH [of "n - 2 ^ k"] bit_top_split [OF Suc.prems False]
      by (simp add: nth_append)
  qed
qed simp

definition bit_count :: "'a::len word \<Rightarrow> nat" where
  "bit_count v = card {i. bit v i}"

lemma bit_count_sum: "bit_count (v :: 'a::len word) = (\<Sum>i<LENGTH('a). of_bool (bit v i))"
proof -
  have "{i. bit v i} = {i \<in> {..<LENGTH('a)}. bit v i}" by (auto dest: bit_imp_le_length)
  then show ?thesis by (simp add: bit_count_def of_bool_def sum.If_cases Int_def)
qed

lemma nbits_of_eq: "nbits_of b = (\<Sum>i<8. of_bool (bit b i))"
proof -
  have "unat b < 2 ^ 8" using unat_byte_less [of b] by simp
  then show ?thesis by (simp add: nbits_of_def my_bits_nbits_eq count_table_nth bit_unsigned_iff)
qed

text \<open>The bits of the byte at position \<open>8 * j\<close> of a word.\<close>

lemma nbits_of_byte:
  fixes v :: "'a::len word"
  assumes "8 * j + 8 \<le> LENGTH('a)"
  shows "nbits_of (ucast (drop_bit (8 * j) v)) = (\<Sum>i\<in>{8 * j..<8 * j + 8}. of_bool (bit v i))"
proof -
  have "nbits_of (ucast (drop_bit (8 * j) v)) = (\<Sum>i<8. of_bool (bit v (8 * j + i)))"
    using assms by (intro trans [OF nbits_of_eq] sum.cong) (auto simp: bit_unsigned_iff bit_drop_bit_eq)
  also have "\<dots> = (\<Sum>i\<in>{8 * j..<8 * j + 8}. of_bool (bit v i))"
    using sum.shift_bounds_nat_ivl [of "\<lambda>i. of_bool (bit v i) :: nat" 0 "8 * j" 8]
    by (simp add: atLeast0LessThan add.commute del: sum_of_bool_eq)
  finally show ?thesis .
qed

lemma bit_count_le: "bit_count (v :: 'a::len word) \<le> LENGTH('a)"
  using sum_bounded_above [of "{..<LENGTH('a)}" "\<lambda>i. of_bool (bit v i) :: nat" "1 :: nat"]
  by (simp add: bit_count_sum)

lemma sum_below_8: "(\<Sum>j<8. f j) = f 0 + f 1 + f 2 + f 3 + f 4 + f 5 + f 6 + (f 7 :: nat)" for f :: "nat \<Rightarrow> nat"
  by (simp add: lessThan_Suc eval_nat_numeral(2,3))

lemma sum_below_4: "(\<Sum>j<4. f j) = f 0 + f 1 + f 2 + (f 3 :: nat)" for f :: "nat \<Rightarrow> nat"
  by (simp add: lessThan_Suc eval_nat_numeral(2,3))

lemma my_count_bits_uint32_eq: "my_count_bits_uint32 v = bit_count v"
proof -
  have "bit_count v = (\<Sum>j<4. \<Sum>i\<in>{8 * j..<8 * j + 8}. of_bool (bit v i))"
    using sum.nat_group [of "\<lambda>i. of_bool (bit v i) :: nat" 8 4] by (simp add: bit_count_sum mult.commute)
  also have "\<dots> = (\<Sum>j<4. nbits_of (ucast (drop_bit (8 * j) v)))"
    by (intro sum.cong refl nbits_of_byte [symmetric]) auto
  also have "\<dots> = nbits_of (ucast v) + nbits_of (ucast (drop_bit 8 v)) + nbits_of (ucast (drop_bit 16 v)) +
      nbits_of (ucast (drop_bit 24 v))"
    by (simp add: sum_below_4)
  finally show ?thesis using bit_count_le [of v] by (simp add: my_count_bits_uint32_def)
qed

lemma my_count_bits_eq: "my_count_bits v = bit_count v"
proof -
  have "bit_count v = (\<Sum>j<8. \<Sum>i\<in>{8 * j..<8 * j + 8}. of_bool (bit v i))"
    using sum.nat_group [of "\<lambda>i. of_bool (bit v i) :: nat" 8 8] by (simp add: bit_count_sum mult.commute)
  also have "\<dots> = (\<Sum>j<8. nbits_of (ucast (drop_bit (8 * j) v)))"
    by (intro sum.cong refl nbits_of_byte [symmetric]) auto
  finally have sum: "bit_count v = (\<Sum>j<8. nbits_of (ucast (drop_bit (8 * j) v)))" .
  have "my_count_bits v = (\<Sum>j<8. nbits_of (ucast (drop_bit (8 * j) v))) mod 256"
    unfolding sum_below_8 my_count_bits_def Let_def drop_bit_drop_bit
    by (rule arg_cong [of _ _ "\<lambda>n. n mod 256"]) simp
  moreover have "bit_count v < 256" using bit_count_le [of v] by simp
  ultimately show ?thesis by (simp only: sum [symmetric] mod_less)
qed

section \<open>Smearing the highest bit\<close>

lemma bit_smear:
  fixes v w :: u32
  assumes "\<And>i. bit w i \<longleftrightarrow> (\<exists>j<n. bit v (i + j))" and m: "m = n + n"
  shows "bit (w OR drop_bit n w) i \<longleftrightarrow> (\<exists>j<m. bit v (i + j))"
proof -
  have "bit (w OR drop_bit n w) i \<longleftrightarrow> (\<exists>j<n. bit v (i + j)) \<or> (\<exists>j<n. bit v (i + (n + j)))"
    by (simp add: bit_or_iff bit_drop_bit_eq assms(1) ac_simps)
  also have "\<dots> \<longleftrightarrow> (\<exists>j<n + n. bit v (i + j))"
  proof
    assume "(\<exists>j<n. bit v (i + j)) \<or> (\<exists>j<n. bit v (i + (n + j)))"
    then show "\<exists>j<n + n. bit v (i + j)" by (metis add_less_cancel_left trans_less_add1)
  next
    assume "\<exists>j<n + n. bit v (i + j)"
    then obtain j where j: "j < n + n" "bit v (i + j)" by blast
    show "(\<exists>j<n. bit v (i + j)) \<or> (\<exists>j<n. bit v (i + (n + j)))"
    proof (cases "j < n")
      case False
      then show ?thesis using j by (intro disjI2 exI [of _ "j - n"]) simp
    qed (use j in blast)
  qed
  finally show ?thesis by (simp only: m)
qed

definition smear :: "u32 \<Rightarrow> u32" where
  "smear v =
     (let v = v OR drop_bit 1 v; v = v OR drop_bit 2 v; v = v OR drop_bit 4 v; v = v OR drop_bit 8 v
      in v OR drop_bit 16 v)"

lemma bit_smear_iff: "bit (smear v) i \<longleftrightarrow> (\<exists>j\<ge>i. bit v j)"
proof -
  have 1: "bit v i \<longleftrightarrow> (\<exists>j<1. bit v (i + j))" for i by simp
  note 2 = bit_smear [OF 1, of 2, OF one_add_one [symmetric]]
  have "2 + 2 = (4 :: nat)" "4 + 4 = (8 :: nat)" "8 + 8 = (16 :: nat)" "16 + 16 = (32 :: nat)" by simp_all
  note dbl = this [symmetric]
  note 32 = bit_smear [OF bit_smear [OF bit_smear [OF bit_smear [OF 2 dbl(1)] dbl(2)] dbl(3)] dbl(4)]
  have "bit (smear v) i \<longleftrightarrow> (\<exists>j<32. bit v (i + j))" unfolding smear_def Let_def by (rule 32)
  also have "\<dots> \<longleftrightarrow> (\<exists>j\<ge>i. bit v j)"
  proof
    assume "\<exists>j\<ge>i. bit v j"
    then obtain j where "j \<ge> i" "bit v j" by blast
    moreover from this have "j < 32" using bit_imp_le_length [of v j] by simp
    ultimately show "\<exists>j<32. bit v (i + j)" by (intro exI [of _ "j - i"]) auto
  qed (use le_add1 in blast)
  finally show ?thesis .
qed

text \<open>A smeared word is a mask.\<close>

lemma smear_mask:
  assumes "v \<noteq> 0"
  obtains h where "h < 32" "bit v h" "\<And>j. bit v j \<Longrightarrow> j \<le> h" "smear v = mask (Suc h)" "2 ^ h \<le> unat v" "unat v < 2 ^ Suc h"
proof -
  let ?S = "{j. bit v j}"
  have fin: "finite ?S" by (rule finite_subset [of _ "{..<32}"]) (auto dest: bit_imp_le_length)
  have ne: "?S \<noteq> {}" using assms by (auto simp: bit_eq_iff)
  define h where "h = Max ?S"
  have h: "bit v h" "\<And>j. bit v j \<Longrightarrow> j \<le> h" using Max_in [OF fin ne] Max_ge [OF fin] by (auto simp: h_def)
  have len: "h < 32" using bit_imp_le_length [OF h(1)] by simp
  have "smear v = mask (Suc h)"
    using h len by (intro bit_eqI) (auto simp: bit_smear_iff bit_mask_iff less_Suc_eq_le dest: order_trans)
  moreover have "take_bit (Suc h) (unat v) = unat v"
    using h(2) by (auto intro!: bit_eqI simp: bit_take_bit_iff bit_unsigned_iff less_Suc_eq_le)
  then have "unat v < 2 ^ Suc h" by (simp add: take_bit_nat_eq_self_iff)
  moreover have "2 ^ h \<le> unat v"
  proof (rule ccontr)
    assume "\<not> 2 ^ h \<le> unat v"
    then show False using no_bit_above [of "unat v" h] h(1) by (simp add: bit_unsigned_iff)
  qed
  ultimately show ?thesis by (intro that [OF len h(1) h(2)])
qed

lemma my_round_up_to_next_power_eq:
  "unat (my_round_up_to_next_power v) =
     (if v = 0 \<or> unat v > 2 ^ 31 then 0 else 2 ^ (LEAST k. unat v \<le> 2 ^ k))"
proof -
  have eq: "my_round_up_to_next_power v = smear (v - 1) + 1"
    by (simp only: my_round_up_to_next_power_def smear_def Let_def)
  consider "v = 0" | "v = 1" | "v \<noteq> 0" "v - 1 \<noteq> 0" by auto
  then show ?thesis
  proof cases
    case 1
    have "smear (- 1) = - 1" by (auto intro!: bit_eqI simp: bit_smear_iff bit_minus_1_iff)
    then show ?thesis unfolding eq by (simp add: 1)
  next
    case 2
    have "smear 0 = 0" by (auto intro!: bit_eqI simp: bit_smear_iff)
    moreover have "(LEAST k. unat (1 :: u32) \<le> 2 ^ k) = 0" by (rule Least_equality) auto
    ultimately show ?thesis unfolding eq by (simp add: 2)
  next
    case 3
    obtain h where h: "h < 32" "smear (v - 1) = mask (Suc h)" "2 ^ h \<le> unat (v - 1)" "unat (v - 1) < 2 ^ Suc h"
      using smear_mask [OF 3(2)] by metis
    have "unat v \<noteq> 0" using 3(1) by (simp add: unat_eq_0)
    then have v: "2 ^ h < unat v" "unat v \<le> 2 ^ Suc h" using h(3,4) unat_minus_one [OF 3(1)] by linarith+
    have "(LEAST k. unat v \<le> 2 ^ k) = Suc h"
    proof (rule Least_equality)
      fix k assume "unat v \<le> 2 ^ k"
      then have "(2 :: nat) ^ h < 2 ^ k" using v(1) by linarith
      then show "Suc h \<le> k" by (simp add: Suc_le_eq)
    qed (use v in simp)
    moreover have "my_round_up_to_next_power v = 2 ^ Suc h" by (simp add: eq h(2) mask_eq_exp_minus_1)
    moreover have "unat (2 ^ Suc h :: u32) = (if h = 31 then 0 else 2 ^ Suc h)"
    proof (cases "h = 31")
      case False
      then have "(2 :: nat) ^ Suc h < 2 ^ 32" using h(1) by (intro power_strict_increasing) auto
      then have "unat (word_of_nat (2 ^ Suc h) :: u32) = 2 ^ Suc h"
        by (subst unat_of_nat) (simp del: power_Suc)
      then show ?thesis using False by (simp only: of_nat_power of_nat_numeral if_False)
    qed simp
    moreover have "h = 31 \<longleftrightarrow> unat v > 2 ^ 31"
    proof
      assume "unat v > 2 ^ 31"
      then have "(2 :: nat) ^ 31 < 2 ^ Suc h" using v(2) by linarith
      then have "31 < Suc h" by (simp only: power_strict_increasing_iff)
      then show "h = 31" using h(1) by simp
    qed (use v in simp)
    ultimately show ?thesis using 3(1) by auto
  qed
qed

lemma my_clear_highest_bit_eq:
  "bit (my_clear_highest_bit v) i \<longleftrightarrow> bit v i \<and> (\<exists>j>i. bit v j)"
proof -
  have "my_clear_highest_bit v = v AND smear (drop_bit 1 v)"
    by (simp only: my_clear_highest_bit_def smear_def Let_def)
  moreover have "(\<exists>j\<ge>i. bit v (1 + j)) \<longleftrightarrow> (\<exists>j>i. bit v j)"
  proof
    assume "\<exists>j>i. bit v j"
    then obtain j where "j > i" "bit v j" by blast
    then show "\<exists>j\<ge>i. bit v (1 + j)" by (intro exI [of _ "j - 1"]) auto
  next
    assume "\<exists>j\<ge>i. bit v (1 + j)"
    then obtain j where "j \<ge> i" "bit v (1 + j)" by blast
    then show "\<exists>j>i. bit v j" by (intro exI [of _ "1 + j"]) auto
  qed
  ultimately show ?thesis by (simp add: bit_and_iff bit_smear_iff bit_drop_bit_eq)
qed

section \<open>Reversing\<close>

primrec reverse_table :: "nat \<Rightarrow> nat list" where
  "reverse_table 0 = [0]"
| "reverse_table (Suc k) = map (\<lambda>r. 2 * r) (reverse_table k) @ map (\<lambda>r. 2 * r + 1) (reverse_table k)"

lemma length_reverse_table [simp]: "length (reverse_table k) = 2 ^ k"
  by (induction k) simp_all

lemma my_bits_reverse_table_eq: "my_bits_reverse_table = map word_of_nat (reverse_table 8)"
  by (simp add: my_bits_reverse_table_def eval_nat_numeral(2,3))

lemma reverse_table_nth:
  "n < 2 ^ k \<Longrightarrow> i < k \<Longrightarrow> bit (reverse_table k ! n) i \<longleftrightarrow> bit n (k - 1 - i)"
proof (induction k arbitrary: n i)
  case (Suc k)
  show ?case
  proof (cases "n < 2 ^ k")
    case True
    then have "reverse_table (Suc k) ! n = 2 * reverse_table k ! n" by (simp add: nth_append)
    then show ?thesis using Suc.IH [OF True, of "i - 1"] Suc.prems(2) no_bit_above [OF True]
      by (cases i) (simp_all add: bit_Suc bit_0)
  next
    case False
    then have n: "n - 2 ^ k < 2 ^ k" using Suc.prems by simp
    then have "reverse_table (Suc k) ! n = 2 * reverse_table k ! (n - 2 ^ k) + 1" using False by (simp add: nth_append)
    then show ?thesis
      using Suc.IH [OF n, of "i - 1"] Suc.prems(2) bit_top_split(1) [OF Suc.prems(1) False]
        bit_top_split(2) [OF Suc.prems(1) False, of "k - i"]
      by (cases i) (simp_all add: bit_Suc bit_0)
  qed
qed simp

lemma bit_reverse_byte:
  assumes "n < 256" "i < 8"
  shows "bit (my_bits_reverse_table ! n) i \<longleftrightarrow> bit n (7 - i)"
  using assms reverse_table_nth [of n 8 i] by (simp add: my_bits_reverse_table_eq bit_of_nat_iff)

lemma bit_reverse_lookup:
  fixes v :: u32
  shows "bit (my_bits_reverse_table ! unat (drop_bit s v AND 255)) i \<longleftrightarrow> i < 8 \<and> bit v (s + 7 - i)"
proof (cases "i < 8")
  case True
  have m: "(255 :: u32) = mask 8" by (simp add: mask_eq_exp_minus_1)
  have "unat (drop_bit s v AND 255) < 256"
    using take_bit_nat_less_exp [of 8 "unat (drop_bit s v)"]
    by (simp add: m take_bit_eq_mask [symmetric] unsigned_take_bit_eq)
  then have "bit (my_bits_reverse_table ! unat (drop_bit s v AND 255)) i \<longleftrightarrow> bit (drop_bit s v AND 255) (7 - i)"
    using True by (simp add: bit_reverse_byte bit_unsigned_iff)
  moreover have "7 - i < 8" "7 - i < 32" by simp_all
  ultimately show ?thesis using True by (simp add: m bit_and_iff bit_mask_iff bit_drop_bit_eq)
next
  case False
  then show ?thesis using bit_imp_le_length [of "my_bits_reverse_table ! unat (drop_bit s v AND 255)" i] by auto
qed

lemma my_reverse_bits_eq:
  assumes "i < 32"
  shows "bit (my_reverse_bits v) i \<longleftrightarrow> bit v (31 - i)"
proof -
  have e: "drop_bit 24 v AND 255 = drop_bit 24 v"
  proof (rule bit_eqI)
    have m: "(255 :: u32) = mask 8" by (simp add: mask_eq_exp_minus_1)
    show "bit (drop_bit 24 v AND 255) n = bit (drop_bit 24 v) n" for n
      using bit_imp_le_length [of v "24 + n"] by (auto simp: m bit_and_iff bit_drop_bit_eq bit_mask_iff)
  qed
  define r where r: "r = (\<lambda>s. my_bits_reverse_table ! unat (drop_bit s v AND 255))"
  have "my_reverse_bits v = push_bit 24 (ucast (r 0)) OR push_bit 16 (ucast (r 8)) OR push_bit 8 (ucast (r 16)) OR ucast (r 24)"
    by (simp only: my_reverse_bits_def r e drop_bit_0 id_apply)
  then have bits: "bit (my_reverse_bits v) i \<longleftrightarrow>
      24 \<le> i \<and> bit (r 0) (i - 24) \<or> 16 \<le> i \<and> bit (r 8) (i - 16) \<or> 8 \<le> i \<and> bit (r 16) (i - 8) \<or> bit (r 24) i"
    using assms by (simp add: bit_or_iff bit_push_bit_iff bit_unsigned_iff less_imp_diff_less)
  have lookup: "bit (r s) i \<longleftrightarrow> i < 8 \<and> bit v (s + 7 - i)" for s i by (simp only: r bit_reverse_lookup)
  consider "i < 8" | "8 \<le> i" "i < 16" | "16 \<le> i" "i < 24" | "24 \<le> i" by linarith
  then show ?thesis using assms unfolding bits lookup by cases (simp_all add: less_diff_conv2)
qed

section \<open>Logarithm\<close>

lemma my_bit_log2_loop_eq:
  "2 ^ k \<le> unat v \<Longrightarrow> unat v < 2 ^ Suc k \<Longrightarrow> b + k < 2 ^ 32 \<Longrightarrow> my_bit_log2_loop v b = b + k"
proof (induction k arbitrary: v b)
  case 0
  then have "unat v = 1" by simp
  then show ?case by (simp add: my_bit_log2_loop.simps [of v] word_less_nat_alt)
next
  case (Suc k)
  have u: "unat (drop_bit 1 v) = unat v div 2" by (simp add: drop_bit_eq_div unat_div)
  have "(2 :: nat) * 1 \<le> 2 * 2 ^ k" by (rule mult_le_mono2) simp
  then have "unat v > 1" using Suc.prems(1) by (simp only: power_Suc)
  then have g: "v > 1" by (simp add: word_less_nat_alt)
  have "my_bit_log2_loop v b = my_bit_log2_loop (drop_bit 1 v) (b + 1)"
    using g Suc.prems(3) by (subst my_bit_log2_loop.simps) (simp add: uint_wrap_def)
  also have "\<dots> = b + 1 + k"
  proof (rule Suc.IH)
    show "2 ^ k \<le> unat (drop_bit 1 v)" "unat (drop_bit 1 v) < 2 ^ Suc k" using Suc.prems(1,2) unfolding u by simp_all
  qed (use Suc.prems(3) in simp)
  finally show ?case by simp
qed

lemma my_bit_log2_eq: "my_bit_log2 u = (if u = 0 then 0 else Max {k. 2 ^ k \<le> unat u})"
proof (cases "u = 0")
  case True
  then show ?thesis by (simp add: my_bit_log2_def my_bit_log2_loop.simps [of 0])
next
  case False
  have sub: "{k. 2 ^ k \<le> unat u} \<subseteq> {..<64}"
  proof
    fix k assume "k \<in> {k. 2 ^ k \<le> unat u}"
    moreover have "unat u < 2 ^ LENGTH(64)" by (rule unsigned_less)
    ultimately have "(2 :: nat) ^ k < 2 ^ 64" by simp
    then show "k \<in> {..<64}" by (simp only: power_strict_increasing_iff lessThan_iff)
  qed
  then have fin: "finite {k. 2 ^ k \<le> unat u}" by (rule finite_subset) simp
  have "unat u \<noteq> 0" using False by (simp add: unat_eq_0)
  then have "0 \<in> {k. 2 ^ k \<le> unat u}" by simp
  then have "{k. 2 ^ k \<le> unat u} \<noteq> {}" by blast
  then have mx: "Max {k. 2 ^ k \<le> unat u} \<in> {k. 2 ^ k \<le> unat u}" using fin by (intro Max_in)
  moreover have "\<not> 2 ^ Suc (Max {k. 2 ^ k \<le> unat u}) \<le> unat u"
    using Max_ge [OF fin, of "Suc (Max {k. 2 ^ k \<le> unat u})"] by (meson mem_Collect_eq not_less_eq_eq order_refl)
  ultimately have "my_bit_log2_loop u 0 = 0 + Max {k. 2 ^ k \<le> unat u}"
    using sub by (intro my_bit_log2_loop_eq) (auto simp del: power_Suc dest!: subsetD)
  then show ?thesis using False by (simp add: my_bit_log2_def)
qed

lemma my_clear_highest_bit_set: "{i. bit (my_clear_highest_bit v) i} = {i. bit v i} - {Max {i. bit v i}}"
proof -
  have fin: "finite {i. bit v i}" by (rule finite_subset [of _ "{..<32}"]) (auto dest: bit_imp_le_length)
  have "bit v i \<Longrightarrow> (\<exists>j>i. bit v j) \<longleftrightarrow> i \<noteq> Max {i. bit v i}" for i
  proof -
    assume i: "bit v i"
    have le: "j \<le> Max {i. bit v i}" if "bit v j" for j using fin that by simp
    have "bit v (Max {i. bit v i})" using Max_in [OF fin] i by blast
    then show ?thesis using le [OF i] by (metis le le_neq_implies_less linorder_not_less)
  qed
  then show ?thesis by (auto simp: my_clear_highest_bit_eq)
qed

lemma my_reverse_bits_set: "{i. bit (my_reverse_bits v) i} = (\<lambda>i. 31 - i) ` {i. bit v i}"
proof (intro equalityI subsetI)
  fix i assume i: "i \<in> {i. bit (my_reverse_bits v) i}"
  then have "i < 32" using bit_imp_le_length [of "my_reverse_bits v" i] by simp
  then show "i \<in> (\<lambda>i. 31 - i) ` {i. bit v i}" using i my_reverse_bits_eq [of i v] by (intro image_eqI [of _ _ "31 - i"]) auto
next
  fix i assume "i \<in> (\<lambda>i. 31 - i) ` {i. bit v i}"
  then obtain j where j: "i = 31 - j" "bit v j" by auto
  then have "j < 32" using bit_imp_le_length [of v j] by simp
  then show "i \<in> {i. bit (my_reverse_bits v) i}" using j my_reverse_bits_eq [of i v] by auto
qed

section \<open>Property\<close>

text \<open>C40: the bit functions compute what their names say, for every argument: \<open>my_count_bits\<close> and
  \<open>my_count_bits_uint32\<close> the number of bits that are set, \<open>my_round_up_to_next_power\<close> the least power of two
  that is not below its argument (0 for 0, and also 0 when that power is \<open>2 ^ 32\<close>), \<open>my_clear_highest_bit\<close>
  its argument without the highest bit that is set, \<open>my_reverse_bits\<close> the 32 bits in reverse order, and
  \<open>my_bit_log2\<close> the logarithm rounded down.\<close>

theorem bit_functions_exact:
  "my_count_bits u = card {i. bit u i} \<and> my_count_bits_uint32 v = card {i. bit v i} \<and>
   unat (my_round_up_to_next_power v) =
     (if v = 0 \<or> unat v > 2 ^ 31 then 0 else 2 ^ (LEAST k. unat v \<le> 2 ^ k)) \<and>
   {i. bit (my_clear_highest_bit v) i} = {i. bit v i} - {Max {i. bit v i}} \<and>
   {i. bit (my_reverse_bits v) i} = (\<lambda>i. 31 - i) ` {i. bit v i} \<and>
   my_bit_log2 u = (if u = 0 then 0 else Max {k. 2 ^ k \<le> unat u})"
proof (intro conjI)
  show "my_count_bits u = card {i. bit u i}" "my_count_bits_uint32 v = card {i. bit v i}"
    by (simp_all add: my_count_bits_eq my_count_bits_uint32_eq bit_count_def)
  show "unat (my_round_up_to_next_power v) =
     (if v = 0 \<or> unat v > 2 ^ 31 then 0 else 2 ^ (LEAST k. unat v \<le> 2 ^ k))"
    by (rule my_round_up_to_next_power_eq)
  show "{i. bit (my_clear_highest_bit v) i} = {i. bit v i} - {Max {i. bit v i}}"
    by (rule my_clear_highest_bit_set)
  show "{i. bit (my_reverse_bits v) i} = (\<lambda>i. 31 - i) ` {i. bit v i}"
    by (rule my_reverse_bits_set)
  show "my_bit_log2 u = (if u = 0 then 0 else Max {k. 2 ^ k \<le> unat u})"
    by (rule my_bit_log2_eq)
qed
end
