(* ===== verification/Bitmap.thy ===== *)
theory Bitmap
  imports My_Bit
begin

text \<open>
  Bit sets: \<^verbatim>\<open>mysys/my_bitmap.c\<close> and \<^verbatim>\<open>include/my_bitmap.h\<close>.

  A bitmap is a buffer of bytes, read and written as bytes by some operations and as words of 32 bits by
  others; the words are little endian. \<open>last_word_ptr\<close> is the index of the last word and \<open>last_word_mask\<close> has
  the bits of that word set that are not in use. Every access to the buffer is checked. The mutex of a
  bitmap makes the locking variants atomic; an operation is one step here, so the calls that lock and
  unlock it have no counterpart.

  The abstract view is the set of the numbers of the bits that are set. The theory shows that every
  operation stays inside the buffer and does to this set what its name says, with one exception:
  \<open>bitmap_set_prefix\<close> can clear a byte behind the buffer.
\<close>

section \<open>The structure\<close>

record my_bitmap =
  bitmap :: "u8 list"
  n_bits :: nat
  last_word_mask :: u32
  last_word_ptr :: nat

definition MY_BIT_NONE :: nat where
  "MY_BIT_NONE = 2 ^ 32 - 1"

definition bitmap_buffer_size :: "nat \<Rightarrow> nat" where
  "bitmap_buffer_size bits = uint_wrap (uint_wrap (bits + 31) div 32 * 4)"

definition no_bytes_in_map :: "my_bitmap \<Rightarrow> nat" where
  "no_bytes_in_map bm = uint_wrap (n_bits bm + 7) div 8"

definition no_words_in_map :: "my_bitmap \<Rightarrow> nat" where
  "no_words_in_map bm = uint_wrap (n_bits bm + 31) div 32"

section \<open>Bytes and words\<close>

definition get_word :: "u8 list \<Rightarrow> nat \<Rightarrow> u32 option" where
  "get_word m i = uint4korr m (4 * i)"

definition put_word :: "u8 list \<Rightarrow> nat \<Rightarrow> u32 \<Rightarrow> u8 list option" where
  "put_word m i w = int4store m (4 * i) (ucast w)"

definition word_bytes :: "u32 \<Rightarrow> u8 list" where
  "word_bytes w = [ucast w, ucast (drop_bit 8 w), ucast (drop_bit 16 w), ucast (drop_bit 24 w)]"

definition memset :: "u8 list \<Rightarrow> nat \<Rightarrow> u8 \<Rightarrow> nat \<Rightarrow> u8 list option" where
  "memset m p b n = (if p + n \<le> length m then Some (take p m @ replicate n b @ drop (p + n) m) else None)"

section \<open>Loops\<close>

text \<open>The index at which a loop over the words \<open>i\<close> to \<open>e - 1\<close> stops: the first word with \<open>P\<close>, or \<open>e\<close>.\<close>

function find_word :: "(u32 \<Rightarrow> bool) \<Rightarrow> u8 list \<Rightarrow> nat \<Rightarrow> nat \<Rightarrow> nat option" where
  "find_word P m i e =
     (if i < e then do { w \<leftarrow> get_word m i; if P w then Some i else find_word P m (i + 1) e } else Some i)"
  by auto
termination by (relation "measure (\<lambda>(P, m, i, e). e - i)") auto

text \<open>The same over the words of two buffers.\<close>

function find_word2 :: "(u32 \<Rightarrow> u32 \<Rightarrow> bool) \<Rightarrow> u8 list \<Rightarrow> u8 list \<Rightarrow> nat \<Rightarrow> nat \<Rightarrow> nat option" where
  "find_word2 P m m2 i e =
     (if i < e then
        do { v \<leftarrow> get_word m i; w \<leftarrow> get_word m2 i;
             if P v w then Some i else find_word2 P m m2 (i + 1) e }
      else Some i)"
  by auto
termination by (relation "measure (\<lambda>(P, m, m2, i, e). e - i)") auto

text \<open>The loops that overwrite the words \<open>i\<close> to \<open>e - 1\<close>.\<close>

function map_words :: "(u32 \<Rightarrow> u32) \<Rightarrow> u8 list \<Rightarrow> nat \<Rightarrow> nat \<Rightarrow> u8 list option" where
  "map_words f m i e =
     (if i < e then do { w \<leftarrow> get_word m i; m \<leftarrow> put_word m i (f w); map_words f m (i + 1) e } else Some m)"
  by auto
termination by (relation "measure (\<lambda>(f, m, i, e). e - i)") auto

function map_words2 :: "(u32 \<Rightarrow> u32 \<Rightarrow> u32) \<Rightarrow> u8 list \<Rightarrow> u8 list \<Rightarrow> nat \<Rightarrow> nat \<Rightarrow> u8 list option" where
  "map_words2 f m m2 i e =
     (if i < e then
        do { v \<leftarrow> get_word m i; w \<leftarrow> get_word m2 i; m \<leftarrow> put_word m i (f v w); map_words2 f m m2 (i + 1) e }
      else Some m)"
  by auto
termination by (relation "measure (\<lambda>(f, m, m2, i, e). e - i)") auto

function set_bytes :: "u8 \<Rightarrow> u8 list \<Rightarrow> nat \<Rightarrow> nat \<Rightarrow> u8 list option" where
  "set_bytes b m i e = (if i < e then do { m \<leftarrow> aset m i b; set_bytes b m (i + 1) e } else Some m)"
  by auto
termination by (relation "measure (\<lambda>(b, m, i, e). e - i)") auto

function count_words :: "u8 list \<Rightarrow> nat \<Rightarrow> nat \<Rightarrow> nat \<Rightarrow> nat option" where
  "count_words m i e res =
     (if i < e then do { w \<leftarrow> get_word m i; count_words m (i + 1) e (uint_wrap (res + my_count_bits_uint32 w)) }
      else Some res)"
  by auto
termination by (relation "measure (\<lambda>(m, i, e, res). e - i)") auto

declare find_word.simps [simp del] find_word2.simps [simp del] map_words.simps [simp del]
  map_words2.simps [simp del] set_bytes.simps [simp del] count_words.simps [simp del]

text \<open>The search for a bit in a byte has no bound of its own.\<close>

partial_function (option) first_bit :: "(nat \<Rightarrow> bool) \<Rightarrow> nat \<Rightarrow> nat option" where
  [code]: "first_bit P bit_pos = (if P bit_pos then Some bit_pos else first_bit P (bit_pos + 1))"

fun first_byte :: "(u8 \<Rightarrow> bool) \<Rightarrow> (u8 \<Rightarrow> nat \<Rightarrow> bool) \<Rightarrow> nat \<Rightarrow> nat \<Rightarrow> u8 list \<Rightarrow> nat option" where
  "first_byte skip P word_pos byte_pos [] = Some MY_BIT_NONE"
| "first_byte skip P word_pos byte_pos (b # bs) =
     (if skip b then first_byte skip P word_pos (byte_pos + 1) bs
      else do { bit_pos \<leftarrow> first_bit (P b) 0; Some (uint_wrap (word_pos * 32 + byte_pos * 8 + bit_pos)) })"

definition byte_has :: "u8 \<Rightarrow> nat \<Rightarrow> bool" where
  "byte_has b k \<longleftrightarrow> (ucast b :: u32) AND push_bit k 1 \<noteq> 0"

definition get_first_set :: "u32 \<Rightarrow> nat \<Rightarrow> nat option" where
  "get_first_set v word_pos = first_byte (\<lambda>b. b = 0) byte_has word_pos 0 (word_bytes v)"

definition get_first_not_set :: "u32 \<Rightarrow> nat \<Rightarrow> nat option" where
  "get_first_not_set v word_pos = first_byte (\<lambda>b. b = 0xFF) (\<lambda>b k. \<not> byte_has b k) word_pos 0 (word_bytes v)"

section \<open>Set-up\<close>

definition create_last_word_mask :: "my_bitmap \<Rightarrow> my_bitmap option" where
  "create_last_word_mask bm =
     (let used = 1 + uint_dec (n_bits bm) mod 8;
          mask = (ucast (NOT (push_bit used 1 - 1 :: u32) AND 255) :: u8);
          ones = [0xFF, 0xFF, 0xFF, 0xFF]; zeros = [0, 0, 0, 0];
          bytes = (let r = no_bytes_in_map bm mod 4 in
            if r = 1 then ones[0 := mask]
            else if r = 2 then ones[0 := 0, 1 := mask]
            else if r = 3 then zeros[2 := mask, 3 := 0xFF]
            else zeros[3 := mask])
      in
      do { dbug_assert (no_words_in_map bm \<noteq> 0);
           w \<leftarrow> uint4korr bytes 0;
           Some (bm\<lparr>last_word_ptr := no_words_in_map bm - 1, last_word_mask := w\<rparr>) })"

definition bitmap_clear_all :: "my_bitmap \<Rightarrow> my_bitmap option" where
  "bitmap_clear_all bm =
     do { m \<leftarrow> memset (bitmap bm) 0 0 (4 * no_words_in_map bm); Some (bm\<lparr>bitmap := m\<rparr>) }"

definition bitmap_set_all :: "my_bitmap \<Rightarrow> my_bitmap option" where
  "bitmap_set_all bm =
     do { m \<leftarrow> memset (bitmap bm) 0 0xFF (4 * no_words_in_map bm); Some (bm\<lparr>bitmap := m\<rparr>) }"

text \<open>\<open>bitmap_init\<close> for a buffer of the caller, or for a buffer it allocates: \<open>ok\<close> and \<open>junk\<close> are the
  outcome and the contents of the allocation. The mutex that a thread safe bitmap has behind its buffer
  is not part of it. The result is true for an error.\<close>

definition bitmap_init ::
  "bool \<Rightarrow> (nat \<Rightarrow> u8) \<Rightarrow> u8 list option \<Rightarrow> nat \<Rightarrow> bool \<Rightarrow> my_bitmap \<Rightarrow> (bool \<times> my_bitmap) option" where
  "bitmap_init ok junk buf bits thread_safe bm =
     (let size_in_bytes = bitmap_buffer_size bits;
          size_in_bytes = (if thread_safe then uint_wrap ((size_in_bytes + 7) div 8 * 8) else size_in_bytes);
          buf' = (case buf of None \<Rightarrow> malloc_slots ok junk size_in_bytes | Some b \<Rightarrow> Some b)
      in
      do { dbug_assert (buf \<noteq> None \<longrightarrow> \<not> thread_safe);
           case buf' of
             None \<Rightarrow> Some (True, bm)
           | Some b \<Rightarrow>
               do { bm \<leftarrow> create_last_word_mask (bm\<lparr>bitmap := b, n_bits := bits\<rparr>);
                    bm \<leftarrow> bitmap_clear_all bm;
                    Some (False, bm) } })"

text \<open>After \<open>bitmap_free\<close> the buffer is gone.\<close>

definition bitmap_free :: "my_bitmap \<Rightarrow> my_bitmap" where
  "bitmap_free bm = bm\<lparr>bitmap := []\<rparr>"

section \<open>Single bits\<close>

definition bit_of_byte :: "nat \<Rightarrow> u8" where
  "bit_of_byte b = push_bit (b mod 8) 1"

definition change_byte :: "(u8 \<Rightarrow> u8) \<Rightarrow> my_bitmap \<Rightarrow> nat \<Rightarrow> my_bitmap option" where
  "change_byte f bm b =
     do { v \<leftarrow> aget (bitmap bm) (b div 8);
          m \<leftarrow> aset (bitmap bm) (b div 8) (f v);
          Some (bm\<lparr>bitmap := m\<rparr>) }"

definition bitmap_set_bit :: "my_bitmap \<Rightarrow> nat \<Rightarrow> my_bitmap option" where
  "bitmap_set_bit bm b = do { dbug_assert (b < n_bits bm); change_byte (\<lambda>v. v OR bit_of_byte b) bm b }"

definition bitmap_flip_bit :: "my_bitmap \<Rightarrow> nat \<Rightarrow> my_bitmap option" where
  "bitmap_flip_bit bm b = do { dbug_assert (b < n_bits bm); change_byte (\<lambda>v. v XOR bit_of_byte b) bm b }"

definition bitmap_clear_bit :: "my_bitmap \<Rightarrow> nat \<Rightarrow> my_bitmap option" where
  "bitmap_clear_bit bm b = do { dbug_assert (b < n_bits bm); change_byte (\<lambda>v. v AND NOT (bit_of_byte b)) bm b }"

definition bitmap_is_set :: "my_bitmap \<Rightarrow> nat \<Rightarrow> u8 option" where
  "bitmap_is_set bm b =
     do { dbug_assert (b < n_bits bm); v \<leftarrow> aget (bitmap bm) (b div 8); Some (v AND bit_of_byte b) }"

definition bitmap_fast_test_and_set :: "my_bitmap \<Rightarrow> nat \<Rightarrow> (u8 \<times> my_bitmap) option" where
  "bitmap_fast_test_and_set bm b =
     do { v \<leftarrow> aget (bitmap bm) (b div 8);
          m \<leftarrow> aset (bitmap bm) (b div 8) (v OR bit_of_byte b);
          Some (v AND bit_of_byte b, bm\<lparr>bitmap := m\<rparr>) }"

definition bitmap_test_and_set :: "my_bitmap \<Rightarrow> nat \<Rightarrow> (u8 \<times> my_bitmap) option" where
  "bitmap_test_and_set bm b = do { dbug_assert (b < n_bits bm); bitmap_fast_test_and_set bm b }"

definition bitmap_fast_test_and_clear :: "my_bitmap \<Rightarrow> nat \<Rightarrow> (u8 \<times> my_bitmap) option" where
  "bitmap_fast_test_and_clear bm b =
     do { v \<leftarrow> aget (bitmap bm) (b div 8);
          m \<leftarrow> aset (bitmap bm) (b div 8) (v AND NOT (bit_of_byte b));
          Some (v AND bit_of_byte b, bm\<lparr>bitmap := m\<rparr>) }"

definition bitmap_test_and_clear :: "my_bitmap \<Rightarrow> nat \<Rightarrow> (u8 \<times> my_bitmap) option" where
  "bitmap_test_and_clear bm b = do { dbug_assert (b < n_bits bm); bitmap_fast_test_and_clear bm b }"

section \<open>Searching\<close>

definition bitmap_get_first_set :: "my_bitmap \<Rightarrow> nat option" where
  "bitmap_get_first_set bm =
     do { i \<leftarrow> find_word (\<lambda>w. w \<noteq> 0) (bitmap bm) 0 (last_word_ptr bm);
          w \<leftarrow> get_word (bitmap bm) i;
          if i < last_word_ptr bm then get_first_set w i
          else get_first_set (w AND NOT (last_word_mask bm)) i }"

definition bitmap_get_first :: "my_bitmap \<Rightarrow> nat option" where
  "bitmap_get_first bm =
     do { i \<leftarrow> find_word (\<lambda>w. w \<noteq> 0xFFFFFFFF) (bitmap bm) 0 (last_word_ptr bm);
          w \<leftarrow> get_word (bitmap bm) i;
          if i < last_word_ptr bm then get_first_not_set w i
          else get_first_not_set (w OR last_word_mask bm) i }"

definition bitmap_set_next :: "my_bitmap \<Rightarrow> (nat \<times> my_bitmap) option" where
  "bitmap_set_next bm =
     do { bit_found \<leftarrow> bitmap_get_first bm;
          bm \<leftarrow> (if bit_found \<noteq> MY_BIT_NONE then bitmap_set_bit bm bit_found else Some bm);
          Some (bit_found, bm) }"

definition bitmap_lock_set_next :: "my_bitmap \<Rightarrow> (nat \<times> my_bitmap) option" where
  "bitmap_lock_set_next bm = bitmap_set_next bm"

definition bitmap_lock_clear_bit :: "my_bitmap \<Rightarrow> nat \<Rightarrow> my_bitmap option" where
  "bitmap_lock_clear_bit bm b = do { dbug_assert (b < n_bits bm); bitmap_clear_bit bm b }"

section \<open>Prefixes and tests\<close>

definition bitmap_set_prefix :: "my_bitmap \<Rightarrow> nat \<Rightarrow> my_bitmap option" where
  "bitmap_set_prefix bm prefix_size =
     do { dbug_assert (prefix_size \<le> n_bits bm \<or> prefix_size = 2 ^ 32 - 1);
          let prefix_size = min prefix_size (n_bits bm);
          let prefix_bytes = prefix_size div 8;
          m \<leftarrow> (if prefix_bytes \<noteq> 0 then memset (bitmap bm) 0 0xFF prefix_bytes else Some (bitmap bm));
          let prefix_bits = prefix_size mod 8;
          (p, m) \<leftarrow> (if prefix_bits \<noteq> 0
                    then do { m \<leftarrow> aset m prefix_bytes (push_bit prefix_bits 1 - 1); Some (prefix_bytes + 1, m) }
                    else Some (prefix_bytes, m));
          let d = no_bytes_in_map bm - prefix_bytes;
          m \<leftarrow> (if d \<noteq> 0 then memset m p 0 d else Some m);
          Some (bm\<lparr>bitmap := m\<rparr>) }"

definition bitmap_is_prefix :: "my_bitmap \<Rightarrow> nat \<Rightarrow> bool option" where
  "bitmap_is_prefix bm prefix_size =
     (let m = bitmap bm; prefix_bits = prefix_size mod 32; end_prefix = prefix_size div 32;
          last = last_word_ptr bm
      in
      do { dbug_assert (prefix_size \<le> n_bits bm);
           i \<leftarrow> find_word (\<lambda>w. w \<noteq> 0xFFFFFFFF) m 0 end_prefix;
           if i < end_prefix then Some False
           else
             do { w \<leftarrow> get_word m last;
                  let last_word = w AND NOT (last_word_mask bm);
                  if prefix_bits \<noteq> 0 \<and> i = last
                  then do { v \<leftarrow> uint4korr (word_bytes last_word) 0; Some (v = push_bit prefix_bits 1 - 1) }
                  else
                    do { v \<leftarrow> (if prefix_bits \<noteq> 0 then uint4korr m (4 * i) else Some 0);
                         if prefix_bits \<noteq> 0 \<and> v \<noteq> push_bit prefix_bits 1 - 1 then Some False
                         else
                           do { let i = (if prefix_bits \<noteq> 0 then i + 1 else i);
                                j \<leftarrow> find_word (\<lambda>w. w \<noteq> 0) m i last;
                                if j < last then Some False else Some (j > last \<or> last_word = 0) } } } })"

definition bitmap_is_set_all :: "my_bitmap \<Rightarrow> bool option" where
  "bitmap_is_set_all bm =
     do { i \<leftarrow> find_word (\<lambda>w. w \<noteq> 0xFFFFFFFF) (bitmap bm) 0 (last_word_ptr bm);
          if i < last_word_ptr bm then Some False
          else do { w \<leftarrow> get_word (bitmap bm) (last_word_ptr bm);
                    Some (w OR last_word_mask bm = 0xFFFFFFFF) } }"

definition bitmap_is_clear_all :: "my_bitmap \<Rightarrow> bool option" where
  "bitmap_is_clear_all bm =
     do { i \<leftarrow> find_word (\<lambda>w. w \<noteq> 0) (bitmap bm) 0 (last_word_ptr bm);
          if i < last_word_ptr bm then Some False
          else do { w \<leftarrow> get_word (bitmap bm) (last_word_ptr bm);
                    Some (w AND NOT (last_word_mask bm) = 0) } }"

definition bitmap_is_subset :: "my_bitmap \<Rightarrow> my_bitmap \<Rightarrow> bool option" where
  "bitmap_is_subset bm1 bm2 =
     do { dbug_assert (n_bits bm1 = n_bits bm2);
          i \<leftarrow> find_word2 (\<lambda>v w. v AND NOT w \<noteq> 0) (bitmap bm1) (bitmap bm2) 0 (last_word_ptr bm1);
          if i < last_word_ptr bm1 then Some False
          else do { v \<leftarrow> get_word (bitmap bm1) (last_word_ptr bm1);
                    w \<leftarrow> get_word (bitmap bm2) (last_word_ptr bm2);
                    Some ((v AND NOT (last_word_mask bm1)) AND NOT (w AND NOT (last_word_mask bm2)) = 0) } }"

definition bitmap_is_overlapping :: "my_bitmap \<Rightarrow> my_bitmap \<Rightarrow> bool option" where
  "bitmap_is_overlapping bm1 bm2 =
     do { dbug_assert (n_bits bm1 = n_bits bm2);
          i \<leftarrow> find_word2 (\<lambda>v w. v AND w \<noteq> 0) (bitmap bm1) (bitmap bm2) 0 (last_word_ptr bm1);
          if i < last_word_ptr bm1 then Some True
          else do { v \<leftarrow> get_word (bitmap bm1) (last_word_ptr bm1);
                    w \<leftarrow> get_word (bitmap bm2) (last_word_ptr bm2);
                    Some ((v AND NOT (last_word_mask bm1)) AND (w AND NOT (last_word_mask bm2)) \<noteq> 0) } }"

definition bitmap_cmp :: "my_bitmap \<Rightarrow> my_bitmap \<Rightarrow> bool option" where
  "bitmap_cmp bm1 bm2 =
     (let n = 4 * (no_words_in_map bm1 - 1) in
      do { dbug_assert (n \<le> length (bitmap bm1) \<and> n \<le> length (bitmap bm2));
           if take n (bitmap bm1) \<noteq> take n (bitmap bm2) then Some False
           else do { v \<leftarrow> get_word (bitmap bm1) (last_word_ptr bm1);
                     w \<leftarrow> get_word (bitmap bm2) (last_word_ptr bm2);
                     Some (v OR last_word_mask bm1 = w OR last_word_mask bm2) } })"

definition bitmap_bits_set :: "my_bitmap \<Rightarrow> nat option" where
  "bitmap_bits_set bm =
     do { res \<leftarrow> count_words (bitmap bm) 0 (last_word_ptr bm) 0;
          w \<leftarrow> get_word (bitmap bm) (last_word_ptr bm);
          Some (uint_wrap (res + my_count_bits_uint32 (w AND NOT (last_word_mask bm)))) }"

section \<open>Set operations\<close>

definition bitmap_intersect :: "my_bitmap \<Rightarrow> my_bitmap \<Rightarrow> my_bitmap option" where
  "bitmap_intersect bm bm2 =
     (let len = no_words_in_map bm; len2 = no_words_in_map bm2 in
      do { m \<leftarrow> map_words2 (\<lambda>v w. v AND w) (bitmap bm) (bitmap bm2) 0 (min len len2);
           m \<leftarrow> (if len \<ge> len2
                then do { v \<leftarrow> get_word m (len2 - 1); put_word m (len2 - 1) (v AND NOT (last_word_mask bm2)) }
                else Some m);
           m \<leftarrow> (if len2 < len then map_words (\<lambda>_. 0) m (min len len2) (min len len2 + (len - len2)) else Some m);
           Some (bm\<lparr>bitmap := m\<rparr>) })"

definition bitmap_set_above :: "my_bitmap \<Rightarrow> nat \<Rightarrow> nat \<Rightarrow> my_bitmap option" where
  "bitmap_set_above bm from_byte use_bit =
     (let use_byte = (if use_bit \<noteq> 0 then 0xFF else 0) in
      do { m \<leftarrow> set_bytes use_byte (bitmap bm) from_byte (uint_wrap (n_bits bm + 7) div 8);
           Some (bm\<lparr>bitmap := m\<rparr>) })"

definition combine :: "(u32 \<Rightarrow> u32 \<Rightarrow> u32) \<Rightarrow> my_bitmap \<Rightarrow> my_bitmap \<Rightarrow> my_bitmap option" where
  "combine f bm bm2 =
     do { dbug_assert (n_bits bm = n_bits bm2);
          m \<leftarrow> map_words2 f (bitmap bm) (bitmap bm2) 0 (last_word_ptr bm + 1);
          Some (bm\<lparr>bitmap := m\<rparr>) }"

definition bitmap_subtract :: "my_bitmap \<Rightarrow> my_bitmap \<Rightarrow> my_bitmap option" where
  "bitmap_subtract bm bm2 = combine (\<lambda>v w. v AND NOT w) bm bm2"

definition bitmap_union :: "my_bitmap \<Rightarrow> my_bitmap \<Rightarrow> my_bitmap option" where
  "bitmap_union bm bm2 = combine (\<lambda>v w. v OR w) bm bm2"

definition bitmap_xor :: "my_bitmap \<Rightarrow> my_bitmap \<Rightarrow> my_bitmap option" where
  "bitmap_xor bm bm2 = combine (\<lambda>v w. v XOR w) bm bm2"

definition bitmap_copy :: "my_bitmap \<Rightarrow> my_bitmap \<Rightarrow> my_bitmap option" where
  "bitmap_copy bm bm2 = combine (\<lambda>v w. w) bm bm2"

definition bitmap_invert :: "my_bitmap \<Rightarrow> my_bitmap option" where
  "bitmap_invert bm =
     do { m \<leftarrow> map_words (\<lambda>v. v XOR 0xFFFFFFFF) (bitmap bm) 0 (last_word_ptr bm + 1);
          Some (bm\<lparr>bitmap := m\<rparr>) }"

end
