(* ===== verification/Bitmap_Sets.thy ===== *)
theory Bitmap_Sets
  imports Bitmap
begin

text \<open>
  The bitmap operations as operations on sets of numbers: the bits of a buffer seen as bytes and as
  words, what each loop does to them, the invariant of a bitmap, and every operation and query in terms
  of the set of the bits that are set.
\<close>

section \<open>Bits of a buffer\<close>

definition bit_at :: "u8 list \<Rightarrow> nat \<Rightarrow> bool" where
  "bit_at m i \<longleftrightarrow> bit (m ! (i div 8)) (i mod 8)"

definition word_at :: "u8 list \<Rightarrow> nat \<Rightarrow> u32" where
  "word_at m j = sum32 (m ! (4 * j)) (m ! (4 * j + 1)) (m ! (4 * j + 2)) (m ! (4 * j + 3))"

lemma get_word_eq: "4 * j + 4 \<le> length m \<Longrightarrow> get_word m j = Some (word_at m j)"
  by (simp add: get_word_def word_at_def uint4korr_def)

lemma bit_le_val:
  assumes "k < 8 * length bs"
  shows "bit (le_val bs) k \<longleftrightarrow> bit (bs ! (k div 8)) (k mod 8)"
  using assms
proof (induction bs arbitrary: k)
  case (Cons b bs)
  have or: "le_val (b # bs) = unat b OR push_bit 8 (le_val bs)"
  proof -
    have "unat b AND push_bit 8 (le_val bs) = 0"
      using no_bit_above
      by (auto intro!: bit_eqI simp: bit_and_iff bit_push_bit_iff bit_unsigned_iff dest!: bit_imp_le_length)
    then show ?thesis by (simp add: disjunctive_add_eq_or [symmetric] push_bit_eq_mult)
  qed
  show ?case
  proof (cases "k < 8")
    case True
    then show ?thesis unfolding or by (simp add: bit_or_iff bit_push_bit_iff bit_unsigned_iff)
  next
    case False
    then have "\<not> bit b k" using bit_imp_le_length [of b k] by auto
    moreover have "k div 8 = Suc ((k - 8) div 8)" "k mod 8 = (k - 8) mod 8" using False by (simp_all add: div_if mod_if)
    ultimately show ?thesis unfolding or using False Cons.IH [of "k - 8"] Cons.prems
      by (simp add: bit_or_iff bit_push_bit_iff bit_unsigned_iff)
  qed
qed simp

lemma bit_word_at: "bit (word_at m j) k \<longleftrightarrow> k < 32 \<and> bit_at m (32 * j + k)"
proof (cases "k < 32")
  case True
  have "bit (word_at m j) k \<longleftrightarrow> bit (le_val [m ! (4 * j), m ! (4 * j + 1), m ! (4 * j + 2), m ! (4 * j + 3)]) k"
    unfolding word_at_def u32_of_bytes(1) using True by (simp add: bit_of_nat_iff del: le_val.simps)
  also have "\<dots> \<longleftrightarrow> bit ([m ! (4 * j), m ! (4 * j + 1), m ! (4 * j + 2), m ! (4 * j + 3)] ! (k div 8)) (k mod 8)"
    using True by (intro bit_le_val) simp
  also have "[m ! (4 * j), m ! (4 * j + 1), m ! (4 * j + 2), m ! (4 * j + 3)] ! (k div 8) = m ! (4 * j + k div 8)"
  proof -
    have "k div 8 < 4" using True by simp
    then consider "k div 8 = 0" | "k div 8 = 1" | "k div 8 = 2" | "k div 8 = 3" by linarith
    then show ?thesis by cases simp_all
  qed
  also have "4 * j + k div 8 = (32 * j + k) div 8" by simp
  also have "k mod 8 = (32 * j + k) mod 8" by presburger
  finally show ?thesis using True by (simp add: bit_at_def)
next
  case False
  then show ?thesis using bit_imp_le_length [of "word_at m j" k] by auto
qed

definition store_word :: "u8 list \<Rightarrow> nat \<Rightarrow> u32 \<Rightarrow> u8 list" where
  "store_word m j w = take (4 * j) m @ word_bytes w @ drop (4 * j + 4) m"

lemma ucast_drop_ucast: "(ucast (drop_bit n (ucast (w :: u32) :: u64)) :: u8) = ucast (drop_bit n w)"
proof (rule bit_eqI)
  show "bit (ucast (drop_bit n (ucast w :: u64)) :: u8) k = bit (ucast (drop_bit n w) :: u8) k" for k
    using bit_imp_le_length [of w "n + k"] by (auto simp: bit_unsigned_iff bit_drop_bit_eq)
qed

lemma put_word_eq: 
  assumes "4 * j + 4 \<le> length m"
  shows "put_word m j w = Some (store_word m j w)"
proof -
  have "[ucast (ucast w :: u64), ucast (drop_bit 8 (ucast w :: u64)), ucast (drop_bit 16 (ucast w :: u64)),
      ucast (drop_bit 24 (ucast w :: u64))] = word_bytes w"
    using ucast_drop_ucast [of 0 w] by (simp only: word_bytes_def ucast_drop_ucast drop_bit_0 id_apply)
  moreover have "length (word_bytes w) = 4" by (simp add: word_bytes_def)
  ultimately show ?thesis using assms unfolding put_word_def int4store_def store_word_def
    by (simp add: store_bytes_eq)
qed

lemma length_store_word [simp]: "4 * j + 4 \<le> length m \<Longrightarrow> length (store_word m j w) = length m"
  by (simp add: store_word_def word_bytes_def)

lemma word_bytes_nth: "r < 4 \<Longrightarrow> word_bytes w ! r = ucast (drop_bit (8 * r) w)"
proof -
  assume "r < 4"
  then consider "r = 0" | "r = 1" | "r = 2" | "r = 3" by linarith
  then show ?thesis by cases (simp_all add: word_bytes_def)
qed

lemma bit_at_store_word:
  assumes "4 * j + 4 \<le> length m"
  shows "bit_at (store_word m j w) i \<longleftrightarrow> (if i div 32 = j then bit w (i mod 32) else bit_at m i)"
proof -
  have l: "length (word_bytes w) = 4" by (simp add: word_bytes_def)
  consider "i div 8 < 4 * j" | "4 * j \<le> i div 8" "i div 8 < 4 * j + 4" | "4 * j + 4 \<le> i div 8" by linarith
  then show ?thesis
  proof cases
    case 1
    then have "store_word m j w ! (i div 8) = m ! (i div 8)" "i div 32 \<noteq> j"
      using assms by (simp_all add: store_word_def nth_append)
    then show ?thesis by (simp add: bit_at_def)
  next
    case 2
    let ?r = "i div 8 - 4 * j"
    have "i = 32 * j + (8 * ?r + i mod 8)" using 2(1) mult_div_mod_eq [of 8 i] by (simp add: diff_mult_distrib2)
    moreover have r: "?r < 4" "8 * ?r + i mod 8 < 32" using 2 mod_less_divisor [of 8 i] by linarith+
    ultimately have q: "i div 32 = j" "i mod 32 = 8 * ?r + i mod 8" "?r < 4"
      by (metis div_mult_self4 div_less add_0_right zero_neq_numeral, metis mod_mult_self4 mod_less, simp)
    have "store_word m j w ! (i div 8) = word_bytes w ! ?r"
      using assms 2 r(1) by (simp add: store_word_def nth_append l)
    then have "bit_at (store_word m j w) i \<longleftrightarrow> bit (ucast (drop_bit (8 * ?r) w) :: u8) (i mod 8)"
      using q(3) by (simp add: bit_at_def word_bytes_nth)
    also have "\<dots> \<longleftrightarrow> bit w (8 * ?r + i mod 8)" by (simp add: bit_unsigned_iff bit_drop_bit_eq)
    finally show ?thesis using q by simp
  next
    case 3
    then have "\<not> i div 8 - 4 * j < 4" "\<not> i div 8 < 4 * j" "4 * j + 4 + (i div 8 - 4 * j - 4) = i div 8" by linarith+
    then have "store_word m j w ! (i div 8) = m ! (i div 8)"
      using assms by (simp add: store_word_def nth_append l)
    moreover have "i div 32 \<noteq> j" using 3 div_mult2_eq [of i 8 4] by auto
    ultimately show ?thesis by (simp add: bit_at_def)
  qed
qed

section \<open>What the loops do\<close>

lemma find_word_eq:
  assumes "4 * e \<le> length m" "i \<le> e"
  shows "\<exists>j. find_word P m i e = Some j \<and> i \<le> j \<and> j \<le> e \<and> (\<forall>k. i \<le> k \<and> k < j \<longrightarrow> \<not> P (word_at m k)) \<and>
    (j < e \<longrightarrow> P (word_at m j))"
  using assms
proof (induction "e - i" arbitrary: i)
  case 0
  then show ?case by (subst find_word.simps) auto
next
  case (Suc n)
  then have i: "i < e" "get_word m i = Some (word_at m i)" by (auto intro: get_word_eq)
  show ?case
  proof (cases "P (word_at m i)")
    case True
    then show ?thesis using i by (subst find_word.simps) auto
  next
    case False
    have "n = e - (i + 1)" "i + 1 \<le> e" using Suc.hyps(2) i(1) by simp_all
    from Suc.hyps(1) [OF this(1) Suc.prems(1) this(2)]
    obtain j where j: "find_word P m (i + 1) e = Some j" "i + 1 \<le> j" "j \<le> e"
      "\<forall>k. i + 1 \<le> k \<and> k < j \<longrightarrow> \<not> P (word_at m k)" "j < e \<longrightarrow> P (word_at m j)" by blast
    have "find_word P m i e = Some j" using i j(1) False by (subst find_word.simps) simp
    moreover have "\<not> P (word_at m k)" if "i \<le> k" "k < j" for k
      using that j(4) False by (cases "k = i") auto
    ultimately show ?thesis using j by auto
  qed
qed

lemma find_word2_eq:
  assumes "4 * e \<le> length m" "4 * e \<le> length m2" "i \<le> e"
  shows "\<exists>j. find_word2 P m m2 i e = Some j \<and> i \<le> j \<and> j \<le> e \<and>
    (\<forall>k. i \<le> k \<and> k < j \<longrightarrow> \<not> P (word_at m k) (word_at m2 k)) \<and> (j < e \<longrightarrow> P (word_at m j) (word_at m2 j))"
  using assms
proof (induction "e - i" arbitrary: i)
  case 0
  then show ?case by (subst find_word2.simps) auto
next
  case (Suc n)
  then have i: "i < e" "get_word m i = Some (word_at m i)" "get_word m2 i = Some (word_at m2 i)"
    by (auto intro: get_word_eq)
  show ?case
  proof (cases "P (word_at m i) (word_at m2 i)")
    case True
    then show ?thesis using i by (subst find_word2.simps) auto
  next
    case False
    have "n = e - (i + 1)" "i + 1 \<le> e" using Suc.hyps(2) i(1) by simp_all
    from Suc.hyps(1) [OF this(1) Suc.prems(1,2) this(2)]
    obtain j where j: "find_word2 P m m2 (i + 1) e = Some j" "i + 1 \<le> j" "j \<le> e"
      "\<forall>k. i + 1 \<le> k \<and> k < j \<longrightarrow> \<not> P (word_at m k) (word_at m2 k)" "j < e \<longrightarrow> P (word_at m j) (word_at m2 j)"
      by blast
    have "find_word2 P m m2 i e = Some j" using i j(1) False by (subst find_word2.simps) simp
    moreover have "\<not> P (word_at m k) (word_at m2 k)" if "i \<le> k" "k < j" for k
      using that j(4) False by (cases "k = i") auto
    ultimately show ?thesis using j by auto
  qed
qed

lemma word_at_cong:
  assumes "\<And>b. b div 32 = j \<Longrightarrow> bit_at m b = bit_at m' b"
  shows "word_at m j = word_at m' j"
  using assms by (intro bit_eqI) (auto simp: bit_word_at)

lemma map_words2_eq:
  assumes "4 * e \<le> length m" "4 * e \<le> length m2" "i \<le> e"
  shows "\<exists>m'. map_words2 f m m2 i e = Some m' \<and> length m' = length m \<and>
    (\<forall>b. bit_at m' b \<longleftrightarrow> (if i \<le> b div 32 \<and> b div 32 < e
        then bit (f (word_at m (b div 32)) (word_at m2 (b div 32))) (b mod 32) else bit_at m b))"
  using assms
proof (induction "e - i" arbitrary: i m)
  case 0
  then show ?case by (subst map_words2.simps) auto
next
  case (Suc n)
  let ?m = "store_word m i (f (word_at m i) (word_at m2 i))"
  have le: "4 * i + 4 \<le> length m" "4 * i + 4 \<le> length m2" and i: "i < e" using Suc.hyps(2) Suc.prems by auto
  have step: "map_words2 f m m2 i e = map_words2 f ?m m2 (i + 1) e"
    using i by (subst map_words2.simps) (simp add: get_word_eq [OF le(1)] get_word_eq [OF le(2)] put_word_eq [OF le(1)])
  have "n = e - (i + 1)" "i + 1 \<le> e" "4 * e \<le> length ?m" using Suc.hyps(2) Suc.prems(1) i le by simp_all
  from Suc.hyps(1) [OF this(1) this(3) Suc.prems(2) this(2)]
  obtain m' where m': "map_words2 f ?m m2 (i + 1) e = Some m'" "length m' = length ?m"
    "\<And>b. bit_at m' b \<longleftrightarrow> (if i + 1 \<le> b div 32 \<and> b div 32 < e
        then bit (f (word_at ?m (b div 32)) (word_at m2 (b div 32))) (b mod 32) else bit_at ?m b)" by blast
  have other: "word_at ?m k = word_at m k" if "k \<noteq> i" for k
    using that by (intro word_at_cong) (simp add: bit_at_store_word [OF le(1)])
  show ?case
  proof (intro exI conjI allI)
    show "map_words2 f m m2 i e = Some m'" using step m'(1) by simp
    show "length m' = length m" using m'(2) le by simp
    show "bit_at m' b \<longleftrightarrow> (if i \<le> b div 32 \<and> b div 32 < e
        then bit (f (word_at m (b div 32)) (word_at m2 (b div 32))) (b mod 32) else bit_at m b)" for b
    proof (cases "b div 32 = i")
      case True
      then show ?thesis using i by (simp add: m'(3) bit_at_store_word [OF le(1)])
    next
      case False
      then have "i + 1 \<le> b div 32 \<longleftrightarrow> i \<le> b div 32" by linarith
      then show ?thesis using False by (simp add: m'(3) bit_at_store_word [OF le(1)] other)
    qed
  qed
qed

text \<open>The loop over one buffer is the loop over two with the second unused.\<close>

lemma map_words_conv: "map_words f m i e = map_words2 (\<lambda>v w. f v) m m2 i e" if "4 * e \<le> length m" "4 * e \<le> length m2"
  using that
proof (induction "e - i" arbitrary: i m)
  case 0
  then show ?case by (subst map_words.simps, subst map_words2.simps) simp
next
  case (Suc n)
  have le: "4 * i + 4 \<le> length m" "4 * i + 4 \<le> length m2" and i: "i < e" using Suc.hyps(2) Suc.prems by auto
  have "n = e - (i + 1)" "4 * e \<le> length (store_word m i (f (word_at m i)))" using Suc.hyps(2) Suc.prems(1) le by simp_all
  from Suc.hyps(1) [OF this Suc.prems(2)] show ?case
    using i by (subst map_words.simps, subst map_words2.simps)
      (simp add: get_word_eq [OF le(1)] get_word_eq [OF le(2)] put_word_eq [OF le(1)])
qed

lemma map_words_eq:
  assumes "4 * e \<le> length m" "i \<le> e"
  shows "\<exists>m'. map_words f m i e = Some m' \<and> length m' = length m \<and>
    (\<forall>b. bit_at m' b \<longleftrightarrow> (if i \<le> b div 32 \<and> b div 32 < e then bit (f (word_at m (b div 32))) (b mod 32) else bit_at m b))"
  using map_words2_eq [OF assms(1,1,2), of "\<lambda>v w. f v"] map_words_conv [OF assms(1,1), of f i] by simp

section \<open>The invariant and the set of bits\<close>

definition bitmap_ok :: "my_bitmap \<Rightarrow> bool" where
  "bitmap_ok bm \<longleftrightarrow> 32 * last_word_ptr bm < n_bits bm \<and> n_bits bm \<le> 32 * last_word_ptr bm + 32 \<and>
     n_bits bm + 31 < 2 ^ 32 \<and> 4 * (last_word_ptr bm + 1) \<le> length (bitmap bm) \<and>
     (\<forall>k<32. bit (last_word_mask bm) k \<longleftrightarrow> n_bits bm \<le> 32 * last_word_ptr bm + k)"

definition bits_of :: "my_bitmap \<Rightarrow> nat set" where
  "bits_of bm = {i. i < n_bits bm \<and> bit_at (bitmap bm) i}"

lemma bitmap_okD:
  assumes "bitmap_ok bm"
  shows "32 * last_word_ptr bm < n_bits bm" "n_bits bm \<le> 32 * last_word_ptr bm + 32"
    "n_bits bm + 31 < 2 ^ 32" "4 * (last_word_ptr bm + 1) \<le> length (bitmap bm)"
    "k < 32 \<Longrightarrow> bit (last_word_mask bm) k \<longleftrightarrow> n_bits bm \<le> 32 * last_word_ptr bm + k"
  using assms by (simp_all add: bitmap_ok_def)

lemma bitmap_ok_words:
  assumes "bitmap_ok bm"
  shows "no_words_in_map bm = last_word_ptr bm + 1"
proof -
  have "n_bits bm + 31 = 32 * (last_word_ptr bm + 1) + (n_bits bm - (32 * last_word_ptr bm + 1))"
    using bitmap_okD(1) [OF assms] by simp
  moreover have "n_bits bm - (32 * last_word_ptr bm + 1) < 32" using bitmap_okD(1,2) [OF assms] by linarith
  ultimately have "(n_bits bm + 31) div 32 = last_word_ptr bm + 1" by (metis div_mult_self4 div_less add_0_right zero_neq_numeral)
  then show ?thesis using bitmap_okD(3) [OF assms] by (simp add: no_words_in_map_def uint_wrap_def)
qed

text \<open>The bits of the words: a bit of an earlier word is in use, one of the last word if it is not masked.\<close>

lemma bit_in_use:
  assumes "bitmap_ok bm" "i div 32 \<le> last_word_ptr bm"
  shows "i < n_bits bm \<longleftrightarrow> i div 32 < last_word_ptr bm \<or> \<not> bit (last_word_mask bm) (i mod 32)"
proof (cases "i div 32 = last_word_ptr bm")
  case True
  have "i = 32 * last_word_ptr bm + i mod 32" using True mult_div_mod_eq [of 32 i] by simp
  moreover have "bit (last_word_mask bm) (i mod 32) \<longleftrightarrow> n_bits bm \<le> 32 * last_word_ptr bm + i mod 32"
    by (rule bitmap_okD(5) [OF assms(1)]) simp
  ultimately show ?thesis using True by (simp only: less_irrefl simp_thms not_le)
next
  case False
  then have "i div 32 < last_word_ptr bm" using assms(2) by simp
  moreover from this have "i < 32 * last_word_ptr bm" by (simp add: div_less_iff_less_mult mult.commute)
  ultimately show ?thesis using bitmap_okD(1) [OF assms(1)] by linarith
qed

lemma bit_word_index:
  assumes "bitmap_ok bm" "i < n_bits bm"
  shows "i div 32 \<le> last_word_ptr bm"
  using assms bitmap_okD(2) [OF assms(1)] by (simp add: div_le_dividend less_Suc_eq_le [symmetric] div_less_iff_less_mult)

lemma bitmap_ok_update:
  assumes "bitmap_ok bm" "length m = length (bitmap bm)"
  shows "bitmap_ok (bm\<lparr>bitmap := m\<rparr>)"
  using assms by (simp add: bitmap_ok_def)

lemma bit_at_word: "bit_at m i = bit (word_at m (i div 32)) (i mod 32)"
  by (simp add: bit_word_at)

lemma set_combine:
  assumes ok: "bitmap_ok bm" "bitmap_ok bm2" "n_bits bm = n_bits bm2"
    and f: "\<And>v w k. k < 32 \<Longrightarrow> bit (f v w) k = g (bit v k) (bit w k)"
  shows "\<exists>bm'. combine f bm bm2 = Some bm' \<and> bitmap_ok bm' \<and> n_bits bm' = n_bits bm \<and>
    bits_of bm' = {i. i < n_bits bm \<and> g (i \<in> bits_of bm) (i \<in> bits_of bm2)}"
proof -
  have l: "last_word_ptr bm2 = last_word_ptr bm"
    using bitmap_ok_words [OF ok(1)] bitmap_ok_words [OF ok(2)] ok(3) by (simp add: no_words_in_map_def)
  obtain m' where m': "map_words2 f (bitmap bm) (bitmap bm2) 0 (last_word_ptr bm + 1) = Some m'"
    "length m' = length (bitmap bm)"
    "\<And>b. bit_at m' b \<longleftrightarrow> (if 0 \<le> b div 32 \<and> b div 32 < last_word_ptr bm + 1
        then bit (f (word_at (bitmap bm) (b div 32)) (word_at (bitmap bm2) (b div 32))) (b mod 32) else bit_at (bitmap bm) b)"
    using map_words2_eq [of "last_word_ptr bm + 1" "bitmap bm" "bitmap bm2" 0 f]
      bitmap_okD(4) [OF ok(1)] bitmap_okD(4) [OF ok(2)] l by auto
  have "bit_at m' i \<longleftrightarrow> g (bit_at (bitmap bm) i) (bit_at (bitmap bm2) i)" if "i < n_bits bm" for i
    using bit_word_index [OF ok(1) that] m'(3) [of i] f [of "i mod 32"] by (simp add: bit_at_word [symmetric])
  then have "bits_of (bm\<lparr>bitmap := m'\<rparr>) = {i. i < n_bits bm \<and> g (i \<in> bits_of bm) (i \<in> bits_of bm2)}"
    using ok(3) by (auto simp: bits_of_def)
  then show ?thesis using m'(1) ok bitmap_ok_update [OF ok(1) m'(2)] by (simp add: combine_def)
qed

lemma bitmap_set_operations:
  assumes ok: "bitmap_ok bm" "bitmap_ok bm2" "n_bits bm = n_bits bm2"
  shows "\<exists>bm'. bitmap_union bm bm2 = Some bm' \<and> bitmap_ok bm' \<and> n_bits bm' = n_bits bm \<and>
      bits_of bm' = bits_of bm \<union> bits_of bm2"
    and "\<exists>bm'. bitmap_subtract bm bm2 = Some bm' \<and> bitmap_ok bm' \<and> n_bits bm' = n_bits bm \<and>
      bits_of bm' = bits_of bm - bits_of bm2"
    and "\<exists>bm'. bitmap_xor bm bm2 = Some bm' \<and> bitmap_ok bm' \<and> n_bits bm' = n_bits bm \<and>
      bits_of bm' = (bits_of bm - bits_of bm2) \<union> (bits_of bm2 - bits_of bm)"
    and "\<exists>bm'. bitmap_copy bm bm2 = Some bm' \<and> bitmap_ok bm' \<and> n_bits bm' = n_bits bm \<and>
      bits_of bm' = bits_of bm2"
proof -
  have sub: "bits_of bm \<subseteq> {..<n_bits bm}" "bits_of bm2 \<subseteq> {..<n_bits bm}" using ok(3) by (auto simp: bits_of_def)
  have s: "{i. i < n_bits bm \<and> (i \<in> bits_of bm \<or> i \<in> bits_of bm2)} = bits_of bm \<union> bits_of bm2"
    "{i. i < n_bits bm \<and> (i \<in> bits_of bm \<and> i \<notin> bits_of bm2)} = bits_of bm - bits_of bm2"
    "{i. i < n_bits bm \<and> ((i \<in> bits_of bm) \<noteq> (i \<in> bits_of bm2))} = (bits_of bm - bits_of bm2) \<union> (bits_of bm2 - bits_of bm)"
    "{i. i < n_bits bm \<and> i \<in> bits_of bm2} = bits_of bm2" using sub by auto
  show "\<exists>bm'. bitmap_union bm bm2 = Some bm' \<and> bitmap_ok bm' \<and> n_bits bm' = n_bits bm \<and>
      bits_of bm' = bits_of bm \<union> bits_of bm2"
    using set_combine [OF ok, of "\<lambda>v w. v OR w" "\<lambda>p q. p \<or> q"] by (simp add: bitmap_union_def bit_or_iff s)
  show "\<exists>bm'. bitmap_subtract bm bm2 = Some bm' \<and> bitmap_ok bm' \<and> n_bits bm' = n_bits bm \<and>
      bits_of bm' = bits_of bm - bits_of bm2"
    using set_combine [OF ok, of "\<lambda>v w. v AND NOT w" "\<lambda>p q. p \<and> \<not> q"]
    by (simp add: bitmap_subtract_def bit_and_iff bit_not_iff s)
  show "\<exists>bm'. bitmap_xor bm bm2 = Some bm' \<and> bitmap_ok bm' \<and> n_bits bm' = n_bits bm \<and>
      bits_of bm' = (bits_of bm - bits_of bm2) \<union> (bits_of bm2 - bits_of bm)"
    using set_combine [OF ok, of "\<lambda>v w. v XOR w" "\<lambda>p q. p \<noteq> q", unfolded s(3)]
    by (simp add: bitmap_xor_def bit_xor_iff)
  show "\<exists>bm'. bitmap_copy bm bm2 = Some bm' \<and> bitmap_ok bm' \<and> n_bits bm' = n_bits bm \<and> bits_of bm' = bits_of bm2"
    using set_combine [OF ok, of "\<lambda>v w. w" "\<lambda>p q. q"] by (simp add: bitmap_copy_def s)
qed

lemma bit_ones: "bit (0xFFFFFFFF :: u32) k \<longleftrightarrow> k < 32"
proof -
  have "(0xFFFFFFFF :: u32) = - 1" by simp
  then show ?thesis unfolding \<open>(0xFFFFFFFF :: u32) = - 1\<close> by (simp add: bit_minus_1_iff)
qed

lemma bitmap_invert_set:
  assumes ok: "bitmap_ok bm"
  shows "\<exists>bm'. bitmap_invert bm = Some bm' \<and> bitmap_ok bm' \<and> n_bits bm' = n_bits bm \<and>
    bits_of bm' = {..<n_bits bm} - bits_of bm"
proof -
  obtain m' where m': "map_words (\<lambda>v. v XOR 0xFFFFFFFF) (bitmap bm) 0 (last_word_ptr bm + 1) = Some m'"
    "length m' = length (bitmap bm)"
    "\<And>b. bit_at m' b \<longleftrightarrow> (if 0 \<le> b div 32 \<and> b div 32 < last_word_ptr bm + 1
        then bit (word_at (bitmap bm) (b div 32) XOR 0xFFFFFFFF) (b mod 32) else bit_at (bitmap bm) b)"
    using map_words_eq [of "last_word_ptr bm + 1" "bitmap bm" 0 "\<lambda>v. v XOR 0xFFFFFFFF"] bitmap_okD(4) [OF ok] by auto
  have "bit_at m' i \<longleftrightarrow> \<not> bit_at (bitmap bm) i" if "i < n_bits bm" for i
    using bit_word_index [OF ok that] m'(3) [of i] bit_ones [of "i mod 32"] by (simp add: bit_at_word [symmetric] bit_xor_iff)
  then have "bits_of (bm\<lparr>bitmap := m'\<rparr>) = {..<n_bits bm} - bits_of bm" by (auto simp: bits_of_def)
  then show ?thesis using m'(1) bitmap_ok_update [OF ok m'(2)] by (simp add: bitmap_invert_def)
qed

lemma bitmap_intersect_set:
  assumes ok: "bitmap_ok bm" "bitmap_ok bm2"
  shows "\<exists>bm'. bitmap_intersect bm bm2 = Some bm' \<and> bitmap_ok bm' \<and> n_bits bm' = n_bits bm \<and>
    bits_of bm' = bits_of bm \<inter> bits_of bm2"
proof -
  define L where "L = last_word_ptr bm"
  define L2 where "L2 = last_word_ptr bm2"
  define m where "m = bitmap bm"
  define m2 where "m2 = bitmap bm2"
  have len: "no_words_in_map bm = L + 1" "no_words_in_map bm2 = L2 + 1"
    using bitmap_ok_words [OF ok(1)] bitmap_ok_words [OF ok(2)] by (simp_all add: L_def L2_def)
  have room: "4 * (L + 1) \<le> length m" "4 * (L2 + 1) \<le> length m2"
    using bitmap_okD(4) [OF ok(1)] bitmap_okD(4) [OF ok(2)] by (simp_all add: L_def L2_def m_def m2_def)
  let ?e = "min (L + 1) (L2 + 1)"
  have e: "4 * ?e \<le> length m" "4 * ?e \<le> length m2" "0 \<le> ?e" using room by (auto simp: min_def)
  from map_words2_eq [OF e, of "\<lambda>v w. v AND w"]
  obtain m' where m': "map_words2 (\<lambda>v w. v AND w) m m2 0 ?e = Some m'" "length m' = length m"
    "\<And>b. bit_at m' b \<longleftrightarrow> (if 0 \<le> b div 32 \<and> b div 32 < ?e
        then bit (word_at m (b div 32) AND word_at m2 (b div 32)) (b mod 32) else bit_at m b)" by blast
  have b1: "bit_at m' b \<longleftrightarrow> bit_at m b \<and> (b div 32 < ?e \<longrightarrow> bit_at m2 b)" for b
    by (simp add: m'(3) bit_at_word [symmetric] bit_and_iff)
  define m1 where "m1 = (if L2 \<le> L then store_word m' L2 (word_at m' L2 AND NOT (last_word_mask bm2)) else m')"
  have s1: "(if L + 1 \<ge> L2 + 1 then do { v \<leftarrow> get_word m' (L2 + 1 - 1); put_word m' (L2 + 1 - 1) (v AND NOT (last_word_mask bm2)) }
      else Some m') = Some m1"
    using room m'(2) by (simp add: m1_def get_word_eq put_word_eq)
  have len1: "length m1 = length m" using room m'(2) by (simp add: m1_def)
  have b2: "bit_at m1 b \<longleftrightarrow> bit_at m' b \<and> (L2 \<le> L \<and> b div 32 = L2 \<longrightarrow> \<not> bit (last_word_mask bm2) (b mod 32))" for b
    using room m'(2) by (auto simp: m1_def bit_at_store_word bit_and_iff bit_not_iff bit_at_word [symmetric])
  obtain m3 where m3: "(if L2 + 1 < L + 1 then map_words (\<lambda>_. 0) m1 ?e (?e + (L + 1 - (L2 + 1))) else Some m1) = Some m3"
    "length m3 = length m" "\<And>b. bit_at m3 b \<longleftrightarrow> bit_at m1 b \<and> \<not> (L2 < b div 32 \<and> b div 32 \<le> L)"
  proof (cases "L2 < L")
    case True
    then have e: "?e = L2 + 1" "?e + (L + 1 - (L2 + 1)) = L + 1" by simp_all
    obtain m3 where "map_words (\<lambda>_. 0) m1 (L2 + 1) (L + 1) = Some m3" "length m3 = length m1"
      "\<And>b. bit_at m3 b \<longleftrightarrow> (if L2 + 1 \<le> b div 32 \<and> b div 32 < L + 1 then bit (0 :: u32) (b mod 32) else bit_at m1 b)"
      using map_words_eq [of "L + 1" m1 "L2 + 1" "\<lambda>_. 0"] room len1 True by auto
    then show thesis using True len1 by (intro that [of m3]) (auto simp: e)
  next
    case False
    then show thesis using len1 by (intro that [of m1]) auto
  qed
  have "bit_at m3 i \<and> i < n_bits bm \<longleftrightarrow> bit_at m i \<and> i < n_bits bm \<and> bit_at m2 i \<and> i < n_bits bm2" for i
  proof (cases "i < n_bits bm")
    case True
    then have iL: "i div 32 \<le> L" using bit_word_index [OF ok(1)] by (simp add: L_def)
    have use: "i div 32 \<le> L2 \<Longrightarrow> i < n_bits bm2 \<longleftrightarrow> i div 32 < L2 \<or> \<not> bit (last_word_mask bm2) (i mod 32)"
      using bit_in_use [OF ok(2)] by (simp add: L2_def)
    have out: "\<not> i div 32 \<le> L2 \<Longrightarrow> \<not> i < n_bits bm2" using bit_word_index [OF ok(2)] by (auto simp: L2_def)
    have "L < L2 \<Longrightarrow> i < n_bits bm2"
      using True bitmap_okD(2) [OF ok(1)] bitmap_okD(1) [OF ok(2)] by (simp add: L_def L2_def)
    then show ?thesis using True iL use out unfolding m3(3) b2 b1 by (cases "L2 \<le> L") auto
  qed simp
  then have "bits_of (bm\<lparr>bitmap := m3\<rparr>) = bits_of bm \<inter> bits_of bm2" by (auto simp: bits_of_def m_def m2_def)
  moreover have "bitmap_intersect bm bm2 = Some (bm\<lparr>bitmap := m3\<rparr>)"
    by (simp only: bitmap_intersect_def len Let_def m_def [symmetric] m2_def [symmetric] m'(1) s1 m3(1) Option.bind.bind_lunit)
  moreover have "bitmap_ok (bm\<lparr>bitmap := m3\<rparr>)" using bitmap_ok_update [OF ok(1)] m3(2) by (simp add: m_def)
  ultimately show ?thesis by simp
qed

section \<open>Single bits\<close>

lemma bit_at_update:
  assumes "b div 8 < length m"
  shows "bit_at (m[b div 8 := v]) i \<longleftrightarrow> (if i div 8 = b div 8 then bit v (i mod 8) else bit_at m i)"
  using assms by (auto simp: bit_at_def nth_list_update)

lemma bit_of_byte_iff: "bit (bit_of_byte b) k \<longleftrightarrow> k = b mod 8"
  by (auto simp: bit_of_byte_def bit_exp_iff)

lemma same_bit: "i div 8 = b div 8 \<and> i mod 8 = b mod 8 \<longleftrightarrow> i = (b :: nat)"
  by (metis div_mult_mod_eq)

lemma bit_byte_inside:
  assumes "bitmap_ok bm" "b < n_bits bm"
  shows "b div 8 < length (bitmap bm)"
proof -
  have "b < 8 * (4 * (last_word_ptr bm + 1))" using bitmap_okD(2) [OF assms(1)] assms(2) by simp
  also have "\<dots> \<le> 8 * length (bitmap bm)" by (rule mult_le_mono2 [OF bitmap_okD(4) [OF assms(1)]])
  finally have "b < 8 * length (bitmap bm)" .
  then show ?thesis by (simp add: div_less_iff_less_mult mult.commute)
qed

lemma change_byte_set:
  assumes ok: "bitmap_ok bm" and b: "b < n_bits bm"
    and f: "\<And>v k. k < 8 \<Longrightarrow> bit (f v) k = (if k = b mod 8 then g (bit v k) else bit v k)"
  shows "\<exists>bm'. change_byte f bm b = Some bm' \<and> bitmap_ok bm' \<and> n_bits bm' = n_bits bm \<and>
    bits_of bm' = (if g (b \<in> bits_of bm) then insert b (bits_of bm) else bits_of bm - {b})"
proof -
  let ?m = "(bitmap bm)[b div 8 := f (bitmap bm ! (b div 8))]"
  note ins = bit_byte_inside [OF ok b]
  have "bit_at ?m i \<longleftrightarrow> (if i = b then g (bit_at (bitmap bm) b) else bit_at (bitmap bm) i)" for i
  proof (cases "i div 8 = b div 8")
    case True
    then have "bit_at ?m i \<longleftrightarrow> bit (f (bitmap bm ! (b div 8))) (i mod 8)" by (simp add: bit_at_update [OF ins])
    moreover have "i mod 8 = b mod 8 \<longleftrightarrow> i = b" using same_bit [of i b] True by simp
    ultimately show ?thesis using f [of "i mod 8" "bitmap bm ! (b div 8)"] True by (simp add: bit_at_def)
  next
    case False
    then have "i \<noteq> b" by blast
    then show ?thesis using False by (simp add: bit_at_update [OF ins])
  qed
  then have "bits_of (bm\<lparr>bitmap := ?m\<rparr>) = (if g (b \<in> bits_of bm) then insert b (bits_of bm) else bits_of bm - {b})"
    using b by (auto simp: bits_of_def)
  moreover have "change_byte f bm b = Some (bm\<lparr>bitmap := ?m\<rparr>)" using ins by (simp add: change_byte_def)
  moreover have "bitmap_ok (bm\<lparr>bitmap := ?m\<rparr>)" by (rule bitmap_ok_update [OF ok]) simp
  ultimately show ?thesis by simp
qed

lemma bitmap_single_bits:
  assumes ok: "bitmap_ok bm" and b: "b < n_bits bm"
  shows "\<exists>bm'. bitmap_set_bit bm b = Some bm' \<and> bitmap_ok bm' \<and> n_bits bm' = n_bits bm \<and> bits_of bm' = insert b (bits_of bm)"
    and "\<exists>bm'. bitmap_clear_bit bm b = Some bm' \<and> bitmap_ok bm' \<and> n_bits bm' = n_bits bm \<and> bits_of bm' = bits_of bm - {b}"
    and "\<exists>bm'. bitmap_flip_bit bm b = Some bm' \<and> bitmap_ok bm' \<and> n_bits bm' = n_bits bm \<and>
      bits_of bm' = (if b \<in> bits_of bm then bits_of bm - {b} else insert b (bits_of bm))"
    and "\<exists>r. bitmap_is_set bm b = Some r \<and> (r \<noteq> 0 \<longleftrightarrow> b \<in> bits_of bm)"
proof -
  show "\<exists>bm'. bitmap_set_bit bm b = Some bm' \<and> bitmap_ok bm' \<and> n_bits bm' = n_bits bm \<and> bits_of bm' = insert b (bits_of bm)"
    using change_byte_set [OF ok b, of "\<lambda>v. v OR bit_of_byte b" "\<lambda>_. True"] b
    by (simp add: bitmap_set_bit_def bit_or_iff bit_of_byte_iff)
  show "\<exists>bm'. bitmap_clear_bit bm b = Some bm' \<and> bitmap_ok bm' \<and> n_bits bm' = n_bits bm \<and> bits_of bm' = bits_of bm - {b}"
    using change_byte_set [OF ok b, of "\<lambda>v. v AND NOT (bit_of_byte b)" "\<lambda>_. False"] b
    by (simp add: bitmap_clear_bit_def bit_and_iff bit_not_iff bit_of_byte_iff)
  show "\<exists>bm'. bitmap_flip_bit bm b = Some bm' \<and> bitmap_ok bm' \<and> n_bits bm' = n_bits bm \<and>
      bits_of bm' = (if b \<in> bits_of bm then bits_of bm - {b} else insert b (bits_of bm))"
  proof -
    have "bit (v XOR bit_of_byte b) k = (if k = b mod 8 then \<not> bit v k else bit v k)" for v k
      by (auto simp: bit_xor_iff bit_of_byte_iff)
    then show ?thesis using change_byte_set [OF ok b, of "\<lambda>v. v XOR bit_of_byte b" Not] b
      by (auto simp: bitmap_flip_bit_def)
  qed
  have "(v AND bit_of_byte b \<noteq> 0) \<longleftrightarrow> bit v (b mod 8)" for v :: u8
  proof
    assume "bit v (b mod 8)"
    then have "bit (v AND bit_of_byte b) (b mod 8)" by (simp add: bit_and_iff bit_of_byte_iff)
    then show "v AND bit_of_byte b \<noteq> 0" by (metis bit_0_eq bot_apply bot_bool_def)
  next
    assume "v AND bit_of_byte b \<noteq> 0"
    then show "bit v (b mod 8)" by (rule contrapos_np) (auto intro!: bit_eqI simp: bit_and_iff bit_of_byte_iff)
  qed
  then show "\<exists>r. bitmap_is_set bm b = Some r \<and> (r \<noteq> 0 \<longleftrightarrow> b \<in> bits_of bm)"
    using b bit_byte_inside [OF ok b] by (simp add: bitmap_is_set_def bits_of_def bit_at_def)
qed

lemma bitmap_test_and_change:
  assumes ok: "bitmap_ok bm" and b: "b < n_bits bm"
  shows "\<exists>r bm'. bitmap_test_and_set bm b = Some (r, bm') \<and> (r \<noteq> 0 \<longleftrightarrow> b \<in> bits_of bm) \<and> bitmap_ok bm' \<and>
      n_bits bm' = n_bits bm \<and> bits_of bm' = insert b (bits_of bm)"
    and "\<exists>r bm'. bitmap_test_and_clear bm b = Some (r, bm') \<and> (r \<noteq> 0 \<longleftrightarrow> b \<in> bits_of bm) \<and> bitmap_ok bm' \<and>
      n_bits bm' = n_bits bm \<and> bits_of bm' = bits_of bm - {b}"
proof -
  note ins = bit_byte_inside [OF ok b]
  have "bitmap_test_and_set bm b = do { r \<leftarrow> bitmap_is_set bm b; bm' \<leftarrow> bitmap_set_bit bm b; Some (r, bm') }"
    "bitmap_test_and_clear bm b = do { r \<leftarrow> bitmap_is_set bm b; bm' \<leftarrow> bitmap_clear_bit bm b; Some (r, bm') }"
    using ins b by (simp_all add: bitmap_test_and_set_def bitmap_fast_test_and_set_def bitmap_test_and_clear_def
        bitmap_fast_test_and_clear_def bitmap_is_set_def bitmap_set_bit_def bitmap_clear_bit_def change_byte_def)
  then show "\<exists>r bm'. bitmap_test_and_set bm b = Some (r, bm') \<and> (r \<noteq> 0 \<longleftrightarrow> b \<in> bits_of bm) \<and> bitmap_ok bm' \<and>
      n_bits bm' = n_bits bm \<and> bits_of bm' = insert b (bits_of bm)"
    "\<exists>r bm'. bitmap_test_and_clear bm b = Some (r, bm') \<and> (r \<noteq> 0 \<longleftrightarrow> b \<in> bits_of bm) \<and> bitmap_ok bm' \<and>
      n_bits bm' = n_bits bm \<and> bits_of bm' = bits_of bm - {b}"
    using bitmap_single_bits [OF ok b] by auto
qed

section \<open>Tests\<close>

lemma word_eq_ones: "(w :: u32) = 0xFFFFFFFF \<longleftrightarrow> (\<forall>k<32. bit w k)"
  using bit_ones by (auto simp only: bit_eq_iff [of w] possible_bit_word len_num1 dest: bit_imp_le_length) auto

lemma word_eq_zero: "(w :: u32) = 0 \<longleftrightarrow> (\<forall>k<32. \<not> bit w k)"
  by (auto simp: bit_eq_iff [of w])

lemma all_bits_words:
  assumes ok: "bitmap_ok bm"
  shows "(\<forall>i<n_bits bm. Q i) \<longleftrightarrow> (\<forall>j<last_word_ptr bm. \<forall>k<32. Q (32 * j + k)) \<and>
    (\<forall>k<32. \<not> bit (last_word_mask bm) k \<longrightarrow> Q (32 * last_word_ptr bm + k))"
proof (intro iffI conjI allI impI)
  fix j k :: nat
  assume a: "\<forall>i<n_bits bm. Q i" and jk: "j < last_word_ptr bm" "k < 32"
  then have "32 * j + k < 32 * last_word_ptr bm" by linarith
  then show "Q (32 * j + k)" using a bitmap_okD(1) [OF ok] by simp
next
  fix k :: nat
  assume a: "\<forall>i<n_bits bm. Q i" and k: "k < 32" "\<not> bit (last_word_mask bm) k"
  then show "Q (32 * last_word_ptr bm + k)" using bitmap_okD(5) [OF ok k(1)] by simp
next
  fix i
  assume a: "(\<forall>j<last_word_ptr bm. \<forall>k<32. Q (32 * j + k)) \<and>
    (\<forall>k<32. \<not> bit (last_word_mask bm) k \<longrightarrow> Q (32 * last_word_ptr bm + k))" and i: "i < n_bits bm"
  have e: "i = 32 * (i div 32) + i mod 32" by simp
  have "i div 32 < last_word_ptr bm \<or> i div 32 = last_word_ptr bm \<and> \<not> bit (last_word_mask bm) (i mod 32)"
    using bit_in_use [OF ok] bit_word_index [OF ok i] i by auto
  then show "Q i" using a e by (metis mod_less_divisor zero_less_numeral)
qed

lemma find_word_last:
  assumes ok: "bitmap_ok bm"
  obtains j where "find_word P (bitmap bm) 0 (last_word_ptr bm) = Some j" "j \<le> last_word_ptr bm"
    "\<forall>k<j. \<not> P (word_at (bitmap bm) k)" "j < last_word_ptr bm \<longrightarrow> P (word_at (bitmap bm) j)"
    "get_word (bitmap bm) j = Some (word_at (bitmap bm) j)"
proof -
  have "4 * last_word_ptr bm \<le> length (bitmap bm)" using bitmap_okD(4) [OF ok] by simp
  from find_word_eq [OF this, of 0 P] obtain j where j: "find_word P (bitmap bm) 0 (last_word_ptr bm) = Some j"
    "j \<le> last_word_ptr bm" "\<forall>k<j. \<not> P (word_at (bitmap bm) k)" "j < last_word_ptr bm \<longrightarrow> P (word_at (bitmap bm) j)" by auto
  moreover have "get_word (bitmap bm) j = Some (word_at (bitmap bm) j)"
    using j(2) bitmap_okD(4) [OF ok] by (intro get_word_eq) simp
  ultimately show ?thesis by (rule that)
qed

text \<open>A test of all words for \<open>\<not> P\<close>, where \<open>P\<close> says that a word has a bit with \<open>Q\<close>.\<close>

lemma last_word_get: "bitmap_ok bm \<Longrightarrow> get_word (bitmap bm) (last_word_ptr bm) = Some (word_at (bitmap bm) (last_word_ptr bm))"
  using bitmap_okD(4) [of bm] by (intro get_word_eq) simp

lemma bitmap_is_set_all_iff:
  assumes ok: "bitmap_ok bm"
  shows "bitmap_is_set_all bm = Some (bits_of bm = {..<n_bits bm})"
proof -
  let ?m = "bitmap bm" and ?L = "last_word_ptr bm"
  obtain j where j: "find_word (\<lambda>w. w \<noteq> 0xFFFFFFFF) ?m 0 ?L = Some j" "j \<le> ?L"
    "\<forall>k<j. \<not> word_at ?m k \<noteq> 0xFFFFFFFF" "j < ?L \<longrightarrow> word_at ?m j \<noteq> 0xFFFFFFFF"
    by (rule find_word_last [OF ok])
  have "bits_of bm = {..<n_bits bm} \<longleftrightarrow> (\<forall>i<n_bits bm. bit_at ?m i)" by (auto simp: bits_of_def)
  also have "\<dots> \<longleftrightarrow> (\<forall>j<?L. word_at ?m j = 0xFFFFFFFF) \<and> word_at ?m ?L OR last_word_mask bm = 0xFFFFFFFF"
    unfolding all_bits_words [OF ok] word_eq_ones by (auto simp: bit_word_at bit_or_iff)
  also have "\<dots> \<longleftrightarrow> \<not> j < ?L \<and> word_at ?m ?L OR last_word_mask bm = 0xFFFFFFFF"
    using j(2-4) by (metis linorder_not_less order.strict_trans2)
  finally show ?thesis using j(1) last_word_get [OF ok] by (simp add: bitmap_is_set_all_def)
qed

lemma bitmap_is_clear_all_iff:
  assumes ok: "bitmap_ok bm"
  shows "bitmap_is_clear_all bm = Some (bits_of bm = {})"
proof -
  let ?m = "bitmap bm" and ?L = "last_word_ptr bm"
  obtain j where j: "find_word (\<lambda>w. w \<noteq> 0) ?m 0 ?L = Some j" "j \<le> ?L"
    "\<forall>k<j. \<not> word_at ?m k \<noteq> 0" "j < ?L \<longrightarrow> word_at ?m j \<noteq> 0"
    by (rule find_word_last [OF ok])
  have "bits_of bm = {} \<longleftrightarrow> (\<forall>i<n_bits bm. \<not> bit_at ?m i)" by (auto simp: bits_of_def)
  also have "\<dots> \<longleftrightarrow> (\<forall>j<?L. word_at ?m j = 0) \<and> word_at ?m ?L AND NOT (last_word_mask bm) = 0"
    unfolding all_bits_words [OF ok] word_eq_zero by (auto simp: bit_word_at bit_and_iff bit_not_iff)
  also have "\<dots> \<longleftrightarrow> \<not> j < ?L \<and> word_at ?m ?L AND NOT (last_word_mask bm) = 0"
    using j(2-4) by (metis linorder_not_less order.strict_trans2)
  finally show ?thesis using j(1) last_word_get [OF ok] by (simp add: bitmap_is_clear_all_def)
qed

lemma same_size_last:
  assumes "bitmap_ok bm1" "bitmap_ok bm2" "n_bits bm1 = n_bits bm2"
  shows "last_word_ptr bm2 = last_word_ptr bm1" "last_word_mask bm2 = last_word_mask bm1"
proof -
  show l: "last_word_ptr bm2 = last_word_ptr bm1"
    using bitmap_ok_words [OF assms(1)] bitmap_ok_words [OF assms(2)] assms(3) by (simp add: no_words_in_map_def)
  show "last_word_mask bm2 = last_word_mask bm1"
    using bitmap_okD(5) [OF assms(1)] bitmap_okD(5) [OF assms(2)] assms(3) l
    by (intro bit_eqI) simp
qed

lemma find_word2_last:
  assumes ok: "bitmap_ok bm1" "bitmap_ok bm2" "n_bits bm1 = n_bits bm2"
  obtains j where "find_word2 P (bitmap bm1) (bitmap bm2) 0 (last_word_ptr bm1) = Some j" "j \<le> last_word_ptr bm1"
    "\<forall>k<j. \<not> P (word_at (bitmap bm1) k) (word_at (bitmap bm2) k)"
    "j < last_word_ptr bm1 \<longrightarrow> P (word_at (bitmap bm1) j) (word_at (bitmap bm2) j)"
proof -
  have "4 * last_word_ptr bm1 \<le> length (bitmap bm1)" "4 * last_word_ptr bm1 \<le> length (bitmap bm2)"
    using bitmap_okD(4) [OF ok(1)] bitmap_okD(4) [OF ok(2)] same_size_last(1) [OF ok] by simp_all
  from find_word2_eq [OF this, of 0 P] show ?thesis using that by auto
qed

lemma bitmap_is_subset_iff:
  assumes ok: "bitmap_ok bm1" "bitmap_ok bm2" "n_bits bm1 = n_bits bm2"
  shows "bitmap_is_subset bm1 bm2 = Some (bits_of bm1 \<subseteq> bits_of bm2)"
proof -
  let ?m1 = "bitmap bm1" and ?m2 = "bitmap bm2" and ?L = "last_word_ptr bm1"
  note s = same_size_last [OF ok]
  obtain j where j: "find_word2 (\<lambda>v w. v AND NOT w \<noteq> 0) ?m1 ?m2 0 ?L = Some j" "j \<le> ?L"
    "\<forall>k<j. \<not> word_at ?m1 k AND NOT (word_at ?m2 k) \<noteq> 0" "j < ?L \<longrightarrow> word_at ?m1 j AND NOT (word_at ?m2 j) \<noteq> 0"
    by (rule find_word2_last [OF ok])
  have "bits_of bm1 \<subseteq> bits_of bm2 \<longleftrightarrow> (\<forall>i<n_bits bm1. bit_at ?m1 i \<longrightarrow> bit_at ?m2 i)" using ok(3) by (auto simp: bits_of_def)
  also have "\<dots> \<longleftrightarrow> (\<forall>j<?L. word_at ?m1 j AND NOT (word_at ?m2 j) = 0) \<and>
      (word_at ?m1 ?L AND NOT (last_word_mask bm1)) AND NOT (word_at ?m2 ?L AND NOT (last_word_mask bm2)) = 0"
    unfolding all_bits_words [OF ok(1)] word_eq_zero s(2) by (auto simp: bit_word_at bit_and_iff bit_or_iff bit_not_iff)
  also have "\<dots> \<longleftrightarrow> \<not> j < ?L \<and>
      (word_at ?m1 ?L AND NOT (last_word_mask bm1)) AND NOT (word_at ?m2 ?L AND NOT (last_word_mask bm2)) = 0"
    using j(2-4) by (metis linorder_not_less order.strict_trans2)
  finally show ?thesis using j(1) ok(3) last_word_get [OF ok(1)] last_word_get [OF ok(2)] s(1)
    by (simp add: bitmap_is_subset_def)
qed

lemma bitmap_is_overlapping_iff:
  assumes ok: "bitmap_ok bm1" "bitmap_ok bm2" "n_bits bm1 = n_bits bm2"
  shows "bitmap_is_overlapping bm1 bm2 = Some (bits_of bm1 \<inter> bits_of bm2 \<noteq> {})"
proof -
  let ?m1 = "bitmap bm1" and ?m2 = "bitmap bm2" and ?L = "last_word_ptr bm1"
  note s = same_size_last [OF ok]
  obtain j where j: "find_word2 (\<lambda>v w. v AND w \<noteq> 0) ?m1 ?m2 0 ?L = Some j" "j \<le> ?L"
    "\<forall>k<j. \<not> word_at ?m1 k AND word_at ?m2 k \<noteq> 0" "j < ?L \<longrightarrow> word_at ?m1 j AND word_at ?m2 j \<noteq> 0"
    by (rule find_word2_last [OF ok])
  have "bits_of bm1 \<inter> bits_of bm2 = {} \<longleftrightarrow> (\<forall>i<n_bits bm1. \<not> (bit_at ?m1 i \<and> bit_at ?m2 i))"
    using ok(3) by (auto simp: bits_of_def)
  also have "\<dots> \<longleftrightarrow> (\<forall>j<?L. word_at ?m1 j AND word_at ?m2 j = 0) \<and>
      (word_at ?m1 ?L AND NOT (last_word_mask bm1)) AND (word_at ?m2 ?L AND NOT (last_word_mask bm2)) = 0"
    unfolding all_bits_words [OF ok(1)] word_eq_zero s(2) by (auto simp: bit_word_at bit_and_iff bit_or_iff bit_not_iff)
  also have "\<dots> \<longleftrightarrow> \<not> j < ?L \<and>
      (word_at ?m1 ?L AND NOT (last_word_mask bm1)) AND (word_at ?m2 ?L AND NOT (last_word_mask bm2)) = 0"
    using j(2-4) by (metis linorder_not_less order.strict_trans2)
  finally show ?thesis using j(1) ok(3) last_word_get [OF ok(1)] last_word_get [OF ok(2)] s(1)
    by (simp add: bitmap_is_overlapping_def)
qed

lemma byte_eq_iff: "(x :: u8) = y \<longleftrightarrow> (\<forall>k<8. bit x k = bit y k)"
  by (auto simp: bit_eq_iff)

lemma take_bytes_eq_iff:
  assumes "4 * L \<le> length m" "4 * L \<le> length m2"
  shows "take (4 * L) m = take (4 * L) m2 \<longleftrightarrow> (\<forall>j<L. \<forall>k<32. bit_at m (32 * j + k) = bit_at m2 (32 * j + k))"
proof -
  have "take (4 * L) m = take (4 * L) m2 \<longleftrightarrow> (\<forall>b<4 * L. m ! b = m2 ! b)"
    using assms by (auto simp: list_eq_iff_nth_eq)
  also have "\<dots> \<longleftrightarrow> (\<forall>j<L. \<forall>k<32. bit_at m (32 * j + k) = bit_at m2 (32 * j + k))"
  proof
    assume a: "\<forall>b<4 * L. m ! b = m2 ! b"
    show "\<forall>j<L. \<forall>k<32. bit_at m (32 * j + k) = bit_at m2 (32 * j + k)"
    proof (intro allI impI)
      fix j k :: nat
      assume jk: "j < L" "k < 32"
      then have "(32 * j + k) div 8 < 4 * L" by (simp add: div_less_iff_less_mult)
      then show "bit_at m (32 * j + k) = bit_at m2 (32 * j + k)" using a by (simp add: bit_at_def)
    qed
  next
    assume a: "\<forall>j<L. \<forall>k<32. bit_at m (32 * j + k) = bit_at m2 (32 * j + k)"
    show "\<forall>b<4 * L. m ! b = m2 ! b" unfolding byte_eq_iff
    proof (intro allI impI)
      fix b k :: nat
      assume b: "b < 4 * L" and k: "k < 8"
      have "b = 4 * (b div 4) + b mod 4" by simp
      then have e: "8 * b + k = 32 * (b div 4) + (8 * (b mod 4) + k)" by linarith
      have "b div 4 < L" using b by (simp add: div_less_iff_less_mult mult.commute)
      moreover have "8 * (b mod 4) + k < 32" using k mod_less_divisor [of 4 b] by linarith
      ultimately have "bit_at m (8 * b + k) = bit_at m2 (8 * b + k)" using a unfolding e by blast
      then show "bit (m ! b) k = bit (m2 ! b) k" using k by (simp add: bit_at_def)
    qed
  qed
  finally show ?thesis .
qed

lemma bitmap_cmp_iff:
  assumes ok: "bitmap_ok bm1" "bitmap_ok bm2" "n_bits bm1 = n_bits bm2"
  shows "bitmap_cmp bm1 bm2 = Some (bits_of bm1 = bits_of bm2)"
proof -
  let ?m1 = "bitmap bm1" and ?m2 = "bitmap bm2" and ?L = "last_word_ptr bm1"
  note s = same_size_last [OF ok]
  have len: "4 * ?L \<le> length ?m1" "4 * ?L \<le> length ?m2"
    using bitmap_okD(4) [OF ok(1)] bitmap_okD(4) [OF ok(2)] s(1) by simp_all
  have "bits_of bm1 = bits_of bm2 \<longleftrightarrow> (\<forall>i<n_bits bm1. bit_at ?m1 i = bit_at ?m2 i)" using ok(3) by (auto simp: bits_of_def)
  also have "\<dots> \<longleftrightarrow> take (4 * ?L) ?m1 = take (4 * ?L) ?m2 \<and>
      word_at ?m1 ?L OR last_word_mask bm1 = word_at ?m2 ?L OR last_word_mask bm2"
    unfolding all_bits_words [OF ok(1)] take_bytes_eq_iff [OF len] s(2)
    by (auto simp: bit_eq_iff [of "word_at ?m1 ?L OR last_word_mask bm1"] bit_word_at bit_or_iff)
  finally show ?thesis using len last_word_get [OF ok(1)] last_word_get [OF ok(2)] s(1) bitmap_ok_words [OF ok(1)]
    by (simp add: bitmap_cmp_def Let_def)
qed

section \<open>Searching\<close>

lemma first_bit_eq:
  assumes "P k" "pos \<le> k" "\<And>i. pos \<le> i \<Longrightarrow> i < k \<Longrightarrow> \<not> P i"
  shows "first_bit P pos = Some k"
  using assms
proof (induction "k - pos" arbitrary: pos)
  case 0
  then show ?case by (subst first_bit.simps) simp
next
  case (Suc n)
  then have "\<not> P pos" by simp
  moreover have "first_bit P (pos + 1) = Some k" using Suc.hyps(2) Suc.prems by (intro Suc.hyps(1)) auto
  ultimately show ?case by (subst first_bit.simps) simp
qed

lemma least_below:
  assumes "\<exists>k<n. P k"
  obtains k where "k < (n :: nat)" "P k" "\<forall>i<k. \<not> P i"
proof -
  have "P (LEAST k. P k)" using assms by (meson LeastI)
  moreover have "(LEAST k. P k) < n" using assms by (meson Least_le le_less_trans)
  ultimately show ?thesis using that not_less_Least by blast
qed

lemma first_byte_spec:
  assumes skip: "\<And>b. skip b \<longleftrightarrow> (\<forall>k<8. \<not> P b k)"
  shows "(\<forall>x<8 * length bs. \<not> P (bs ! (x div 8)) (x mod 8)) \<and> first_byte skip P wp bp bs = Some MY_BIT_NONE \<or>
    (\<exists>x<8 * length bs. P (bs ! (x div 8)) (x mod 8) \<and> (\<forall>y<x. \<not> P (bs ! (y div 8)) (y mod 8)) \<and>
       first_byte skip P wp bp bs = Some (uint_wrap (wp * 32 + bp * 8 + x)))"
proof (induction bs arbitrary: bp)
  case (Cons b bs)
  show ?case
  proof (cases "skip b")
    case True
    have low: "\<not> P ((b # bs) ! (x div 8)) (x mod 8)" if "x < 8" for x using True that skip by simp
    have high: "(b # bs) ! (x div 8) = bs ! ((x - 8) div 8)" "(x - 8) mod 8 = x mod 8" if "\<not> x < 8" for x
      using that by (simp_all add: div_if mod_if)
    from Cons.IH [of "bp + 1"] show ?thesis
    proof (elim disjE conjE exE)
      assume a: "\<forall>x<8 * length bs. \<not> P (bs ! (x div 8)) (x mod 8)" "first_byte skip P wp (bp + 1) bs = Some MY_BIT_NONE"
      have "\<not> P ((b # bs) ! (x div 8)) (x mod 8)" if "x < 8 * length (b # bs)" for x
        using a(1) [rule_format, of "x - 8"] that low [of x] high [of x] by (cases "x < 8") auto
      then show ?thesis using True a(2) by simp
    next
      fix x
      assume a: "x < 8 * length bs" "P (bs ! (x div 8)) (x mod 8)" "\<forall>y<x. \<not> P (bs ! (y div 8)) (y mod 8)"
        "first_byte skip P wp (bp + 1) bs = Some (uint_wrap (wp * 32 + (bp + 1) * 8 + x))"
      have "\<not> P ((b # bs) ! (y div 8)) (y mod 8)" if "y < x + 8" for y
        using a(3) [rule_format, of "y - 8"] that low [of y] high [of y] by (cases "y < 8") auto
      moreover have d: "(x + 8) div 8 = Suc (x div 8)" "(x + 8) mod 8 = x mod 8" by simp_all
      ultimately have "x + 8 < 8 * length (b # bs) \<and> P ((b # bs) ! ((x + 8) div 8)) ((x + 8) mod 8) \<and>
          (\<forall>y<x + 8. \<not> P ((b # bs) ! (y div 8)) (y mod 8)) \<and>
          first_byte skip P wp bp (b # bs) = Some (uint_wrap (wp * 32 + bp * 8 + (x + 8)))"
        using True a unfolding d by (simp add: algebra_simps)
      then show ?thesis by blast
    qed
  next
    case False
    then have "\<exists>k<8. P b k" using skip by blast
    then obtain k where k: "k < 8" "P b k" "\<forall>i<k. \<not> P b i" by (rule least_below)
    have "first_bit (P b) 0 = Some k" using k by (intro first_bit_eq) auto
    then have "k < 8 * length (b # bs) \<and> P ((b # bs) ! (k div 8)) (k mod 8) \<and>
        (\<forall>y<k. \<not> P ((b # bs) ! (y div 8)) (y mod 8)) \<and>
        first_byte skip P wp bp (b # bs) = Some (uint_wrap (wp * 32 + bp * 8 + k))"
      using False k by simp
    then show ?thesis by blast
  qed
qed simp

lemma byte_has_iff: "byte_has b k \<longleftrightarrow> bit b k"
proof
  assume "byte_has b k"
  then show "bit b k" unfolding byte_has_def
    by (rule contrapos_np) (auto intro!: bit_eqI simp: bit_and_iff bit_unsigned_iff bit_exp_iff)
next
  assume b: "bit b k"
  then have "k < 8" using bit_imp_le_length [of b k] by simp
  then have "bit ((ucast b :: u32) AND push_bit k 1) k" using b by (simp add: bit_and_iff bit_unsigned_iff bit_exp_iff)
  then show "byte_has b k" unfolding byte_has_def by (metis bit_0_eq bot_apply bot_bool_def)
qed

lemma word_bytes_bit: "x < 32 \<Longrightarrow> bit (word_bytes v ! (x div 8)) (x mod 8) = bit v x"
  by (simp add: word_bytes_nth div_less_iff_less_mult bit_unsigned_iff bit_drop_bit_eq)

lemma get_first_set_spec:
  "v = 0 \<and> get_first_set v wp = Some MY_BIT_NONE \<or>
   (\<exists>x<32. bit v x \<and> (\<forall>y<x. \<not> bit v y) \<and> get_first_set v wp = Some (uint_wrap (wp * 32 + x)))"
proof -
  have l: "8 * length (word_bytes v) = 32" by (simp add: word_bytes_def)
  have "b = 0 \<longleftrightarrow> (\<forall>k<8. \<not> byte_has b k)" for b :: u8 by (simp add: byte_has_iff byte_eq_iff)
  from first_byte_spec [of "\<lambda>b. b = 0" byte_has "word_bytes v" wp 0, OF this]
  show ?thesis unfolding l get_first_set_def byte_has_iff word_eq_zero
    by (auto simp: word_bytes_bit)
qed

lemma get_first_not_set_spec:
  "v = 0xFFFFFFFF \<and> get_first_not_set v wp = Some MY_BIT_NONE \<or>
   (\<exists>x<32. \<not> bit v x \<and> (\<forall>y<x. bit v y) \<and> get_first_not_set v wp = Some (uint_wrap (wp * 32 + x)))"
proof -
  have l: "8 * length (word_bytes v) = 32" by (simp add: word_bytes_def)
  have f: "bit (0xFF :: u8) k \<longleftrightarrow> k < 8" for k
  proof -
    have "(0xFF :: u8) = - 1" by simp
    then show ?thesis unfolding \<open>(0xFF :: u8) = - 1\<close> by (simp add: bit_minus_1_iff)
  qed
  have "b = 0xFF \<longleftrightarrow> (\<forall>k<8. \<not> \<not> byte_has b k)" for b :: u8 by (simp only: byte_has_iff byte_eq_iff f) simp
  from first_byte_spec [of "\<lambda>b. b = 0xFF" "\<lambda>b k. \<not> byte_has b k" "word_bytes v" wp 0, OF this]
  show ?thesis unfolding l get_first_not_set_def byte_has_iff word_eq_ones
    by (auto simp: word_bytes_bit)
qed

lemma min_in_words:
  fixes j x n :: nat
  assumes "32 * j + x < n" "Q (32 * j + x)" "\<And>k y. k < j \<Longrightarrow> y < 32 \<Longrightarrow> \<not> Q (32 * k + y)"
    and "\<And>y. y < x \<Longrightarrow> \<not> (32 * j + y < n \<and> Q (32 * j + y))"
  shows "Min {i. i < n \<and> Q i} = 32 * j + x \<and> {i. i < n \<and> Q i} \<noteq> {}"
proof
  show "Min {i. i < n \<and> Q i} = 32 * j + x"
  proof (rule Min_eqI)
    fix i
    assume i: "i \<in> {i. i < n \<and> Q i}"
    have e: "32 * (i div 32) + i mod 32 = i" by simp
    show "32 * j + x \<le> i"
    proof (rule ccontr)
      assume lt: "\<not> 32 * j + x \<le> i"
      show False
      proof (cases "i div 32 < j")
        case True
        then show False using assms(3) [of "i div 32" "i mod 32"] i unfolding e by simp
      next
        case False
        then have "32 * j \<le> i" using e by linarith
        then have "\<exists>y<x. i = 32 * j + y" using lt by (intro exI [of _ "i - 32 * j"]) auto
        then show False using assms(4) i by auto
      qed
    qed
  qed (use assms in auto)
qed (use assms(1,2) in blast)

lemma uint_wrap_id: "n < 2 ^ 32 \<Longrightarrow> uint_wrap n = n"
  by (simp add: uint_wrap_def)

lemma bit_index_small: "bitmap_ok bm \<Longrightarrow> i < n_bits bm \<Longrightarrow> i < 2 ^ 32"
  using bitmap_okD(3) [of bm] by linarith

lemma word_bit_in_use:
  assumes ok: "bitmap_ok bm" and "j \<le> last_word_ptr bm" "x < 32"
    and "j < last_word_ptr bm \<or> \<not> bit (last_word_mask bm) x"
  shows "32 * j + x < n_bits bm"
  using assms bit_in_use [OF ok, of "32 * j + x"] by simp

lemma bitmap_get_first_set_min:
  assumes ok: "bitmap_ok bm"
  shows "bitmap_get_first_set bm = Some (if bits_of bm = {} then MY_BIT_NONE else Min (bits_of bm))"
proof -
  let ?m = "bitmap bm" and ?L = "last_word_ptr bm"
  obtain j where j: "find_word (\<lambda>w. w \<noteq> 0) ?m 0 ?L = Some j" "j \<le> ?L"
    "\<forall>k<j. \<not> word_at ?m k \<noteq> 0" "j < ?L \<longrightarrow> word_at ?m j \<noteq> 0" "get_word ?m j = Some (word_at ?m j)"
    by (rule find_word_last [OF ok])
  define v where "v = (if j < ?L then word_at ?m j else word_at ?m j AND NOT (last_word_mask bm))"
  have r: "bitmap_get_first_set bm = get_first_set v j"
    using j(1,5) by (simp add: bitmap_get_first_set_def v_def)
  have v: "bit v x \<longleftrightarrow> x < 32 \<and> bit_at ?m (32 * j + x) \<and> 32 * j + x < n_bits bm" for x
    using bit_in_use [OF ok, of "32 * j + x"] j(2)
    by (auto simp: v_def bit_and_iff bit_not_iff bit_word_at)
  have below: "\<not> bit_at ?m (32 * k + y)" if "k < j" "y < 32" for k y
    using j(3) that by (auto simp: word_eq_zero bit_word_at)
  from get_first_set_spec [of v j] show ?thesis
  proof (elim disjE conjE exE)
    assume a: "v = 0" "get_first_set v j = Some MY_BIT_NONE"
    have "j = ?L"
      using a(1) j(2,4) unfolding v_def by (metis le_neq_implies_less)
    have "bits_of bm = {}"
    proof (rule ccontr)
      assume "bits_of bm \<noteq> {}"
      then obtain i where i: "i < n_bits bm" "bit_at ?m i" by (auto simp: bits_of_def)
      have e: "32 * (i div 32) + i mod 32 = i" by simp
      have "\<not> i div 32 < j" using below [of "i div 32" "i mod 32"] i(2) unfolding e by auto
      then have "i div 32 = j" using bit_word_index [OF ok i(1)] \<open>j = ?L\<close> by simp
      then have "bit v (i mod 32)" using i e by (simp add: v)
      then show False using a(1) by simp
    qed
    then show ?thesis using a(2) r by simp
  next
    fix x
    assume x: "x < 32" "bit v x" "\<forall>y<x. \<not> bit v y" "get_first_set v j = Some (uint_wrap (j * 32 + x))"
    have "Min {i. i < n_bits bm \<and> bit_at ?m i} = 32 * j + x \<and> {i. i < n_bits bm \<and> bit_at ?m i} \<noteq> {}"
      using x v below by (intro min_in_words) auto
    moreover have "uint_wrap (j * 32 + x) = 32 * j + x"
      using x(2) v bit_index_small [OF ok] by (auto simp: mult.commute intro: uint_wrap_id)
    ultimately show ?thesis using x(4) r unfolding bits_of_def by (simp only: if_False simp_thms)
  qed
qed

lemma bitmap_get_first_min:
  assumes ok: "bitmap_ok bm"
  shows "bitmap_get_first bm =
    Some (if bits_of bm = {..<n_bits bm} then MY_BIT_NONE else Min ({..<n_bits bm} - bits_of bm))"
proof -
  let ?m = "bitmap bm" and ?L = "last_word_ptr bm"
  have free: "{..<n_bits bm} - bits_of bm = {i. i < n_bits bm \<and> \<not> bit_at ?m i}" by (auto simp: bits_of_def)
  obtain j where j: "find_word (\<lambda>w. w \<noteq> 0xFFFFFFFF) ?m 0 ?L = Some j" "j \<le> ?L"
    "\<forall>k<j. \<not> word_at ?m k \<noteq> 0xFFFFFFFF" "j < ?L \<longrightarrow> word_at ?m j \<noteq> 0xFFFFFFFF" "get_word ?m j = Some (word_at ?m j)"
    by (rule find_word_last [OF ok])
  define v where "v = (if j < ?L then word_at ?m j else word_at ?m j OR last_word_mask bm)"
  have r: "bitmap_get_first bm = get_first_not_set v j"
    using j(1,5) by (simp add: bitmap_get_first_def v_def)
  have v: "\<not> bit v x \<longleftrightarrow> \<not> bit_at ?m (32 * j + x) \<and> 32 * j + x < n_bits bm" if "x < 32" for x
    using bit_in_use [OF ok, of "32 * j + x"] j(2) that by (auto simp: v_def bit_or_iff bit_word_at)
  have below: "bit_at ?m (32 * k + y)" if "k < j" "y < 32" for k y
    using j(3) that by (auto simp: word_eq_ones bit_word_at)
  from get_first_not_set_spec [of v j] show ?thesis
  proof (elim disjE conjE exE)
    assume a: "v = 0xFFFFFFFF" "get_first_not_set v j = Some MY_BIT_NONE"
    have "j = ?L" using a(1) j(2,4) unfolding v_def by (metis le_neq_implies_less)
    have "bit_at ?m i" if i: "i < n_bits bm" for i
    proof (rule ccontr)
      assume n: "\<not> bit_at ?m i"
      have e: "32 * (i div 32) + i mod 32 = i" by simp
      have "\<not> i div 32 < j" using below [of "i div 32" "i mod 32"] n unfolding e by auto
      then have "i div 32 = j" using bit_word_index [OF ok i] \<open>j = ?L\<close> by simp
      then have "\<not> bit v (i mod 32)" using i e n v [of "i mod 32"] by simp
      moreover have "bit v (i mod 32)" using a(1) [unfolded word_eq_ones] by simp
      ultimately show False by blast
    qed
    then have "bits_of bm = {..<n_bits bm}" by (auto simp: bits_of_def)
    then show ?thesis using a(2) r by simp
  next
    fix x
    assume x: "x < 32" "\<not> bit v x" "\<forall>y<x. bit v y" "get_first_not_set v j = Some (uint_wrap (j * 32 + x))"
    have "Min {i. i < n_bits bm \<and> \<not> bit_at ?m i} = 32 * j + x \<and> {i. i < n_bits bm \<and> \<not> bit_at ?m i} \<noteq> {}"
    proof (rule min_in_words)
      show "\<not> (32 * j + y < n_bits bm \<and> \<not> bit_at ?m (32 * j + y))" if "y < x" for y
        using x(1,3) v [of y] that by auto
    qed (use x(1,2) v [of x] below in auto)
    moreover have "uint_wrap (j * 32 + x) = 32 * j + x"
      using x(1,2) v [of x] bit_index_small [OF ok] by (auto simp: mult.commute intro: uint_wrap_id)
    moreover have "bits_of bm \<noteq> {..<n_bits bm}" using x(1,2) v [of x] by (auto simp: bits_of_def)
    ultimately show ?thesis using x(4) r unfolding free by simp
  qed
qed

section \<open>Counting\<close>

lemma count_words_eq:
  assumes "4 * e \<le> length m" "i \<le> e" "res < 2 ^ 32"
  shows "count_words m i e res = Some (uint_wrap (res + (\<Sum>j\<in>{i..<e}. bit_count (word_at m j))))"
  using assms
proof (induction "e - i" arbitrary: i res)
  case 0
  then show ?case by (subst count_words.simps) (simp add: uint_wrap_id)
next
  case (Suc n)
  then have i: "i < e" "get_word m i = Some (word_at m i)" by (auto intro: get_word_eq)
  let ?r = "uint_wrap (res + bit_count (word_at m i))"
  have r: "?r < 2 ^ 32" by (simp add: uint_wrap_def)
  have "count_words m i e res = count_words m (i + 1) e ?r"
    using i by (subst count_words.simps) (simp add: my_count_bits_uint32_eq)
  also have "\<dots> = Some (uint_wrap (?r + (\<Sum>j\<in>{i + 1..<e}. bit_count (word_at m j))))"
    using Suc.hyps(2) Suc.prems i r by (intro Suc.hyps(1)) auto
  also have "uint_wrap (?r + (\<Sum>j\<in>{i + 1..<e}. bit_count (word_at m j))) =
      uint_wrap (res + (bit_count (word_at m i) + (\<Sum>j\<in>{i + 1..<e}. bit_count (word_at m j))))"
    unfolding uint_wrap_def by (simp only: mod_add_left_eq add.assoc)
  also have "bit_count (word_at m i) + (\<Sum>j\<in>{i + 1..<e}. bit_count (word_at m j)) = (\<Sum>j\<in>{i..<e}. bit_count (word_at m j))"
    using i(1) by (simp add: sum.atLeast_Suc_lessThan)
  finally show ?case .
qed

lemma bitmap_bits_set_card:
  assumes ok: "bitmap_ok bm"
  shows "bitmap_bits_set bm = Some (card (bits_of bm))"
proof -
  let ?m = "bitmap bm" and ?L = "last_word_ptr bm"
  let ?w = "word_at ?m ?L AND NOT (last_word_mask bm)"
  have "bits_of bm = {i \<in> {..<32 * (?L + 1)}. i \<in> bits_of bm}"
    using bitmap_okD(2) [OF ok] by (auto simp: bits_of_def)
  then have "card (bits_of bm) = (\<Sum>i<(?L + 1) * 32. of_bool (i \<in> bits_of bm))"
    by (simp add: Int_def mult.commute)
  also have "\<dots> = (\<Sum>j<?L + 1. \<Sum>i\<in>{j * 32..<j * 32 + 32}. of_bool (i \<in> bits_of bm))"
    by (rule sum.nat_group [symmetric])
  also have "\<dots> = (\<Sum>j<?L + 1. \<Sum>k<32. of_bool (32 * j + k \<in> bits_of bm))"
  proof (rule sum.cong [OF refl])
    fix j
    show "(\<Sum>i\<in>{j * 32..<j * 32 + 32}. of_bool (i \<in> bits_of bm)) = (\<Sum>k<32. of_bool (32 * j + k \<in> bits_of bm) :: nat)"
      using sum.shift_bounds_nat_ivl [of "\<lambda>i. of_bool (i \<in> bits_of bm) :: nat" 0 "j * 32" 32]
      by (simp add: atLeast0LessThan ac_simps del: sum_of_bool_eq)
  qed
  also have "\<dots> = (\<Sum>j<?L. \<Sum>k<32. of_bool (32 * j + k \<in> bits_of bm)) + (\<Sum>k<32. of_bool (32 * ?L + k \<in> bits_of bm))"
    by (simp only: Suc_eq_plus1 [symmetric] sum.lessThan_Suc)
  also have "(\<Sum>j<?L. \<Sum>k<32. of_bool (32 * j + k \<in> bits_of bm) :: nat) = (\<Sum>j\<in>{0..<?L}. bit_count (word_at ?m j))"
    unfolding atLeast0LessThan bit_count_sum
    using word_bit_in_use [OF ok] by (intro sum.cong refl) (auto simp: bits_of_def bit_word_at)
  also have "(\<Sum>k<32. of_bool (32 * ?L + k \<in> bits_of bm) :: nat) = bit_count ?w"
    unfolding bit_count_sum using bitmap_okD(5) [OF ok]
    by (intro sum.cong) (auto simp: bits_of_def bit_word_at bit_and_iff bit_not_iff)
  finally have c: "card (bits_of bm) = (\<Sum>j\<in>{0..<?L}. bit_count (word_at ?m j)) + bit_count ?w" .
  have "card (bits_of bm) \<le> card {..<n_bits bm}" by (intro card_mono) (auto simp: bits_of_def)
  then have small: "card (bits_of bm) < 2 ^ 32" using bitmap_okD(3) [OF ok] by simp
  have "count_words ?m 0 ?L 0 = Some (uint_wrap (0 + (\<Sum>j\<in>{0..<?L}. bit_count (word_at ?m j))))"
    using bitmap_okD(4) [OF ok] by (intro count_words_eq) auto
  also have "uint_wrap (0 + (\<Sum>j\<in>{0..<?L}. bit_count (word_at ?m j))) = (\<Sum>j\<in>{0..<?L}. bit_count (word_at ?m j))"
    using small c by (simp add: uint_wrap_id)
  finally show ?thesis using small c last_word_get [OF ok]
    by (simp add: bitmap_bits_set_def my_count_bits_uint32_eq uint_wrap_id)
qed

section \<open>Prefixes\<close>

lemma word_at_bytes: "word_at (word_bytes w) 0 = w"
  by (intro bit_eqI) (simp add: bit_word_at bit_at_def word_bytes_bit)

text \<open>A word of a prefix.\<close>

definition prefix_word :: "nat \<Rightarrow> nat \<Rightarrow> u32" where
  "prefix_word p j = (if j < p div 32 then 0xFFFFFFFF else if j = p div 32 then mask (p mod 32) else 0)"

lemma bit_prefix_word: "bit (prefix_word p j) k \<longleftrightarrow> k < 32 \<and> 32 * j + k < p"
proof -
  have p: "p = 32 * (p div 32) + p mod 32" "p mod 32 < 32" by simp_all
  consider "j < p div 32" | "j = p div 32" | "p div 32 < j" by linarith
  then show ?thesis
  proof cases
    case 1
    then have "32 * j + 32 \<le> p" using p by linarith
    then show ?thesis using 1 bit_ones [of k] by (auto simp: prefix_word_def)
  next
    case 2
    then have "32 * j + k < p \<longleftrightarrow> k < p mod 32" using p by linarith
    then show ?thesis using 2 p(2) by (auto simp: prefix_word_def bit_mask_iff)
  next
    case 3
    then have "\<not> 32 * j + k < p" using p by linarith
    then show ?thesis using 3 by (simp add: prefix_word_def)
  qed
qed

lemma mask_exp: "mask r = (push_bit r 1 - 1 :: 'a::len word)"
  by (simp add: mask_eq_exp_minus_1)

lemma bits_prefix_words:
  assumes ok: "bitmap_ok bm" and p: "p \<le> n_bits bm"
  shows "bits_of bm = {..<p} \<longleftrightarrow> (\<forall>j<last_word_ptr bm. word_at (bitmap bm) j = prefix_word p j) \<and>
    word_at (bitmap bm) (last_word_ptr bm) AND NOT (last_word_mask bm) = prefix_word p (last_word_ptr bm)"
proof -
  let ?m = "bitmap bm" and ?L = "last_word_ptr bm"
  have word: "v = w \<longleftrightarrow> (\<forall>k<32. bit v k = bit w k)" for v w :: u32 by (auto simp: bit_eq_iff)
  have use: "32 * ?L + k < p \<Longrightarrow> k < 32 \<Longrightarrow> \<not> bit (last_word_mask bm) k" for k
    using bitmap_okD(5) [OF ok, of k] p by auto
  have "bits_of bm = {..<p} \<longleftrightarrow> (\<forall>i<n_bits bm. bit_at ?m i = (i < p))" using p by (auto simp: bits_of_def)
  then show ?thesis unfolding all_bits_words [OF ok] word using use
    by (auto simp: bit_word_at bit_prefix_word bit_and_iff bit_not_iff)
qed

lemma bitmap_is_prefix_iff:
  assumes ok: "bitmap_ok bm" and p: "p \<le> n_bits bm"
  shows "bitmap_is_prefix bm p = Some (bits_of bm = {..<p})"
proof -
  let ?m = "bitmap bm" and ?L = "last_word_ptr bm"
  let ?e = "p div 32" and ?r = "p mod 32"
  let ?last = "word_at ?m ?L AND NOT (last_word_mask bm)"
  have eL: "?e \<le> ?L + 1" "?e = ?L + 1 \<Longrightarrow> ?r = 0 \<and> n_bits bm = p"
  proof -
    have "32 * ?e + ?r = p" by simp
    then show "?e \<le> ?L + 1" "?e = ?L + 1 \<Longrightarrow> ?r = 0 \<and> n_bits bm = p"
      using p bitmap_okD(2) [OF ok] by linarith+
  qed
  have room: "4 * ?e \<le> length ?m" "4 * ?L \<le> length ?m"
    using order_trans [OF mult_le_mono2 [OF eL(1), of 4] bitmap_okD(4) [OF ok]] bitmap_okD(4) [OF ok] by simp_all
  from find_word_eq [OF room(1), of 0 "\<lambda>w. w \<noteq> 0xFFFFFFFF"]
  obtain i where i: "find_word (\<lambda>w. w \<noteq> 0xFFFFFFFF) ?m 0 ?e = Some i" "i \<le> ?e" "\<forall>k<i. word_at ?m k = 0xFFFFFFFF"
    "i < ?e \<longrightarrow> word_at ?m i \<noteq> 0xFFFFFFFF" by auto
  have ones: "word_at ?m k = 0xFFFFFFFF" if "bits_of bm = {..<p}" "k < ?e" for k
  proof -
    have "bit (word_at ?m k) x" if x: "x < 32" for x
    proof -
      have "32 * k + x < p" using \<open>k < ?e\<close> x by (metis bit_prefix_word bit_ones prefix_word_def)
      then show ?thesis using \<open>bits_of bm = {..<p}\<close> x by (auto simp: bit_word_at bits_of_def)
    qed
    then show ?thesis by (simp add: word_eq_ones)
  qed
  note goal = bits_prefix_words [OF ok p]
  show ?thesis
  proof (cases "i < ?e")
    case True
    then show ?thesis using i ones p by (auto simp: bitmap_is_prefix_def Let_def)
  next
    case False
    then have ie: "i = ?e" "\<forall>k<?e. word_at ?m k = prefix_word p k" using i by (auto simp: prefix_word_def)
    have w: "get_word ?m ?L = Some (word_at ?m ?L)" by (rule last_word_get [OF ok])
    consider "?e = ?L" "?r \<noteq> 0" | "?e < ?L" "?r \<noteq> 0" | "?e \<le> ?L" "?r = 0" | "?e = ?L + 1" "?r = 0" using eL by linarith
    then show ?thesis
    proof cases
      case 1
      have "uint4korr (word_bytes ?last) 0 = Some ?last"
        using get_word_eq [of 0 "word_bytes ?last"] word_at_bytes [of ?last] by (simp add: get_word_def word_bytes_def)
      then have "bitmap_is_prefix bm p = Some (?last = mask ?r)"
        using i(1) p w 1 ie(1) by (simp add: bitmap_is_prefix_def Let_def mask_exp)
      moreover have "bits_of bm = {..<p} \<longleftrightarrow> ?last = mask ?r" using goal ie(2) 1(1) by (simp add: prefix_word_def)
      ultimately show ?thesis by simp
    next
      case 2
      then have "uint4korr ?m (4 * ?e) = Some (word_at ?m ?e)" using get_word_eq [of ?e ?m] room(2) by (simp add: get_word_def)
      moreover from find_word_eq [OF room(2), of "?e + 1" "\<lambda>w. w \<noteq> 0"] 2(1)
      obtain j where j: "find_word (\<lambda>w. w \<noteq> 0) ?m (?e + 1) ?L = Some j" "?e + 1 \<le> j" "j \<le> ?L"
        "\<forall>k. ?e + 1 \<le> k \<and> k < j \<longrightarrow> word_at ?m k = 0" "j < ?L \<longrightarrow> word_at ?m j \<noteq> 0" by auto
      ultimately have "bitmap_is_prefix bm p = Some (word_at ?m ?e = mask ?r \<and> \<not> j < ?L \<and> ?last = 0)"
        using i(1) p w 2 ie(1) by (simp add: bitmap_is_prefix_def Let_def mask_exp)
      moreover have "bits_of bm = {..<p} \<longleftrightarrow> word_at ?m ?e = mask ?r \<and> \<not> j < ?L \<and> ?last = 0"
      proof -
        have "(\<forall>k<?L. word_at ?m k = prefix_word p k) \<longleftrightarrow> word_at ?m ?e = mask ?r \<and> (\<forall>k. ?e + 1 \<le> k \<and> k < ?L \<longrightarrow> word_at ?m k = 0)"
          using ie(2) 2(1) unfolding prefix_word_def by (auto simp: not_less_eq_eq Suc_le_eq)
        moreover have "(\<forall>k. ?e + 1 \<le> k \<and> k < ?L \<longrightarrow> word_at ?m k = 0) \<longleftrightarrow> \<not> j < ?L"
          using j(2-5) by (metis le_neq_implies_less linorder_not_less)
        ultimately show ?thesis using goal 2(1) by (simp add: prefix_word_def)
      qed
      ultimately show ?thesis by simp
    next
      case 3
      from find_word_eq [OF room(2), of "?e" "\<lambda>w. w \<noteq> 0"] 3(1)
      obtain j where j: "find_word (\<lambda>w. w \<noteq> 0) ?m ?e ?L = Some j" "?e \<le> j" "j \<le> ?L"
        "\<forall>k. ?e \<le> k \<and> k < j \<longrightarrow> word_at ?m k = 0" "j < ?L \<longrightarrow> word_at ?m j \<noteq> 0" by auto
      then have "bitmap_is_prefix bm p = Some (\<not> j < ?L \<and> ?last = 0)"
        using i(1) p w 3 ie(1) by (simp add: bitmap_is_prefix_def Let_def)
      moreover have "bits_of bm = {..<p} \<longleftrightarrow> \<not> j < ?L \<and> ?last = 0"
      proof -
        have "(\<forall>k<?L. word_at ?m k = prefix_word p k) \<longleftrightarrow> (\<forall>k. ?e \<le> k \<and> k < ?L \<longrightarrow> word_at ?m k = 0)"
          using ie(2) 3 unfolding prefix_word_def by (auto simp: not_less)
        moreover have "(\<forall>k. ?e \<le> k \<and> k < ?L \<longrightarrow> word_at ?m k = 0) \<longleftrightarrow> \<not> j < ?L"
          using j(2-5) by (metis le_neq_implies_less linorder_not_less)
        moreover have "prefix_word p ?L = 0" using 3 by (simp add: prefix_word_def)
        ultimately show ?thesis using goal by simp
      qed
      ultimately show ?thesis by simp
    next
      case 4
      have "find_word (\<lambda>w. w \<noteq> 0) ?m ?e ?L = Some ?e" using 4 by (subst find_word.simps) simp
      then have "bitmap_is_prefix bm p = Some True"
        using i(1) p w 4 ie(1) by (simp add: bitmap_is_prefix_def Let_def)
      moreover have "bits_of bm = {..<p}"
      proof -
        have "n_bits bm = p" using eL(2) 4 by blast
        moreover have "bit_at ?m x" if "x < p" for x
        proof -
          have "x div 32 < ?e" using that 4 by (metis div_less_iff_less_mult mult.commute mult_div_mod_eq add_0_right zero_less_numeral)
          then have "word_at ?m (x div 32) = 0xFFFFFFFF" using i(3) ie(1) by blast
          then show ?thesis using bit_at_word [of ?m x] bit_ones [of "x mod 32"] by simp
        qed
        ultimately show ?thesis by (auto simp: bits_of_def)
      qed
      ultimately show ?thesis by simp
    qed
  qed
qed

section \<open>Filling\<close>

lemma memset_eq:
  assumes "p + n \<le> length m"
  shows "\<exists>m'. memset m p b n = Some m' \<and> length m' = length m \<and>
    (\<forall>i. bit_at m' i \<longleftrightarrow> (if p \<le> i div 8 \<and> i div 8 < p + n then bit b (i mod 8) else bit_at m i))"
proof -
  let ?m = "take p m @ replicate n b @ drop (p + n) m"
  have "?m ! q = (if p \<le> q \<and> q < p + n then b else m ! q)" for q
  proof -
    consider "q < p" | "p \<le> q" "q < p + n" | "p + n \<le> q" by linarith
    then show ?thesis using assms by cases (auto simp: nth_append less_diff_conv2)
  qed
  then have "bit_at ?m i \<longleftrightarrow> (if p \<le> i div 8 \<and> i div 8 < p + n then bit b (i mod 8) else bit_at m i)" for i
    unfolding bit_at_def by simp
  moreover have "memset m p b n = Some ?m" "length ?m = length m" using assms by (simp_all add: memset_def)
  ultimately show ?thesis by blast
qed

lemma bit_FF: "bit (0xFF :: u8) k \<longleftrightarrow> k < 8"
proof -
  have "(0xFF :: u8) = - 1" by simp
  then show ?thesis unfolding \<open>(0xFF :: u8) = - 1\<close> by (simp add: bit_minus_1_iff)
qed

lemma no_bytes_eq:
  assumes "bitmap_ok bm"
  shows "no_bytes_in_map bm = (n_bits bm + 7) div 8" "no_bytes_in_map bm \<le> 4 * (last_word_ptr bm + 1)"
proof -
  show e: "no_bytes_in_map bm = (n_bits bm + 7) div 8"
    using bitmap_okD(3) [OF assms] by (simp add: no_bytes_in_map_def uint_wrap_def)
  have "n_bits bm + 7 < 8 * (4 * (last_word_ptr bm + 1) + 1)" using bitmap_okD(2) [OF assms] by simp
  then have "(n_bits bm + 7) div 8 < 4 * (last_word_ptr bm + 1) + 1" by (subst div_less_iff_less_mult) (simp_all add: mult.commute)
  then show "no_bytes_in_map bm \<le> 4 * (last_word_ptr bm + 1)" by (simp add: e)
qed

lemma bitmap_fill_set:
  assumes ok: "bitmap_ok bm"
  shows "\<exists>bm'. bitmap_clear_all bm = Some bm' \<and> bitmap_ok bm' \<and> n_bits bm' = n_bits bm \<and> bits_of bm' = {}"
    and "\<exists>bm'. bitmap_set_all bm = Some bm' \<and> bitmap_ok bm' \<and> n_bits bm' = n_bits bm \<and> bits_of bm' = {..<n_bits bm}"
proof -
  have r: "0 + 4 * no_words_in_map bm \<le> length (bitmap bm)" using bitmap_okD(4) [OF ok] bitmap_ok_words [OF ok] by simp
  have inside: "i div 8 < 0 + 4 * no_words_in_map bm" if "i < n_bits bm" for i
    using bit_word_index [OF ok that] div_mult2_eq [of i 8 4] bitmap_ok_words [OF ok] by simp
  from memset_eq [OF r, of 0]
  obtain m' where m': "memset (bitmap bm) 0 0 (4 * no_words_in_map bm) = Some m'" "length m' = length (bitmap bm)"
    "\<And>i. bit_at m' i \<longleftrightarrow> (if 0 \<le> i div 8 \<and> i div 8 < 0 + 4 * no_words_in_map bm then bit (0 :: u8) (i mod 8) else bit_at (bitmap bm) i)"
    by blast
  have "bits_of (bm\<lparr>bitmap := m'\<rparr>) = {}" using inside by (auto simp: bits_of_def m'(3))
  then show "\<exists>bm'. bitmap_clear_all bm = Some bm' \<and> bitmap_ok bm' \<and> n_bits bm' = n_bits bm \<and> bits_of bm' = {}"
    using m'(1) bitmap_ok_update [OF ok m'(2)] by (simp add: bitmap_clear_all_def)
  from memset_eq [OF r, of "0xFF"]
  obtain m1 where m1: "memset (bitmap bm) 0 0xFF (4 * no_words_in_map bm) = Some m1" "length m1 = length (bitmap bm)"
    "\<And>i. bit_at m1 i \<longleftrightarrow> (if 0 \<le> i div 8 \<and> i div 8 < 0 + 4 * no_words_in_map bm then bit (0xFF :: u8) (i mod 8) else bit_at (bitmap bm) i)"
    by blast
  have "bits_of (bm\<lparr>bitmap := m1\<rparr>) = {..<n_bits bm}" using inside
    by (auto simp: bits_of_def m1(3) bit_FF simp del: bit_numeral_word_iff)
  then show "\<exists>bm'. bitmap_set_all bm = Some bm' \<and> bitmap_ok bm' \<and> n_bits bm' = n_bits bm \<and> bits_of bm' = {..<n_bits bm}"
    using m1(1) bitmap_ok_update [OF ok m1(2)] by (simp add: bitmap_set_all_def)
qed

lemma set_bytes_eq:
  assumes "e \<le> length m"
  shows "\<exists>m'. set_bytes b m i e = Some m' \<and> length m' = length m \<and>
    (\<forall>x. bit_at m' x \<longleftrightarrow> (if i \<le> x div 8 \<and> x div 8 < e then bit b (x mod 8) else bit_at m x))"
  using assms
proof (induction "e - i" arbitrary: i m)
  case 0
  then show ?case by (subst set_bytes.simps) auto
next
  case (Suc n)
  then have i: "i < e" "i < length m" by auto
  have "n = e - (i + 1)" "e \<le> length (m[i := b])" using Suc.hyps(2) Suc.prems by simp_all
  from Suc.hyps(1) [OF this] obtain m' where m': "set_bytes b (m[i := b]) (i + 1) e = Some m'" "length m' = length m"
    "\<forall>x. bit_at m' x \<longleftrightarrow> (if i + 1 \<le> x div 8 \<and> x div 8 < e then bit b (x mod 8) else bit_at (m[i := b]) x)" by auto
  have "set_bytes b m i e = Some m'" using i m'(1) by (subst set_bytes.simps) simp
  moreover have "bit_at m' x \<longleftrightarrow> (if i \<le> x div 8 \<and> x div 8 < e then bit b (x mod 8) else bit_at m x)" for x
  proof (cases "x div 8 = i")
    case True
    then have "bit_at (m[i := b]) x = bit b (x mod 8)" using i by (simp add: bit_at_def)
    then show ?thesis using i m'(3) True by simp
  next
    case False
    then have "i + 1 \<le> x div 8 \<longleftrightarrow> i \<le> x div 8" by linarith
    moreover have "bit_at (m[i := b]) x = bit_at m x" using False by (simp add: bit_at_def)
    ultimately show ?thesis using m'(3) by simp
  qed
  ultimately show ?case using m'(2) by blast
qed

lemma bitmap_set_above_set:
  assumes ok: "bitmap_ok bm"
  shows "\<exists>bm'. bitmap_set_above bm from_byte use_bit = Some bm' \<and> bitmap_ok bm' \<and> n_bits bm' = n_bits bm \<and>
    bits_of bm' = (if use_bit \<noteq> 0 then bits_of bm \<union> {8 * from_byte..<n_bits bm} else bits_of bm \<inter> {..<8 * from_byte})"
proof -
  let ?b = "if use_bit \<noteq> 0 then 0xFF else 0 :: u8" and ?e = "no_bytes_in_map bm"
  have "?e \<le> length (bitmap bm)" using no_bytes_eq(2) [OF ok] bitmap_okD(4) [OF ok] by linarith
  from set_bytes_eq [OF this, of ?b from_byte]
  obtain m' where m': "set_bytes ?b (bitmap bm) from_byte ?e = Some m'" "length m' = length (bitmap bm)"
    "\<And>x. bit_at m' x \<longleftrightarrow> (if from_byte \<le> x div 8 \<and> x div 8 < ?e then bit ?b (x mod 8) else bit_at (bitmap bm) x)" by blast
  have "x div 8 < ?e" if "x < n_bits bm" for x
    using that unfolding no_bytes_eq(1) [OF ok] by (simp add: div_less_iff_less_mult)
  moreover have "from_byte \<le> x div 8 \<longleftrightarrow> 8 * from_byte \<le> x" for x by (simp add: less_eq_div_iff_mult_less_eq mult.commute)
  moreover have "bit ?b (x mod 8) \<longleftrightarrow> use_bit \<noteq> 0" for x by (simp add: bit_FF del: bit_numeral_word_iff)
  ultimately have "bits_of (bm\<lparr>bitmap := m'\<rparr>) =
      (if use_bit \<noteq> 0 then bits_of bm \<union> {8 * from_byte..<n_bits bm} else bits_of bm \<inter> {..<8 * from_byte})"
    unfolding bits_of_def by (auto simp: m'(3) split: if_splits)
  moreover have "bitmap_set_above bm from_byte use_bit = Some (bm\<lparr>bitmap := m'\<rparr>)"
    using m'(1) by (simp add: bitmap_set_above_def no_bytes_in_map_def Let_def)
  ultimately show ?thesis using bitmap_ok_update [OF ok m'(2)] by simp
qed

section \<open>Set-up\<close>

lemma bit_split:
  assumes "0 < (n :: nat)"
  obtains L q u where "n = 32 * L + 8 * q + u" "q < 4" "1 \<le> u" "u \<le> 8" "(n + 31) div 32 = L + 1"
    "(n + 7) div 8 = 4 * L + q + 1" "(n - 1) mod 8 = u - 1"
proof -
  have "n - 1 = 8 * (4 * ((n - 1) div 8 div 4) + (n - 1) div 8 mod 4) + (n - 1) mod 8" by simp
  moreover have "(n - 1) div 8 mod 4 < 4" "(n - 1) mod 8 < 8" by simp_all
  ultimately obtain L q r where e: "n - 1 = 8 * (4 * L + q) + r" "q < 4" "r < 8" by blast
  have n: "n = 8 * (4 * L + q) + r + 1" using e(1) assms by linarith
  have r1: "(32 * k + x) div 32 = k" if "x < 32" for k x :: nat using that by simp
  have r2: "(8 * k + x) div 8 = k" if "x < 8" for k x :: nat using that by simp
  have "n + 31 = 32 * (L + 1) + (8 * q + r)" using n by simp
  moreover have "8 * q + r < 32" using e(2,3) by linarith
  ultimately have "(n + 31) div 32 = L + 1" by (simp only: r1)
  moreover have "n + 7 = 8 * (4 * L + q + 1) + r" using n by simp
  then have "(n + 7) div 8 = 4 * L + q + 1" using e(3) by (simp only: r2)
  moreover have "(n - 1) mod 8 = r" using e(3) unfolding e(1) by (simp only: mod_mult_self4 mod_less)
  ultimately show ?thesis using n e(2,3) by (intro that [of L q "r + 1"]) auto
qed

lemma bit_high_mask: "u \<le> 8 \<Longrightarrow> bit (ucast (NOT (push_bit u 1 - 1 :: u32) AND 255) :: u8) k \<longleftrightarrow> u \<le> k \<and> k < 8"
proof -
  have m: "(255 :: u32) = mask 8" by (simp add: mask_eq_exp_minus_1)
  show ?thesis unfolding m mask_exp [symmetric]
    by (auto simp: bit_unsigned_iff bit_and_iff bit_not_iff bit_mask_iff)
qed

lemma create_last_word_mask_ok:
  assumes "0 < n_bits bm" "n_bits bm + 31 < 2 ^ 32" "4 * ((n_bits bm + 31) div 32) \<le> length (bitmap bm)"
  shows "\<exists>bm'. create_last_word_mask bm = Some bm' \<and> bitmap_ok bm' \<and> n_bits bm' = n_bits bm \<and> bitmap bm' = bitmap bm"
proof -
  obtain L q u where n: "n_bits bm = 32 * L + 8 * q + u" "q < 4" "1 \<le> u" "u \<le> 8" "(n_bits bm + 31) div 32 = L + 1"
    "(n_bits bm + 7) div 8 = 4 * L + q + 1" "(n_bits bm - 1) mod 8 = u - 1" by (rule bit_split [OF assms(1)])
  define mk :: u8 where "mk = ucast (NOT (push_bit u 1 - 1 :: u32) AND 255)"
  define bytes where "bytes = map (\<lambda>t. if t < q then 0 else if t = q then mk else 0xFF) [0..<4]"
  have used: "1 + uint_dec (n_bits bm) mod 8 = u" using assms(1) n(3,7) by (simp add: uint_dec_def)
  have words: "no_words_in_map bm = L + 1" "no_bytes_in_map bm mod 4 = (q + 1) mod 4"
    using assms(2) n(5,6) by (simp_all add: no_words_in_map_def no_bytes_in_map_def uint_wrap_def mod_add_left_eq [of "4 * L"])
  have list: "(let r = (q + 1) mod 4 in
      if r = 1 then [0xFF, 0xFF, 0xFF, 0xFF][0 := mk]
      else if r = 2 then [0xFF, 0xFF, 0xFF, 0xFF][0 := 0, 1 := mk]
      else if r = 3 then [0, 0, 0, 0][2 := mk, 3 := 0xFF]
      else [0, 0, 0, 0][3 := mk]) = bytes"
  proof -
    consider "q = 0" | "q = 1" | "q = 2" | "q = 3" using n(2) by linarith
    then show ?thesis by cases (simp_all add: bytes_def upt_rec Let_def)
  qed
  have w: "uint4korr bytes 0 = Some (word_at bytes 0)" using get_word_eq [of 0 bytes] by (simp add: get_word_def bytes_def)
  have c: "create_last_word_mask bm = Some (bm\<lparr>last_word_ptr := L, last_word_mask := word_at bytes 0\<rparr>)"
    unfolding create_last_word_mask_def used words mk_def [symmetric] Let_def [of u] Let_def [of mk]
    unfolding Let_def [of "[0xFF, 0xFF, 0xFF, 0xFF]"] Let_def [of "[0, 0, 0, 0]"] list Let_def [of bytes] w by simp
  have mkb: "bit mk x \<longleftrightarrow> u \<le> x \<and> x < 8" for x unfolding mk_def by (rule bit_high_mask [OF n(4)])
  have "bit (word_at bytes 0) k \<longleftrightarrow> n_bits bm \<le> 32 * L + k" if k: "k < 32" for k
  proof -
    have "k div 8 < 4" using k by simp
    then have "bit (word_at bytes 0) k \<longleftrightarrow> bit (if k div 8 < q then 0 else if k div 8 = q then mk else 0xFF) (k mod 8)"
      using k by (simp add: bit_word_at bit_at_def bytes_def)
    also have "\<dots> \<longleftrightarrow> q < k div 8 \<or> k div 8 = q \<and> u \<le> k mod 8"
      by (cases "k div 8" q rule: linorder_cases) (simp_all add: mkb bit_FF del: bit_numeral_word_iff)
    also have "\<dots> \<longleftrightarrow> n_bits bm \<le> 32 * L + k"
    proof -
      obtain a b where ab: "a = k div 8" "b = k mod 8" by blast
      have k: "k = 8 * a + b" "b < 8" by (simp_all add: ab)
      show ?thesis unfolding ab [symmetric] n(1) using n(3,4) k by auto
    qed
    finally show ?thesis .
  qed
  then have "bitmap_ok (bm\<lparr>last_word_ptr := L, last_word_mask := word_at bytes 0\<rparr>)"
    using n assms(2,3) by (simp add: bitmap_ok_def)
  then show ?thesis using c by simp
qed

lemma bitmap_init_ok:
  assumes "0 < bits" "bits + 31 < 2 ^ 32" "buf \<noteq> None \<longrightarrow> \<not> thread_safe"
    and "\<And>b. buf = Some b \<Longrightarrow> 4 * ((bits + 31) div 32) \<le> length b"
  shows "\<exists>r bm'. bitmap_init ok junk buf bits thread_safe bm = Some (r, bm') \<and> (r \<longleftrightarrow> buf = None \<and> \<not> ok) \<and>
    (\<not> r \<longrightarrow> bitmap_ok bm' \<and> n_bits bm' = bits \<and> bits_of bm' = {})"
proof -
  let ?size = "bitmap_buffer_size bits"
  let ?sz = "if thread_safe then uint_wrap ((?size + 7) div 8 * 8) else ?size"
  have "(bits + 31) div 32 * 4 < 2 ^ 32 - 7" using assms(2) by simp
  then have size: "?size = 4 * ((bits + 31) div 32)" "?size + 7 < 2 ^ 32"
    using assms(2) by (simp_all add: bitmap_buffer_size_def uint_wrap_def)
  have "(?size + 7) div 8 * 8 \<le> ?size + 7" by simp
  then have "(?size + 7) div 8 * 8 < 2 ^ 32" using size(2) by linarith
  moreover have "?size \<le> (?size + 7) div 8 * 8" by linarith
  ultimately have sz: "4 * ((bits + 31) div 32) \<le> ?sz" using size(1) by (simp add: uint_wrap_id)
  have go: "\<exists>bm'. do { bm \<leftarrow> create_last_word_mask (bm\<lparr>bitmap := b, n_bits := bits\<rparr>);
                    bm \<leftarrow> bitmap_clear_all bm; Some (False, bm) } = Some (False, bm') \<and>
      bitmap_ok bm' \<and> n_bits bm' = bits \<and> bits_of bm' = {}" if b: "4 * ((bits + 31) div 32) \<le> length b" for b
  proof -
    obtain bm1 where bm1: "create_last_word_mask (bm\<lparr>bitmap := b, n_bits := bits\<rparr>) = Some bm1" "bitmap_ok bm1" "n_bits bm1 = bits"
      using create_last_word_mask_ok [of "bm\<lparr>bitmap := b, n_bits := bits\<rparr>"] assms(1,2) b by auto
    then show ?thesis using bitmap_fill_set(1) [OF bm1(2)] by auto
  qed
  show ?thesis
  proof (cases buf)
    case None
    show ?thesis
    proof (cases ok)
      case True
      have "4 * ((bits + 31) div 32) \<le> length (map junk [0..<?sz])" using sz by simp
      from go [OF this] show ?thesis using None True by (auto simp: bitmap_init_def Let_def malloc_slots_def)
    qed (use None in \<open>auto simp: bitmap_init_def Let_def malloc_slots_def\<close>)
  next
    case (Some b)
    then show ?thesis using go [OF assms(4) [OF Some]] assms(3) by (auto simp: bitmap_init_def Let_def)
  qed
qed

text \<open>\<open>bitmap_set_prefix\<close> gives the prefix when it stays inside the buffer. The byte count of its last call
  of \<open>bzero\<close> does not take into account that a partly filled byte has been written already, so the call
  goes one byte too far.\<close>

definition prefix_overruns :: "my_bitmap \<Rightarrow> nat \<Rightarrow> bool" where
  "prefix_overruns bm p \<longleftrightarrow> p mod 8 \<noteq> 0 \<and> length (bitmap bm) \<le> (n_bits bm + 7) div 8"

lemma bitmap_set_prefix_set:
  assumes ok: "bitmap_ok bm" and p: "p \<le> n_bits bm"
  shows "prefix_overruns bm p \<Longrightarrow> bitmap_set_prefix bm p = None"
    and "\<not> prefix_overruns bm p \<Longrightarrow> \<exists>bm'. bitmap_set_prefix bm p = Some bm' \<and> bitmap_ok bm' \<and> n_bits bm' = n_bits bm \<and>
      bits_of bm' = {..<p}"
proof -
  let ?m = "bitmap bm"
  define q where "q = p div 8"
  define r where "r = p mod 8"
  define nb where "nb = no_bytes_in_map bm"
  have pq: "p = 8 * q + r" "r < 8" by (simp_all add: q_def r_def)
  have nb: "nb = (n_bits bm + 7) div 8" "nb \<le> length ?m"
    using no_bytes_eq [OF ok] bitmap_okD(4) [OF ok] by (simp_all add: nb_def)
  have nbn: "n_bits bm \<le> 8 * nb" unfolding nb(1) by linarith
  have qnb: "q \<le> nb" "r \<noteq> 0 \<Longrightarrow> q < nb" using pq p nbn by linarith+
  obtain m1 where m1: "(if q \<noteq> 0 then memset ?m 0 0xFF q else Some ?m) = Some m1" "length m1 = length ?m"
    "\<And>i. bit_at m1 i \<longleftrightarrow> i div 8 < q \<or> bit_at ?m i"
  proof (cases "q = 0")
    case False
    have "0 + q \<le> length ?m" using qnb(1) nb(2) by simp
    from memset_eq [OF this, of "0xFF"] obtain m1 where "memset ?m 0 0xFF q = Some m1" "length m1 = length ?m"
      "\<And>i. bit_at m1 i \<longleftrightarrow> (if 0 \<le> i div 8 \<and> i div 8 < 0 + q then bit (0xFF :: u8) (i mod 8) else bit_at ?m i)" by blast
    then show thesis using False by (intro that [of m1]) (auto simp: bit_FF simp del: bit_numeral_word_iff)
  qed (use that in auto)
  obtain pp m2 where m2: "(if r \<noteq> 0 then do { m \<leftarrow> aset m1 q (push_bit r 1 - 1); Some (q + 1, m) } else Some (q, m1)) = Some (pp, m2)"
    "pp = (if r \<noteq> 0 then q + 1 else q)" "length m2 = length ?m"
    "\<And>i. bit_at m2 i \<longleftrightarrow> (if r \<noteq> 0 \<and> i div 8 = q then i mod 8 < r else bit_at m1 i)"
  proof (cases "r = 0")
    case False
    then have "q < length m1" using qnb(2) nb(2) m1(2) by simp
    moreover have "bit (push_bit r 1 - 1 :: u8) (i mod 8) \<longleftrightarrow> i mod 8 < r" for i
      unfolding mask_exp [symmetric] using pq(2) by (auto simp: bit_mask_iff)
    ultimately show thesis using False m1(2)
      by (intro that [of "q + 1" "m1[q := push_bit r 1 - 1]"]) (auto simp: bit_at_def nth_list_update)
  qed (use that m1(2) in auto)
  have prog: "bitmap_set_prefix bm p =
      do { m \<leftarrow> (if nb - q \<noteq> 0 then memset m2 pp 0 (nb - q) else Some m2); Some (bm\<lparr>bitmap := m\<rparr>) }"
    by (simp only: bitmap_set_prefix_def Let_def min_absorb1 [OF p] q_def [symmetric] r_def [symmetric] nb_def [symmetric]
        p simp_thms dbug_assert_True m1(1) m2(1) Option.bind.bind_lunit prod.case)
  show "bitmap_set_prefix bm p = None" if "prefix_overruns bm p"
    using that qnb(2) m2(2,3) nb by (auto simp: prog prefix_overruns_def r_def [symmetric] memset_def)
  show "\<exists>bm'. bitmap_set_prefix bm p = Some bm' \<and> bitmap_ok bm' \<and> n_bits bm' = n_bits bm \<and> bits_of bm' = {..<p}"
    if no: "\<not> prefix_overruns bm p"
  proof -
    have room: "pp + (nb - q) \<le> length m2"
      using no qnb m2(2,3) nb by (auto simp: prefix_overruns_def r_def [symmetric])
    from memset_eq [OF room, of 0] obtain m3 where m3: "memset m2 pp 0 (nb - q) = Some m3" "length m3 = length m2"
      "\<And>i. bit_at m3 i \<longleftrightarrow> (if pp \<le> i div 8 \<and> i div 8 < pp + (nb - q) then bit (0 :: u8) (i mod 8) else bit_at m2 i)" by blast
    have "memset m2 pp 0 0 = Some m2" using room by (simp add: memset_def)
    then have "bitmap_set_prefix bm p = Some (bm\<lparr>bitmap := m3\<rparr>)"
      using m3(1) by (auto simp: prog)
    moreover have "bit_at m3 i \<longleftrightarrow> i < p" if i: "i < n_bits bm" for i
    proof -
      have ii: "8 * (i div 8) + i mod 8 = i" "i mod 8 < 8" by simp_all
      have lt: "i div 8 < nb" using i nbn by (simp add: div_less_iff_less_mult mult.commute)
      consider "i div 8 < q" | "i div 8 = q" | "q < i div 8" by linarith
      then show ?thesis
      proof cases
        case 1
        then have "i < p" using pq ii by linarith
        then show ?thesis using 1 by (simp add: m3(3) m2(2,4) m1(3))
      next
        case 2
        then have "i < p \<longleftrightarrow> i mod 8 < r" using pq ii by linarith
        then show ?thesis using 2 lt by (simp add: m3(3) m2(2,4))
      next
        case 3
        then have "\<not> i < p" using pq ii by linarith
        then show ?thesis using 3 lt by (simp add: m3(3) m2(2))
      qed
    qed
    then have "bits_of (bm\<lparr>bitmap := m3\<rparr>) = {..<p}" using p by (auto simp: bits_of_def)
    ultimately show ?thesis using bitmap_ok_update [OF ok, of m3] m3(2) m2(3) by simp
  qed
qed

section \<open>Handing out bits\<close>

primrec repeat_next :: "('m \<Rightarrow> (nat \<times> 'm) option) \<Rightarrow> nat \<Rightarrow> 'm \<Rightarrow> (nat list \<times> 'm) option" where
  "repeat_next nx 0 m = Some ([], m)"
| "repeat_next nx (Suc k) m = do { (b, m) \<leftarrow> nx m; (bs, m) \<leftarrow> repeat_next nx k m; Some (b # bs, m) }"

text \<open>What \<open>bitmap_set_next\<close> needs from a bit set: the least free number and marking a number as used.\<close>

locale slot_set =
  fixes inv :: "'m \<Rightarrow> bool" and cap :: "'m \<Rightarrow> nat" and used :: "'m \<Rightarrow> nat set"
    and first_free :: "'m \<Rightarrow> nat option" and mark :: "'m \<Rightarrow> nat \<Rightarrow> 'm option" and none :: nat
  assumes used_below: "inv m \<Longrightarrow> used m \<subseteq> {..<cap m}"
    and none_above: "inv m \<Longrightarrow> cap m \<le> none"
    and first_free: "inv m \<Longrightarrow>
      first_free m = Some (if used m = {..<cap m} then none else Min ({..<cap m} - used m))"
    and mark: "inv m \<Longrightarrow> b < cap m \<Longrightarrow>
      \<exists>m'. mark m b = Some m' \<and> inv m' \<and> cap m' = cap m \<and> used m' = insert b (used m)"
begin

definition next_slot :: "'m \<Rightarrow> (nat \<times> 'm) option" where
  "next_slot m =
     do { b \<leftarrow> first_free m; m' \<leftarrow> (if b \<noteq> none then mark m b else Some m); Some (b, m') }"

lemma next_slot_full: "inv m \<Longrightarrow> used m = {..<cap m} \<Longrightarrow> next_slot m = Some (none, m)"
  by (simp add: next_slot_def first_free)

lemma next_slot_free:
  assumes "inv m" "used m \<noteq> {..<cap m}"
  shows "\<exists>m'. next_slot m = Some (Min ({..<cap m} - used m), m') \<and> inv m' \<and> cap m' = cap m \<and>
    used m' = insert (Min ({..<cap m} - used m)) (used m) \<and> Min ({..<cap m} - used m) \<in> {..<cap m} - used m"
proof -
  have "{..<cap m} - used m \<noteq> {}" using assms used_below by blast
  then have in_free: "Min ({..<cap m} - used m) \<in> {..<cap m} - used m" by (intro Min_in) auto
  then have lt: "Min ({..<cap m} - used m) < cap m" by blast
  then have ne: "Min ({..<cap m} - used m) \<noteq> none" using none_above [OF assms(1)] by linarith
  obtain m' where m': "mark m (Min ({..<cap m} - used m)) = Some m'" "inv m'" "cap m' = cap m"
    "used m' = insert (Min ({..<cap m} - used m)) (used m)" using mark [OF assms(1) lt] by blast
  have "next_slot m = Some (Min ({..<cap m} - used m), m')"
    using assms(2) ne m'(1) by (simp add: next_slot_def first_free [OF assms(1)])
  then show ?thesis using m' in_free by blast
qed

lemma next_slot_enumerates:
  "inv m \<Longrightarrow> card ({..<cap m} - used m) = k \<Longrightarrow>
   \<exists>m'. repeat_next next_slot k m = Some (sorted_list_of_set ({..<cap m} - used m), m') \<and> inv m' \<and>
     cap m' = cap m \<and> used m' = {..<cap m}"
proof (induction k arbitrary: m)
  case 0
  then have "{..<cap m} - used m = {}" by (simp del: Diff_eq_empty_iff)
  moreover from this have "used m = {..<cap m}" using used_below [OF 0(1)] by blast
  ultimately show ?case using 0(1) by simp
next
  case (Suc k)
  let ?F = "{..<cap m} - used m"
  have "used m \<noteq> {..<cap m}"
  proof
    assume "used m = {..<cap m}"
    then show False using Suc.prems(2) by simp
  qed
  from next_slot_free [OF Suc.prems(1) this] obtain m1 where m1: "next_slot m = Some (Min ?F, m1)" "inv m1" "cap m1 = cap m"
    "used m1 = insert (Min ?F) (used m)" "Min ?F \<in> ?F" by blast
  have F: "{..<cap m1} - used m1 = ?F - {Min ?F}" unfolding m1(3,4) by (rule Diff_insert)
  then have "card ({..<cap m1} - used m1) = k" using Suc.prems(2) m1(5) by simp
  from Suc.IH [OF m1(2) this] obtain m2 where m2: "repeat_next next_slot k m1 = Some (sorted_list_of_set (?F - {Min ?F}), m2)"
    "inv m2" "cap m2 = cap m" "used m2 = {..<cap m}" unfolding F [unfolded m1(3)] m1(3) by (elim exE conjE) (rule that)
  have "sorted_list_of_set ?F = Min ?F # sorted_list_of_set (?F - {Min ?F})"
  proof (rule sorted_list_of_set_nonempty)
    show "?F \<noteq> {}" using m1(5) by blast
  qed simp
  then have "repeat_next next_slot (Suc k) m = Some (sorted_list_of_set ?F, m2)" using m1(1) m2(1) by simp
  then show ?case using m2(2-4) by blast
qed

end

interpretation bits: slot_set bitmap_ok n_bits bits_of bitmap_get_first bitmap_set_bit MY_BIT_NONE
proof
  show "bits_of bm \<subseteq> {..<n_bits bm}" for bm by (auto simp: bits_of_def)
  show "n_bits bm \<le> MY_BIT_NONE" if "bitmap_ok bm" for bm
    using bitmap_okD(3) [OF that] by (simp add: MY_BIT_NONE_def)
qed (simp_all add: bitmap_get_first_min bitmap_single_bits(1))

lemma bitmap_set_next_slot: "bitmap_set_next = bits.next_slot"
  by (intro ext) (simp add: bitmap_set_next_def bits.next_slot_def)

section \<open>Properties\<close>

text \<open>An operation succeeds and leaves a bitmap of \<open>n\<close> bits that holds the set \<open>S\<close>.\<close>

definition becomes :: "my_bitmap option \<Rightarrow> nat \<Rightarrow> nat set \<Rightarrow> bool" where
  "becomes r n S \<longleftrightarrow> (\<exists>bm'. r = Some bm' \<and> bitmap_ok bm' \<and> n_bits bm' = n \<and> bits_of bm' = S)"

definition sample_map :: "u8 \<Rightarrow> my_bitmap" where
  "sample_map b = \<lparr>bitmap = [b, 0, 0, 0], n_bits = 10, last_word_mask = NOT (mask 10), last_word_ptr = 0\<rparr>"

lemma sample_map_ok: "bitmap_ok (sample_map b)"
  by (simp add: bitmap_ok_def sample_map_def bit_not_iff bit_mask_iff not_less)

lemma sample_map_bits: "bits_of (sample_map b) = {i. i < 8 \<and> bit b i}"
proof -
  have "bit_at [b, 0, 0, 0] i \<longleftrightarrow> i < 8 \<and> bit b i" if "i < 10" for i
  proof (cases "i < 8")
    case False
    then have "i = 8 \<or> i = 9" using that by linarith
    then show ?thesis by (auto simp: bit_at_def)
  qed (simp add: bit_at_def)
  then show ?thesis by (auto simp: bits_of_def sample_map_def)
qed

lemma sample_bits_6: "bits_of (sample_map 6) = {1, 2}"
proof -
  have "i < 8 \<and> bit (6 :: u8) i \<longleftrightarrow> i = 1 \<or> i = 2" for i
    by (cases "i < 8") (auto simp: less_Suc_eq numeral_nat)
  then show ?thesis unfolding sample_map_bits by auto
qed

lemma sample_bits_4: "bits_of (sample_map 4) = {2}"
proof -
  have "i < 8 \<and> bit (4 :: u8) i \<longleftrightarrow> i = 2" for i
    by (cases "i < 8") (auto simp: less_Suc_eq numeral_nat)
  then show ?thesis unfolding sample_map_bits by auto
qed

text \<open>C10: on bitmaps of the same size the operations stay inside the buffers, keep the invariant and do to
  the sets of bits what they are for: union, intersection, difference, symmetric difference, copy and
  complement, setting, clearing and flipping a bit, with or without a test of the old value, and setting
  or clearing all bits or all bits from a byte on.\<close>

theorem bitmap_operations_refine_sets:
  assumes "bitmap_ok bm" "bitmap_ok bm2" "n_bits bm2 = n_bits bm" "b < n_bits bm"
  shows "becomes (bitmap_union bm bm2) (n_bits bm) (bits_of bm \<union> bits_of bm2) \<and>
    becomes (bitmap_intersect bm bm2) (n_bits bm) (bits_of bm \<inter> bits_of bm2) \<and>
    becomes (bitmap_subtract bm bm2) (n_bits bm) (bits_of bm - bits_of bm2) \<and>
    becomes (bitmap_xor bm bm2) (n_bits bm) ((bits_of bm - bits_of bm2) \<union> (bits_of bm2 - bits_of bm)) \<and>
    becomes (bitmap_copy bm bm2) (n_bits bm) (bits_of bm2) \<and>
    becomes (bitmap_invert bm) (n_bits bm) ({..<n_bits bm} - bits_of bm) \<and>
    becomes (bitmap_set_bit bm b) (n_bits bm) (insert b (bits_of bm)) \<and>
    becomes (bitmap_clear_bit bm b) (n_bits bm) (bits_of bm - {b}) \<and>
    becomes (bitmap_flip_bit bm b) (n_bits bm) (if b \<in> bits_of bm then bits_of bm - {b} else insert b (bits_of bm)) \<and>
    becomes (map_option snd (bitmap_test_and_set bm b)) (n_bits bm) (insert b (bits_of bm)) \<and>
    becomes (map_option snd (bitmap_test_and_clear bm b)) (n_bits bm) (bits_of bm - {b}) \<and>
    becomes (bitmap_set_all bm) (n_bits bm) {..<n_bits bm} \<and>
    becomes (bitmap_clear_all bm) (n_bits bm) {} \<and>
    becomes (bitmap_set_above bm from_byte 1) (n_bits bm) (bits_of bm \<union> {8 * from_byte..<n_bits bm}) \<and>
    becomes (bitmap_set_above bm from_byte 0) (n_bits bm) (bits_of bm \<inter> {..<8 * from_byte})"
proof -
  note eq = assms(3) [symmetric]
  note setops = bitmap_set_operations [OF assms(1,2) eq]
  note tests = bitmap_test_and_change [OF assms(1,4)]
  have "becomes (map_option snd (bitmap_test_and_set bm b)) (n_bits bm) (insert b (bits_of bm))"
    using tests(1) by (auto simp: becomes_def)
  moreover have "becomes (map_option snd (bitmap_test_and_clear bm b)) (n_bits bm) (bits_of bm - {b})"
    using tests(2) by (auto simp: becomes_def)
  moreover have "becomes (bitmap_set_above bm from_byte 1) (n_bits bm) (bits_of bm \<union> {8 * from_byte..<n_bits bm})"
    using bitmap_set_above_set [OF assms(1), of from_byte 1] by (simp add: becomes_def)
  moreover have "becomes (bitmap_set_above bm from_byte 0) (n_bits bm) (bits_of bm \<inter> {..<8 * from_byte})"
    using bitmap_set_above_set [OF assms(1), of from_byte 0] by (simp add: becomes_def)
  ultimately show ?thesis
    unfolding becomes_def [of "bitmap_union bm bm2"] becomes_def [of "bitmap_intersect bm bm2"]
      becomes_def [of "bitmap_subtract bm bm2"] becomes_def [of "bitmap_xor bm bm2"] becomes_def [of "bitmap_copy bm bm2"]
      becomes_def [of "bitmap_invert bm"] becomes_def [of "bitmap_set_bit bm b"] becomes_def [of "bitmap_clear_bit bm b"]
      becomes_def [of "bitmap_flip_bit bm b"] becomes_def [of "bitmap_set_all bm"] becomes_def [of "bitmap_clear_all bm"]
    using setops bitmap_intersect_set [OF assms(1,2)] bitmap_invert_set [OF assms(1)] bitmap_single_bits [OF assms(1,4)]
      bitmap_fill_set [OF assms(1)] by (intro conjI)
qed

theorem bitmap_operations_refine_sets_witness:
  "becomes (bitmap_xor (sample_map 6) (sample_map 4)) 10 {1} \<and> becomes (bitmap_set_bit (sample_map 6) 9) 10 {9, 1, 2}"
proof -
  have n: "n_bits (sample_map b) = 10" for b by (simp add: sample_map_def)
  show ?thesis
    using bitmap_operations_refine_sets [of "sample_map 6" "sample_map 4" 9] sample_map_ok
    by (simp add: n sample_bits_6 sample_bits_4 insert_Diff_if)
qed

text \<open>C37: the queries answer for the sets of bits: whether a bit is set, whether all bits or none are set,
  whether the set is a prefix, is contained in, meets or equals another one; the least bit that is set
  and the least one that is not, \<open>MY_BIT_NONE\<close> if there is none; and the number of bits that are set.\<close>

theorem bitmap_queries_exact:
  assumes "bitmap_ok bm" "bitmap_ok bm2" "n_bits bm2 = n_bits bm" "b < n_bits bm" "p \<le> n_bits bm"
  shows "map_option (\<lambda>r. r \<noteq> 0) (bitmap_is_set bm b) = Some (b \<in> bits_of bm) \<and>
    map_option (\<lambda>(r, _). r \<noteq> 0) (bitmap_test_and_set bm b) = Some (b \<in> bits_of bm) \<and>
    map_option (\<lambda>(r, _). r \<noteq> 0) (bitmap_test_and_clear bm b) = Some (b \<in> bits_of bm) \<and>
    bitmap_is_set_all bm = Some (bits_of bm = {..<n_bits bm}) \<and>
    bitmap_is_clear_all bm = Some (bits_of bm = {}) \<and>
    bitmap_is_prefix bm p = Some (bits_of bm = {..<p}) \<and>
    bitmap_is_subset bm bm2 = Some (bits_of bm \<subseteq> bits_of bm2) \<and>
    bitmap_is_overlapping bm bm2 = Some (bits_of bm \<inter> bits_of bm2 \<noteq> {}) \<and>
    bitmap_cmp bm bm2 = Some (bits_of bm = bits_of bm2) \<and>
    bitmap_get_first_set bm = Some (if bits_of bm = {} then MY_BIT_NONE else Min (bits_of bm)) \<and>
    bitmap_get_first bm =
      Some (if bits_of bm = {..<n_bits bm} then MY_BIT_NONE else Min ({..<n_bits bm} - bits_of bm)) \<and>
    bitmap_bits_set bm = Some (card (bits_of bm))"
proof (intro conjI)
  note eq = assms(3) [symmetric]
  show "map_option (\<lambda>r. r \<noteq> 0) (bitmap_is_set bm b) = Some (b \<in> bits_of bm)"
    "map_option (\<lambda>(r, _). r \<noteq> 0) (bitmap_test_and_set bm b) = Some (b \<in> bits_of bm)"
    "map_option (\<lambda>(r, _). r \<noteq> 0) (bitmap_test_and_clear bm b) = Some (b \<in> bits_of bm)"
    using bitmap_single_bits(4) [OF assms(1,4)] bitmap_test_and_change [OF assms(1,4)] by auto
qed (rule bitmap_is_set_all_iff bitmap_is_clear_all_iff bitmap_is_prefix_iff bitmap_is_subset_iff bitmap_is_overlapping_iff
    bitmap_cmp_iff bitmap_get_first_set_min bitmap_get_first_min bitmap_bits_set_card; (rule assms assms(3) [symmetric])+)+

theorem bitmap_queries_exact_witness:
  "bitmap_is_subset (sample_map 4) (sample_map 6) = Some True \<and> bitmap_get_first_set (sample_map 4) = Some 2 \<and>
   bitmap_bits_set (sample_map 4) = Some 1"
proof -
  have n: "n_bits (sample_map b) = 10" for b by (simp add: sample_map_def)
  show ?thesis
    using bitmap_queries_exact [of "sample_map 4" "sample_map 6" 9 3] sample_map_ok
    by (simp add: n sample_bits_6 sample_bits_4)
qed

text \<open>C38: a bitmap that \<open>bitmap_init\<close> sets up is empty and well formed, and repeated calls of
  \<open>bitmap_set_next\<close> hand out the numbers from 0 on, each once and in order, until all are used; from then
  on they return \<open>MY_BIT_NONE\<close> and change nothing.\<close>

theorem bitmap_hands_out_all_bits:
  assumes "0 < bits" "bits + 31 < 2 ^ 32"
  shows "\<exists>bm. bitmap_init True junk None bits thread_safe bm0 = Some (False, bm) \<and> bitmap_ok bm \<and> bits_of bm = {} \<and>
    (\<exists>bm'. repeat_next bitmap_set_next bits bm = Some ([0..<bits], bm') \<and> bitmap_set_next bm' = Some (MY_BIT_NONE, bm'))"
proof -
  obtain bm where bm: "bitmap_init True junk None bits thread_safe bm0 = Some (False, bm)" "bitmap_ok bm" "n_bits bm = bits"
    "bits_of bm = {}" using bitmap_init_ok [OF assms, of None thread_safe True junk bm0] by auto
  have "card ({..<n_bits bm} - bits_of bm) = bits" by (simp add: bm(3,4))
  from bits.next_slot_enumerates [OF bm(2) this] obtain bm' where
    "repeat_next bitmap_set_next bits bm = Some (sorted_list_of_set {..<bits}, bm')" "bitmap_ok bm'" "bits_of bm' = {..<n_bits bm'}"
    by (auto simp: bm(3,4) bitmap_set_next_slot)
  then show ?thesis using bm bits.next_slot_full [of bm'] sorted_list_of_set_range [of 0 bits]
    by (simp add: bitmap_set_next_slot atLeast0LessThan)
qed

theorem bitmap_hands_out_all_bits_witness:
  "\<exists>bm. bitmap_init True (\<lambda>_. 7) None 3 False (sample_map 0) = Some (False, bm) \<and>
    (\<exists>bm'. repeat_next bitmap_set_next 3 bm = Some ([0, 1, 2], bm'))"
  using bitmap_hands_out_all_bits [of 3 "\<lambda>_. 7" False "sample_map 0"] by (auto simp: upt_rec)

lemma create_last_word_mask_bitmap: "create_last_word_mask bm = Some bm' \<Longrightarrow> bitmap bm' = bitmap bm"
  unfolding create_last_word_mask_def Let_def by (auto split: bind_splits)

lemma bitmap_clear_all_length: "bitmap_clear_all bm = Some bm' \<Longrightarrow> length (bitmap bm') = length (bitmap bm)"
  by (auto simp: bitmap_clear_all_def memset_def split: bind_splits if_splits)

lemma bitmap_init_length:
  assumes "bitmap_init True junk None bits False bm0 = Some (False, bm)"
  shows "length (bitmap bm) = bitmap_buffer_size bits"
  using assms by (auto simp: bitmap_init_def Let_def malloc_slots_def split: bind_splits
      dest!: create_last_word_mask_bitmap bitmap_clear_all_length)

text \<open>C39: \<open>bitmap_set_prefix\<close> makes the bitmap hold exactly the first \<open>p\<close> bits, unless \<open>p\<close> is not a
  multiple of 8 and no byte follows the bytes of the bits; then it writes one byte behind the buffer.
  A buffer of the size \<open>bitmap_buffer_size\<close> has no such byte when the number of bits is above 24 modulo 32
  or a multiple of 32.\<close>

theorem bitmap_set_prefix_exact:
  assumes "bitmap_ok bm" "p \<le> n_bits bm"
  shows "if p mod 8 \<noteq> 0 \<and> length (bitmap bm) \<le> (n_bits bm + 7) div 8 then bitmap_set_prefix bm p = None
    else becomes (bitmap_set_prefix bm p) (n_bits bm) {..<p}"
  using bitmap_set_prefix_set [OF assms] by (simp add: becomes_def prefix_overruns_def)

theorem bitmap_set_prefix_exact_witness:
  "\<exists>bm. bitmap_init True (\<lambda>_. 7) None 32 False (sample_map 0) = Some (False, bm) \<and> bitmap_set_prefix bm 5 = None"
proof -
  obtain bm where bm: "bitmap_init True (\<lambda>_. 7) None 32 False (sample_map 0) = Some (False, bm)" "bitmap_ok bm" "n_bits bm = 32"
    using bitmap_init_ok [of 32 None False True "\<lambda>_. 7" "sample_map 0"] by auto
  have "length (bitmap bm) = 4" using bitmap_init_length [OF bm(1)] by (simp add: bitmap_buffer_size_def uint_wrap_def)
  then show ?thesis using bitmap_set_prefix_exact [of bm 5] bm by simp
qed

end
